(* ===== verification/Prelude.thy ===== *)
theory Prelude
  imports
    "HOL-Library.Word"
    "HOL-Library.List_Lexorder"
    "HOL-Library.Product_Lexorder"
    "HOL-Library.Option_ord"
    "HOL-Library.Char_ord"
    "HOL-Library.Sublist"
begin

text \<open>
  Shared ground of the development: the machine integers of the Rust sources as
  words, \<open>Result\<close> values as sums, and the two ordered containers the sources use
  everywhere, \<open>BTreeMap\<close> and \<open>BTreeSet\<close>, as strictly ascending lists.  A list
  keeps the iteration order that the Rust code relies on, and every operation
  computes.
\<close>

section \<open>Machine integers\<close>

type_synonym u8 = "8 word"
type_synonym u16 = "16 word"
type_synonym u32 = "32 word"
type_synonym u64 = "64 word"

text \<open>Rust's \<open>checked_add\<close>, \<open>saturating_add\<close> and \<open>saturating_sub\<close>.\<close>

definition checked_add :: "'w::len word \<Rightarrow> 'w word \<Rightarrow> 'w word option" where
  "checked_add a b =
     (if unat a + unat b < 2 ^ LENGTH('w) then Some (a + b) else None)"

definition saturating_add :: "'w::len word \<Rightarrow> 'w word \<Rightarrow> 'w word" where
  "saturating_add a b = (case checked_add a b of Some c \<Rightarrow> c | None \<Rightarrow> - 1)"

definition saturating_sub :: "'w::len word \<Rightarrow> 'w word \<Rightarrow> 'w word" where
  "saturating_sub a b = (if b \<le> a then a - b else 0)"

lemma checked_add_Some:
  "checked_add a b = Some c \<Longrightarrow> unat c = unat a + unat b"
  by (auto simp: checked_add_def unat_word_ariths split: if_splits)

lemma checked_add_ge:
  assumes "checked_add a b = Some c" shows "a \<le> c"
  using checked_add_Some [OF assms] by (simp add: word_le_nat_alt)

lemma checked_add_gt:
  assumes "checked_add a b = Some c" "b \<noteq> 0" shows "a < c"
proof -
  from \<open>b \<noteq> 0\<close> have "0 < unat b" by (simp add: unat_gt_0)
  then show ?thesis using checked_add_Some [OF assms(1)] by (simp add: word_less_nat_alt)
qed

lemma word_less_succ:
  fixes a b :: "'w::len word"
  assumes "a < b" shows "unat (a + 1) = unat a + 1"
proof -
  have "unat b < 2 ^ LENGTH('w)" by (rule unsigned_less)
  moreover from assms have "unat a + 1 \<le> unat b" by (simp add: word_less_nat_alt)
  ultimately have "unat a + 1 < 2 ^ LENGTH('w)" by linarith
  then show ?thesis by (simp add: unat_word_ariths)
qed

lemma word_succ_le:
  fixes a b :: "'w::len word"
  assumes "a < b" shows "a + 1 \<le> b"
  using assms word_less_succ [OF assms] by (simp add: word_le_nat_alt word_less_nat_alt)

lemma word_less_succ_gt:
  fixes a b :: "'w::len word"
  assumes "a < b" shows "a < a + 1"
  using word_less_succ [OF assms] by (simp add: word_less_nat_alt)

section \<open>Results\<close>

text \<open>Rust's \<open>?\<close> over an iterator: the first error stops the traversal.\<close>

fun try_map :: "('a \<Rightarrow> 'e + 'b) \<Rightarrow> 'a list \<Rightarrow> 'e + 'b list" where
  "try_map f [] = Inr []"
| "try_map f (x # xs) =
     (case f x of
        Inl e \<Rightarrow> Inl e
      | Inr y \<Rightarrow> (case try_map f xs of Inl e \<Rightarrow> Inl e | Inr ys \<Rightarrow> Inr (y # ys)))"

definition is_ok :: "'e + 'a \<Rightarrow> bool" where
  "is_ok r \<longleftrightarrow> (case r of Inl _ \<Rightarrow> False | Inr _ \<Rightarrow> True)"

lemma is_ok_simps [simp]: "is_ok (Inr x)" "\<not> is_ok (Inl e)"
  by (simp_all add: is_ok_def)

lemma try_map_Inr:
  "try_map f xs = Inr ys \<longleftrightarrow> list_all2 (\<lambda>x y. f x = Inr y) xs ys"
proof (induction xs arbitrary: ys)
  case Nil
  then show ?case by auto
next
  case (Cons x xs)
  show ?case
  proof (cases "f x")
    case (Inl e)
    then show ?thesis by (simp add: list_all2_Cons1)
  next
    case (Inr y)
    then show ?thesis
      by (cases "try_map f xs") (auto simp: list_all2_Cons1 simp flip: Cons.IH)
  qed
qed

section \<open>Ordered maps\<close>

text \<open>
  A \<open>BTreeMap\<close> is the list of its entries in key order.  Lookup is
  \<^const>\<open>map_of\<close>; an insertion replaces the value of a key that is present.
\<close>

type_synonym ('k, 'v) btree_map = "('k \<times> 'v) list"

definition bt_wf :: "('k::linorder, 'v) btree_map \<Rightarrow> bool" where
  "bt_wf m \<longleftrightarrow> sorted_wrt (<) (map fst m)"

fun bt_insert :: "'k::linorder \<Rightarrow> 'v \<Rightarrow> ('k, 'v) btree_map \<Rightarrow> ('k, 'v) btree_map" where
  "bt_insert k v [] = [(k, v)]"
| "bt_insert k v ((k', v') # m) =
     (if k < k' then (k, v) # (k', v') # m
      else if k = k' then (k, v) # m
      else (k', v') # bt_insert k v m)"

definition bt_remove :: "'k \<Rightarrow> ('k, 'v) btree_map \<Rightarrow> ('k, 'v) btree_map" where
  "bt_remove k m = filter (\<lambda>(k', _). k' \<noteq> k) m"

definition bt_get :: "('k, 'v) btree_map \<Rightarrow> 'k \<Rightarrow> 'v option" where
  "bt_get m k = map_of m k"

definition bt_keys :: "('k, 'v) btree_map \<Rightarrow> 'k list" where
  "bt_keys m = map fst m"

definition bt_values :: "('k, 'v) btree_map \<Rightarrow> 'v list" where
  "bt_values m = map snd m"

text \<open>\<open>collect\<close> of an iterator of pairs: later pairs win.\<close>

definition bt_collect :: "('k::linorder \<times> 'v) list \<Rightarrow> ('k, 'v) btree_map" where
  "bt_collect kvs = fold (\<lambda>(k, v). bt_insert k v) kvs []"

named_theorems bt_simps \<open>lookup and key facts of ordered maps\<close>

lemma bt_wf_Nil [simp, intro!]: "bt_wf []"
  by (simp add: bt_wf_def)

lemma bt_wf_Cons:
  "bt_wf ((k, v) # m) \<longleftrightarrow> (\<forall>k' \<in> fst ` set m. k < k') \<and> bt_wf m"
  by (auto simp: bt_wf_def)

lemma bt_get_Nil [simp]: "bt_get [] k = None"
  by (simp add: bt_get_def)

lemma fst_set_bt_insert [bt_simps]:
  "fst ` set (bt_insert k v m) = insert k (fst ` set m)"
proof (induction m)
  case (Cons p m)
  then show ?case by (cases p) (simp add: insert_commute)
qed simp

lemma bt_wf_insert [intro, simp]: "bt_wf m \<Longrightarrow> bt_wf (bt_insert k v m)"
proof (induction m)
  case Nil
  then show ?case by (simp add: bt_wf_def)
next
  case (Cons p m)
  obtain k' v' where p: "p = (k', v')" by (cases p)
  from Cons.prems have wf: "bt_wf m" and lt: "\<forall>x \<in> fst ` set m. k' < x"
    by (simp_all add: p bt_wf_Cons)
  show ?case
  proof (cases "k < k'")
    case True
    with wf lt show ?thesis by (force simp: p bt_wf_Cons)
  next
    case False
    show ?thesis
    proof (cases "k = k'")
      case True
      with wf lt show ?thesis by (simp add: p bt_wf_Cons)
    next
      case neq: False
      with False have "k' < k" by simp
      with neq False lt Cons.IH [OF wf] show ?thesis
        by (simp add: p bt_wf_Cons fst_set_bt_insert)
    qed
  qed
qed

lemma bt_get_insert [bt_simps]:
  "bt_get (bt_insert k v m) k' = (if k' = k then Some v else bt_get m k')"
  if "bt_wf m"
  using that
proof (induction m)
  case Nil
  then show ?case by (simp add: bt_get_def)
next
  case (Cons p m)
  obtain j w where p: "p = (j, w)" by (cases p)
  from Cons.prems have "bt_wf m" by (simp add: p bt_wf_Cons)
  from Cons.IH [OF this] show ?case by (auto simp: p bt_get_def)
qed

lemma bt_get_remove [bt_simps]:
  "bt_get (bt_remove k m) k' = (if k' = k then None else bt_get m k')"
  by (induction m) (auto simp: bt_get_def bt_remove_def)

lemma bt_wf_filter [intro, simp]: "bt_wf m \<Longrightarrow> bt_wf (filter P m)"
  by (induction m) (auto simp: bt_wf_def)

lemma bt_wf_remove [intro, simp]: "bt_wf m \<Longrightarrow> bt_wf (bt_remove k m)"
  by (simp add: bt_remove_def)

lemma bt_wf_distinct: "bt_wf m \<Longrightarrow> distinct (map fst m)"
  by (induction m) (auto simp: bt_wf_def)

lemma bt_get_Some_iff:
  "bt_wf m \<Longrightarrow> bt_get m k = Some v \<longleftrightarrow> (k, v) \<in> set m"
  by (simp add: bt_get_def bt_wf_distinct)

lemma bt_get_None_iff: "bt_get m k = None \<longleftrightarrow> k \<notin> fst ` set m"
  by (simp add: bt_get_def map_of_eq_None_iff)

lemma bt_get_SomeD: "bt_get m k = Some v \<Longrightarrow> (k, v) \<in> set m"
  by (simp add: bt_get_def map_of_SomeD)

lemma set_bt_keys [simp]: "set (bt_keys m) = fst ` set m"
  by (simp add: bt_keys_def)

lemma bt_wf_fold_insert: "bt_wf m \<Longrightarrow> bt_wf (fold (\<lambda>(k, v). bt_insert k v) kvs m)"
  by (induction kvs arbitrary: m) auto

lemma bt_wf_collect [intro, simp]: "bt_wf (bt_collect kvs)"
  by (simp add: bt_collect_def bt_wf_fold_insert)

lemma bt_get_fold_insert:
  "bt_wf m \<Longrightarrow> bt_get (fold (\<lambda>(k, v). bt_insert k v) kvs m) k =
     (case map_of (rev kvs) k of Some v \<Rightarrow> Some v | None \<Rightarrow> bt_get m k)"
  by (induction kvs arbitrary: m) (auto simp: bt_get_insert map_add_def split: option.splits)

lemma bt_get_collect [bt_simps]: "bt_get (bt_collect kvs) k = map_of (rev kvs) k"
  by (simp add: bt_collect_def bt_get_fold_insert split: option.splits)

text \<open>Two ordered maps with the same lookups are the same list.\<close>

lemma bt_wf_set_eq: "bt_wf m \<Longrightarrow> bt_wf m' \<Longrightarrow> set m = set m' \<Longrightarrow> m = m'"
proof (induction m arbitrary: m')
  case Nil
  then show ?case by simp
next
  case (Cons p m)
  obtain k v where p: "p = (k, v)" by (cases p)
  from Cons.prems(3) obtain k' v' n where m': "m' = (k', v') # n"
    by (cases m') auto
  from Cons.prems have lt: "\<forall>x \<in> fst ` set m. k < x" and wfm: "bt_wf m"
    and lt': "\<forall>x \<in> fst ` set n. k' < x" and wfn: "bt_wf n"
    by (simp_all add: p m' bt_wf_Cons)
  have eq: "insert (k, v) (set m) = insert (k', v') (set n)"
    using Cons.prems(3) by (simp add: p m')
  have "k = k'"
  proof (rule ccontr)
    assume "k \<noteq> k'"
    with eq have "(k, v) \<in> set n" and "(k', v') \<in> set m" by auto
    with lt lt' have "k < k'" and "k' < k" by force+
    then show False by simp
  qed
  with lt lt' have "(k, v) \<notin> set n" "(k', v') \<notin> set m" by force+
  with eq \<open>k = k'\<close> have "v = v'" and "set m = set n" by auto
  with Cons.IH [OF wfm wfn] \<open>k = k'\<close> show ?case by (simp add: p m')
qed

lemma bt_wf_ext:
  assumes "bt_wf m" "bt_wf m'" "\<And>k. bt_get m k = bt_get m' k"
  shows "m = m'"
proof (rule bt_wf_set_eq [OF assms(1,2)])
  show "set m = set m'"
    using assms by (auto simp flip: bt_get_Some_iff)
qed

lemma map_of_rev_distinct: "distinct (map fst m) \<Longrightarrow> map_of (rev m) = map_of m"
  using map_of_inject_set [of "rev m" m] by (simp add: rev_map [symmetric])

lemma bt_collect_id: "bt_wf m \<Longrightarrow> bt_collect m = m"
proof (rule bt_wf_ext)
  fix k assume "bt_wf m"
  then show "bt_get (bt_collect m) k = bt_get m k"
    by (simp add: bt_get_collect bt_get_def [of m] bt_wf_distinct map_of_rev_distinct)
qed simp_all

section \<open>Ordered sets\<close>

text \<open>A \<open>BTreeSet\<close> is the strictly ascending list of its elements.\<close>

fun bs_insert :: "'a::linorder \<Rightarrow> 'a list \<Rightarrow> 'a list" where
  "bs_insert x [] = [x]"
| "bs_insert x (y # ys) =
     (if x < y then x # y # ys else if x = y then y # ys else y # bs_insert x ys)"

definition bs_collect :: "'a::linorder list \<Rightarrow> 'a list" where
  "bs_collect xs = fold bs_insert xs []"

lemma set_bs_insert [simp]: "set (bs_insert x xs) = insert x (set xs)"
  by (induction xs) auto

lemma bs_wf_insert [intro, simp]:
  "sorted_wrt (<) xs \<Longrightarrow> sorted_wrt (<) (bs_insert x xs)"
  by (induction xs) auto

lemma set_fold_bs_insert: "set (fold bs_insert xs ys) = set xs \<union> set ys"
  by (induction xs arbitrary: ys) auto

lemma bs_wf_fold_insert:
  "sorted_wrt (<) ys \<Longrightarrow> sorted_wrt (<) (fold bs_insert xs ys)"
  by (induction xs arbitrary: ys) auto

lemma set_bs_collect [simp]: "set (bs_collect xs) = set xs"
  by (simp add: bs_collect_def set_fold_bs_insert)

lemma bs_wf_collect [intro, simp]: "sorted_wrt (<) (bs_collect xs)"
  by (simp add: bs_collect_def bs_wf_fold_insert)

lemma sorted_wrt_less_unique:
  "sorted_wrt (<) xs \<Longrightarrow> sorted_wrt (<) ys \<Longrightarrow> set xs = set ys \<Longrightarrow> xs = (ys :: 'a::linorder list)"
  by (simp add: strict_sorted_equal)

section \<open>Sorted lists\<close>

lemma takeWhile_eq_filter:
  assumes "sorted_wrt (\<lambda>x y. P y \<longrightarrow> P x) xs"
  shows "takeWhile P xs = filter P xs"
  using assms
proof (induction xs)
  case (Cons x xs)
  then show ?case by (cases "P x") (auto simp: filter_empty_conv)
qed simp

end
