(* ===== verification/Intervals.thy ===== *)
theory Intervals
  imports Prelude
begin

text \<open>
  Binary keys and half-open key intervals, from \<open>crates/common/src/interval\<close>
  (\<open>key.rs\<close>, \<open>bounds.rs\<close>, \<open>mod.rs\<close>).  A key is a byte string in lexicographic
  order; an interval is an included start and an excluded or absent end.  The
  meaning of an interval is the set of keys it contains, and the lemmas say what
  each operation does to that set.
\<close>

section \<open>Keys\<close>

type_synonym binary_key = "u8 list"

definition binary_key_min :: binary_key where
  "binary_key_min = []"

text \<open>
  \<open>BinaryKey::increment\<close>: look at the last byte; bump it if it is below 255,
  drop it otherwise and look again.
\<close>

function increment :: "binary_key \<Rightarrow> binary_key option" where
  "increment k =
     (if k = [] then None
      else if last k < 255 then Some (butlast k @ [last k + 1])
      else increment (butlast k))"
  by auto
termination
  by (relation "measure length") auto

declare increment.simps [simp del]

section \<open>Bounds\<close>

datatype end_bound = Excluded binary_key | Unbounded

text \<open>The derived \<open>Ord\<close> of \<open>End\<close>: \<open>Excluded\<close> by key, then \<open>Unbounded\<close>.\<close>

instantiation end_bound :: linorder
begin

definition less_eq_end_bound :: "end_bound \<Rightarrow> end_bound \<Rightarrow> bool" where
  "less_eq_end_bound e f =
     (case f of Unbounded \<Rightarrow> True
      | Excluded b \<Rightarrow> (case e of Unbounded \<Rightarrow> False | Excluded a \<Rightarrow> a \<le> b))"

definition less_end_bound :: "end_bound \<Rightarrow> end_bound \<Rightarrow> bool" where
  "less_end_bound e f =
     (case e of Unbounded \<Rightarrow> False
      | Excluded a \<Rightarrow> (case f of Unbounded \<Rightarrow> True | Excluded b \<Rightarrow> a < b))"

instance
  by standard (auto simp: less_eq_end_bound_def less_end_bound_def split: end_bound.splits)

end

definition after_prefix :: "binary_key \<Rightarrow> end_bound" where
  "after_prefix key = (case increment key of None \<Rightarrow> Unbounded | Some key' \<Rightarrow> Excluded key')"

definition end_included :: "binary_key \<Rightarrow> end_bound" where
  "end_included key = Excluded (key @ [0])"

definition end_is_disjoint :: "end_bound \<Rightarrow> binary_key \<Rightarrow> bool" where
  "end_is_disjoint e start = (case e of Unbounded \<Rightarrow> False | Excluded s \<Rightarrow> s \<le> start)"

definition end_is_adjacent :: "end_bound \<Rightarrow> binary_key \<Rightarrow> bool" where
  "end_is_adjacent e start = (case e of Unbounded \<Rightarrow> False | Excluded s \<Rightarrow> s = start)"

definition greater_than :: "end_bound \<Rightarrow> binary_key \<Rightarrow> bool" where
  "greater_than e key = (case e of Excluded e' \<Rightarrow> key < e' | Unbounded \<Rightarrow> True)"

section \<open>Intervals\<close>

record interval =
  iv_start :: binary_key
  iv_end :: end_bound

datatype order = Asc | Desc

datatype cursor_position = After binary_key | End

definition interval_prefix :: "binary_key \<Rightarrow> interval" where
  "interval_prefix key = \<lparr>iv_start = key, iv_end = after_prefix key\<rparr>"

definition interval_empty :: interval where
  "interval_empty = \<lparr>iv_start = binary_key_min, iv_end = Excluded binary_key_min\<rparr>"

definition interval_all :: interval where
  "interval_all = \<lparr>iv_start = binary_key_min, iv_end = Unbounded\<rparr>"

definition interval_is_empty :: "interval \<Rightarrow> bool" where
  "interval_is_empty i =
     (case iv_end i of Unbounded \<Rightarrow> False | Excluded t \<Rightarrow> iv_start i \<ge> t)"

definition interval_is_superset :: "interval \<Rightarrow> interval \<Rightarrow> bool" where
  "interval_is_superset i other =
     (interval_is_empty other \<or> iv_start i \<le> iv_start other \<and> iv_end other \<le> iv_end i)"

definition interval_contains :: "interval \<Rightarrow> binary_key \<Rightarrow> bool" where
  "interval_contains i point =
     (iv_start i \<le> point \<and>
      (case iv_end i of Excluded t \<Rightarrow> point < t | Unbounded \<Rightarrow> True))"

definition interval_contains_cursor :: "interval \<Rightarrow> cursor_position \<Rightarrow> bool" where
  "interval_contains_cursor i cursor =
     (case cursor of After last_key \<Rightarrow> interval_contains i last_key | End \<Rightarrow> True)"

definition interval_is_disjoint :: "interval \<Rightarrow> interval \<Rightarrow> bool" where
  "interval_is_disjoint i other =
     (interval_is_empty i \<or> interval_is_empty other \<or>
      end_is_disjoint (iv_end other) (iv_start i) \<or>
      end_is_disjoint (iv_end i) (iv_start other))"

definition interval_is_adjacent :: "interval \<Rightarrow> interval \<Rightarrow> bool" where
  "interval_is_adjacent i other =
     (if interval_is_empty i \<or> interval_is_empty other then False
      else end_is_adjacent (iv_end i) (iv_start other) \<or>
           end_is_adjacent (iv_end other) (iv_start i))"

definition split_after :: "interval \<Rightarrow> binary_key \<Rightarrow> order \<Rightarrow> interval \<times> interval" where
  "split_after i last_key ord =
     (case ord of
        Asc \<Rightarrow>
          (\<lparr>iv_start = iv_start i, iv_end = after_prefix last_key\<rparr>,
           case increment last_key of
             Some last_key_incr \<Rightarrow> \<lparr>iv_start = last_key_incr, iv_end = iv_end i\<rparr>
           | None \<Rightarrow> interval_empty)
      | Desc \<Rightarrow>
          (\<lparr>iv_start = last_key, iv_end = iv_end i\<rparr>,
           \<lparr>iv_start = iv_start i, iv_end = Excluded last_key\<rparr>))"

definition interval_split :: "interval \<Rightarrow> cursor_position \<Rightarrow> order \<Rightarrow> interval \<times> interval" where
  "interval_split i cursor ord =
     (case cursor of
        After last_key \<Rightarrow> split_after i last_key ord
      | End \<Rightarrow> (i, interval_empty))"

definition singleton :: "binary_key \<Rightarrow> interval" where
  "singleton val = \<lparr>iv_start = val, iv_end = end_included val\<rparr>"

text \<open>\<open>strip_prefix\<close> of slices.\<close>

fun strip_prefix :: "'a list \<Rightarrow> 'a list \<Rightarrow> 'a list option" where
  "strip_prefix xs [] = Some xs"
| "strip_prefix [] (p # ps) = None"
| "strip_prefix (x # xs) (p # ps) = (if x = p then strip_prefix xs ps else None)"

definition interval_is_singleton :: "interval \<Rightarrow> binary_key option" where
  "interval_is_singleton i =
     (case iv_end i of
        Excluded e \<Rightarrow> (if strip_prefix e (iv_start i) = Some [0] then Some (iv_start i) else None)
      | Unbounded \<Rightarrow> None)"

text \<open>The set of keys an interval denotes.\<close>

definition interval_keys :: "interval \<Rightarrow> binary_key set" where
  "interval_keys i = {p. interval_contains i p}"

section \<open>Lexicographic order and prefixes\<close>

lemma end_bound_le_simps [simp]:
  "e \<le> Unbounded"
  "\<not> Unbounded \<le> Excluded b"
  "Excluded a \<le> Excluded b \<longleftrightarrow> a \<le> b"
  "Excluded a < Unbounded"
  "\<not> Unbounded < e"
  "Excluded a < Excluded b \<longleftrightarrow> a < b"
  by (auto simp: less_eq_end_bound_def less_end_bound_def split: end_bound.splits)

lemma list_append_le_iff [simp]:
  "(p @ xs \<le> p @ ys) = (xs \<le> (ys :: 'a::linorder list))"
  by (induction p) auto

lemma list_append_less_iff [simp]:
  "(p @ xs < p @ ys) = (xs < (ys :: 'a::linorder list))"
  by (induction p) auto

lemma list_le_append [simp]: "p \<le> p @ (ys :: 'a::linorder list)"
  using list_append_le_iff [of p "[]" ys] by simp

text \<open>Between \<open>b @ [c]\<close> and \<open>b @ [c + 1]\<close> there are exactly the extensions of \<open>b @ [c]\<close>.\<close>

lemma between_snoc_iff_prefix:
  fixes c d :: u8
  assumes tight: "\<And>x. x < d \<longleftrightarrow> x \<le> c"
  shows "b @ [c] \<le> s \<and> s < b @ [d] \<longleftrightarrow> prefix (b @ [c]) s"
proof (induction b arbitrary: s)
  case Nil
  show ?case
    by (cases s) (auto simp: tight)
next
  case (Cons a b)
  show ?case
    by (cases s) (auto simp flip: Cons.IH)
qed

lemma u8_le_255 [simp]: "x \<le> 255" for x :: u8
proof -
  have "x \<le> - 1" by (rule word_order.extremum)
  moreover have "(- 1 :: u8) = 255" by simp
  ultimately show ?thesis by metis
qed

lemma u8_not_below_255: "\<not> x < 255 \<Longrightarrow> x = 255" for x :: u8
  using u8_le_255 [of x] by simp

lemma increment_snoc:
  "increment (b @ [c]) = (if c < 255 then Some (b @ [c + 1]) else increment b)"
  by (subst increment.simps) simp

lemma increment_Nil [simp]: "increment [] = None"
  by (subst increment.simps) simp

lemma snoc_255_le_iff_prefix:
  "b @ [255] \<le> b @ t \<longleftrightarrow> prefix (b @ [255 :: u8]) (b @ t)"
proof (cases t)
  case (Cons x xs)
  then show ?thesis by (auto simp: order.strict_iff_not)
next
  case Nil
  have "b < b @ [255]" using list_append_less_iff [of b "[]"] by simp
  then show ?thesis by (simp add: Nil not_le)
qed

lemma u8_below_succ: "c < 255 \<Longrightarrow> x < c + 1 \<longleftrightarrow> x \<le> c" for c x :: u8
  using word_less_succ [of c 255] by (auto simp: word_less_nat_alt word_le_nat_alt)

lemma increment_Some_between:
  "increment k = Some k' \<Longrightarrow> k \<le> s \<and> s < k' \<longleftrightarrow> prefix k s"
proof (induction k arbitrary: s rule: increment.induct)
  case (1 k)
  from "1.prems" have ne: "k \<noteq> []" by auto
  then obtain b c where k: "k = b @ [c]" by (cases k rule: rev_cases) auto
  show ?case
  proof (cases "c < 255")
    case True
    with "1.prems" have "k' = b @ [c + 1]" by (simp add: increment_snoc k)
    then show ?thesis
      using between_snoc_iff_prefix [OF u8_below_succ [OF True]] by (simp add: k)
  next
    case False
    then have c: "c = 255" by (rule u8_not_below_255)
    with "1.prems" have inc: "increment b = Some k'" by (simp add: increment_snoc k)
    from "1.IH" ne False inc have IH: "\<And>s. b \<le> s \<and> s < k' \<longleftrightarrow> prefix b s" by (simp add: k)
    show ?thesis
    proof
      assume s: "k \<le> s \<and> s < k'"
      have "b \<le> k" by (simp add: k)
      with s IH have "prefix b s" by (meson order_trans)
      then obtain t where "s = b @ t" by (auto simp: prefix_def)
      with s snoc_255_le_iff_prefix show "prefix k s" by (simp add: k c)
    next
      assume s: "prefix k s"
      then have "prefix b s" by (auto simp: k prefix_def)
      with IH have "s < k'" by blast
      moreover from s have "k \<le> s" by (auto simp: prefix_def)
      ultimately show "k \<le> s \<and> s < k'" by simp
    qed
  qed
qed

lemma increment_None_above:
  "increment k = None \<Longrightarrow> k \<le> s \<longleftrightarrow> prefix k s"
proof (induction k arbitrary: s rule: increment.induct)
  case (1 k)
  show ?case
  proof (cases k rule: rev_cases)
    case Nil
    then show ?thesis by simp
  next
    case (snoc b c)
    with "1.prems" have c: "\<not> c < 255" and inc: "increment b = None"
      by (auto simp: increment_snoc split: if_splits)
    from c have c': "c = 255" by (rule u8_not_below_255)
    from "1.IH" snoc c inc have IH: "\<And>s. b \<le> s \<longleftrightarrow> prefix b s" by simp
    show ?thesis
    proof
      assume s: "k \<le> s"
      moreover have "b \<le> k" by (simp add: snoc)
      ultimately have "prefix b s" using IH order_trans by blast
      then obtain t where "s = b @ t" by (auto simp: prefix_def)
      with s snoc_255_le_iff_prefix show "prefix k s" by (simp add: snoc c')
    qed (auto simp: prefix_def)
  qed
qed

section \<open>Bounds and intervals as sets\<close>

named_theorems interval_order \<open>interval operations as comparisons of end bounds\<close>

lemma greater_than_iff [interval_order]: "greater_than e p \<longleftrightarrow> Excluded p < e"
  by (auto simp: greater_than_def split: end_bound.splits)

lemma end_is_disjoint_iff [interval_order]: "end_is_disjoint e s \<longleftrightarrow> e \<le> Excluded s"
  by (auto simp: end_is_disjoint_def split: end_bound.splits)

lemma end_is_adjacent_iff [interval_order]: "end_is_adjacent e s \<longleftrightarrow> e = Excluded s"
  by (auto simp: end_is_adjacent_def split: end_bound.splits)

lemma interval_is_empty_iff [interval_order]:
  "interval_is_empty i \<longleftrightarrow> iv_end i \<le> Excluded (iv_start i)"
  by (auto simp: interval_is_empty_def split: end_bound.splits)

lemma interval_contains_iff [interval_order]:
  "interval_contains i p \<longleftrightarrow> iv_start i \<le> p \<and> Excluded p < iv_end i"
  by (auto simp: interval_contains_def split: end_bound.splits)

lemma in_interval_keys [simp]: "p \<in> interval_keys i \<longleftrightarrow> interval_contains i p"
  by (simp add: interval_keys_def)

lemma start_in_interval: "\<not> interval_is_empty i \<Longrightarrow> interval_contains i (iv_start i)"
  by (simp add: interval_order)

lemma interval_keys_empty_iff: "interval_keys i = {} \<longleftrightarrow> interval_is_empty i"
proof
  assume "interval_keys i = {}"
  then show "interval_is_empty i" using start_in_interval [of i] in_interval_keys by blast
next
  assume "interval_is_empty i"
  then have "iv_end i \<le> Excluded (iv_start i)" by (simp add: interval_order)
  then show "interval_keys i = {}"
    by (auto simp: interval_keys_def interval_contains_iff)
       (meson end_bound_le_simps(3) leD order_trans)
qed

lemma after_prefix_iff: "k \<le> s \<and> Excluded s < after_prefix k \<longleftrightarrow> prefix k s"
proof (cases "increment k")
  case None
  then show ?thesis by (simp add: after_prefix_def increment_None_above)
next
  case (Some k')
  then show ?thesis using increment_Some_between [OF Some] by (simp add: after_prefix_def)
qed

lemma increment_gt: "increment k = Some k' \<Longrightarrow> k < k'"
  using increment_Some_between [of k k' k] by simp

lemma interval_empty_keys [simp]: "interval_keys interval_empty = {}"
  by (simp add: interval_keys_empty_iff interval_order interval_empty_def binary_key_min_def)

lemma interval_all_keys [simp]: "interval_keys interval_all = UNIV"
  by (auto simp: interval_order interval_all_def binary_key_min_def)

text \<open>An interval is decided by its keys: comparing bounds is comparing sets.\<close>

lemma interval_keys_subset_iff:
  "interval_is_superset i j \<longleftrightarrow> interval_keys j \<subseteq> interval_keys i"
proof
  assume "interval_is_superset i j"
  then show "interval_keys j \<subseteq> interval_keys i"
    using interval_keys_empty_iff [of j]
    by (auto simp: interval_is_superset_def interval_contains_iff)
next
  assume sub: "interval_keys j \<subseteq> interval_keys i"
  show "interval_is_superset i j"
  proof (cases "interval_is_empty j")
    case True
    then show ?thesis by (simp add: interval_is_superset_def)
  next
    case False
    from start_in_interval [OF False] sub have start: "interval_contains i (iv_start j)" by auto
    have "iv_end j \<le> iv_end i"
    proof (rule ccontr)
      assume "\<not> iv_end j \<le> iv_end i"
      then have lt: "iv_end i < iv_end j" by simp
      then obtain t where t: "iv_end i = Excluded t" by (cases "iv_end i") auto
      from start t have "iv_start j \<le> t" by (simp add: interval_contains_iff order_less_imp_le)
      with lt t have "t \<in> interval_keys j" by (simp add: interval_contains_iff)
      with sub have "t \<in> interval_keys i" by blast
      with t show False by (simp add: interval_contains_iff)
    qed
    with start show ?thesis by (simp add: interval_is_superset_def interval_contains_iff)
  qed
qed

lemma interval_keys_disjoint_iff:
  "interval_is_disjoint i j \<longleftrightarrow> interval_keys i \<inter> interval_keys j = {}"
proof
  assume dis: "interval_is_disjoint i j"
  show "interval_keys i \<inter> interval_keys j = {}"
  proof (rule ccontr)
    assume "interval_keys i \<inter> interval_keys j \<noteq> {}"
    then obtain p where "iv_start i \<le> p" "Excluded p < iv_end i" "iv_start j \<le> p" "Excluded p < iv_end j"
      by (auto simp: interval_contains_iff)
    then have "Excluded (iv_start i) < iv_end i" "Excluded (iv_start j) < iv_end j"
      "Excluded (iv_start i) < iv_end j" "Excluded (iv_start j) < iv_end i"
      by (meson end_bound_le_simps(3) order_le_less_trans)+
    with dis show False by (simp add: interval_is_disjoint_def interval_order not_le [symmetric])
  qed
next
  assume "interval_keys i \<inter> interval_keys j = {}"
  then have "max (iv_start i) (iv_start j) \<notin> interval_keys i \<inter> interval_keys j" by simp
  then show "interval_is_disjoint i j"
    by (auto simp: interval_is_disjoint_def interval_order max_def not_less split: if_splits)
qed

lemma strip_prefix_Some: "strip_prefix xs ps = Some r \<longleftrightarrow> xs = ps @ r"
  by (induction xs ps rule: strip_prefix.induct) auto

lemma list_less_snoc_zero: "v \<le> p \<and> p < v @ [0] \<longleftrightarrow> p = v" for v p :: binary_key
proof (induction v arbitrary: p)
  case Nil
  show ?case by (cases p) auto
next
  case (Cons a v)
  show ?case
  proof (cases p)
    case Nil
    then show ?thesis by simp
  next
    fix x xs assume "p = x # xs"
    then show ?thesis using Cons.IH [of xs] by auto
  qed
qed

lemma singleton_keys: "interval_keys (singleton v) = {v}"
  by (rule set_eqI) (simp add: interval_contains_iff singleton_def end_included_def
      list_less_snoc_zero)

lemma is_singleton_singleton: "interval_is_singleton i = Some v \<longleftrightarrow> i = singleton v"
  by (cases i) (auto simp: interval_is_singleton_def singleton_def end_included_def strip_prefix_Some
      split: end_bound.splits)

lemma after_prefix_gt: "Excluded k < after_prefix k"
  using after_prefix_iff [of k k] by simp

section \<open>Properties\<close>

text \<open>
  \<open>BinaryKey::increment\<close> returns the least key above every key that extends
  \<open>k\<close>, and returns \<open>None\<close> only when no key is above all of them.
\<close>

lemma increment_least_upper_bound:
  "case increment k of
     Some k' \<Rightarrow> (\<forall>s. prefix k s \<longrightarrow> s < k') \<and> (\<forall>j. (\<forall>s. prefix k s \<longrightarrow> s < j) \<longrightarrow> k' \<le> j)
   | None \<Rightarrow> (\<nexists>j. \<forall>s. prefix k s \<longrightarrow> s < j)"
proof (cases "increment k")
  case None
  have "\<not> (\<forall>s. prefix k s \<longrightarrow> s < j)" for j
  proof
    assume bound: "\<forall>s. prefix k s \<longrightarrow> s < j"
    then have "k \<le> j" by (simp add: order_less_imp_le)
    then have "prefix k j" by (simp add: increment_None_above [OF None])
    with bound show False by blast
  qed
  with None show ?thesis by simp
next
  case (Some k')
  note between = increment_Some_between [OF Some]
  have "k' \<le> j" if bound: "\<forall>s. prefix k s \<longrightarrow> s < j" for j
  proof (rule ccontr)
    assume "\<not> k' \<le> j"
    moreover from bound have "k \<le> j" by (simp add: order_less_imp_le)
    ultimately have "prefix k j" using between [of j] by (simp add: not_le)
    with bound show False by blast
  qed
  with Some between show ?thesis by auto
qed

text \<open>A witness: \<open>[1, 255]\<close> increments to \<open>[2]\<close>, \<open>[255]\<close> has no upper bound.\<close>

text \<open>
  The interval of a prefix contains exactly the keys that extend the prefix.
\<close>

lemma interval_prefix_exact: "interval_keys (interval_prefix k) = {s. prefix k s}"
  by (rule set_eqI) (simp add: interval_contains_iff interval_prefix_def after_prefix_iff)

text \<open>
  Splitting an interval after a key it contains separates, among the keys
  that are not proper extensions of the split key, those already read in the
  given order from those that remain, and invents no key.
\<close>

lemma split_after_partition:
  assumes k: "interval_contains i k"
    and split: "split_after i k ord = (r, rest)"
    and full: "prefix k p \<longrightarrow> p = k"
  shows "(p \<in> interval_keys r \<longleftrightarrow>
            p \<in> interval_keys i \<and> (if ord = Asc then p \<le> k else k \<le> p)) \<and>
         (p \<in> interval_keys rest \<longleftrightarrow>
            p \<in> interval_keys i \<and> (if ord = Asc then k < p else p < k))"
proof (cases ord)
  case Desc
  from k have "iv_start i \<le> k" "Excluded k < iv_end i" by (simp_all add: interval_contains_iff)
  moreover from this have "Excluded p < iv_end i" if "p < k"
    using that by (meson end_bound_le_simps(6) less_trans)
  ultimately show ?thesis using split Desc
    by (auto simp: split_after_def interval_contains_iff)
next
  case Asc
  from k have s: "iv_start i \<le> k" and e: "Excluded k < iv_end i"
    by (simp_all add: interval_contains_iff)
  have below: "Excluded p < iv_end i" "Excluded p < after_prefix k" if "p \<le> k"
    using that e after_prefix_gt [of k] by (meson end_bound_le_simps(3) order_le_less_trans)+
  have above: "\<not> Excluded p < after_prefix k" if "k < p"
    using that full after_prefix_iff [of k p] by auto
  from split Asc have r: "r = \<lparr>iv_start = iv_start i, iv_end = after_prefix k\<rparr>"
    by (simp add: split_after_def)
  have left: "p \<in> interval_keys r \<longleftrightarrow> p \<in> interval_keys i \<and> p \<le> k"
    using below above by (cases "p \<le> k") (auto simp: r interval_contains_iff not_le)
  have right: "p \<in> interval_keys rest \<longleftrightarrow> p \<in> interval_keys i \<and> k < p"
  proof (cases "increment k")
    case None
    with split Asc have "rest = interval_empty" by (simp add: split_after_def)
    moreover have "\<not> k < p" using above None by (auto simp: after_prefix_def)
    ultimately show ?thesis by (metis empty_iff interval_empty_keys)
  next
    case (Some k')
    with split Asc have "rest = \<lparr>iv_start = k', iv_end = iv_end i\<rparr>" by (simp add: split_after_def)
    moreover have "k' \<le> p \<longleftrightarrow> k < p"
      using above Some increment_gt [OF Some] by (auto simp: after_prefix_def)
    ultimately show ?thesis using s by (auto simp: interval_contains_iff)
  qed
  from left right show ?thesis by (simp add: Asc)
qed

end
