(* ===== verification/IntervalSets.thy ===== *)
theory IntervalSets
  imports Intervals
begin

text \<open>
  Sets of keys as ordered, merged intervals, from
  \<open>crates/common/src/interval/interval_set.rs\<close>.  The map sends each interval's
  start to its end; \<open>All\<close> is the whole key space.  An \<open>expect\<close> or an
  \<open>unreachable!\<close> of the code is a \<open>None\<close> of the model, and the properties show
  that it is never produced on a well-formed set.
\<close>

section \<open>Data\<close>

datatype interval_set = Intervals "(binary_key, end_bound) btree_map" | All

datatype end_proto = Exclusive "u8 list" | AfterAll

record interval_proto =
  start_inclusive :: "u8 list"
  proto_end :: "end_proto option"

datatype interval_error = IntervalMissingEnd

definition entry_interval :: "binary_key \<times> end_bound \<Rightarrow> interval" where
  "entry_interval p = \<lparr>iv_start = fst p, iv_end = snd p\<rparr>"

section \<open>Operations\<close>

definition iset_new :: interval_set where
  "iset_new = Intervals []"

definition iset_is_empty :: "interval_set \<Rightarrow> bool" where
  "iset_is_empty s = (case s of Intervals m \<Rightarrow> m = [] | All \<Rightarrow> False)"

definition iset_len :: "interval_set \<Rightarrow> nat" where
  "iset_len s = (case s of Intervals m \<Rightarrow> length m | All \<Rightarrow> 1)"

definition intersecting_or_adjacent ::
  "(binary_key, end_bound) btree_map \<Rightarrow> interval \<Rightarrow> interval list" where
  "intersecting_or_adjacent m i =
     (let before = filter (\<lambda>p. fst p < iv_start i) m in
      if before = [] then []
      else let other = entry_interval (last before) in
        if \<not> interval_is_disjoint i other \<or> interval_is_adjacent i other then [other] else [])
     @ map entry_interval
         (takeWhile (\<lambda>p. \<not> (end_is_disjoint (iv_end i) (fst p) \<and>
                            \<not> end_is_adjacent (iv_end i) (fst p)))
           (filter (\<lambda>p. iv_start i \<le> fst p) m))"

text \<open>The merge loop of \<open>add\<close>; \<open>None\<close> is the failed \<open>expect\<close>.\<close>

fun merge_overlaps ::
  "interval list \<Rightarrow> binary_key \<Rightarrow> end_bound \<Rightarrow> (binary_key, end_bound) btree_map \<Rightarrow>
   (binary_key \<times> end_bound \<times> (binary_key, end_bound) btree_map) option" where
  "merge_overlaps [] merged_start merged_end m = Some (merged_start, merged_end, m)"
| "merge_overlaps (other # others) merged_start merged_end m =
     (let merged_start' = (if iv_start other < merged_start then iv_start other else merged_start);
          merged_end' = (if iv_end other > merged_end then iv_end other else merged_end)
      in case bt_get m (iv_start other) of
           None \<Rightarrow> None
         | Some _ \<Rightarrow>
             merge_overlaps others merged_start' merged_end' (bt_remove (iv_start other) m))"

definition iset_add :: "interval_set \<Rightarrow> interval \<Rightarrow> interval_set option" where
  "iset_add s i =
     (if interval_is_empty i then Some s
      else
        let s' = (if i = interval_all then All else s) in
        case s' of
          All \<Rightarrow> Some All
        | Intervals m \<Rightarrow>
            (case merge_overlaps (intersecting_or_adjacent m i) (iv_start i) (iv_end i) m of
               None \<Rightarrow> None
             | Some (merged_start, merged_end, m') \<Rightarrow>
                 Some (Intervals (bt_insert merged_start merged_end m'))))"

definition interval_preceding :: "interval_set \<Rightarrow> binary_key \<Rightarrow> interval option" where
  "interval_preceding s k =
     (case s of
        All \<Rightarrow> Some interval_all
      | Intervals m \<Rightarrow>
          (let before = filter (\<lambda>p. fst p \<le> k) m in
           if before = [] then None else Some (entry_interval (last before))))"

definition iset_contains :: "interval_set \<Rightarrow> binary_key \<Rightarrow> bool" where
  "iset_contains s k =
     (case interval_preceding s k of None \<Rightarrow> False | Some i \<Rightarrow> interval_contains i k)"

definition iset_iter :: "interval_set \<Rightarrow> interval list" where
  "iset_iter s = (case s of All \<Rightarrow> [interval_all] | Intervals m \<Rightarrow> map entry_interval m)"

text \<open>
  The items a coroutine yields, in order; an item \<open>None\<close> is where it panics.
  \<open>component_loop\<close> is the loop over the intervals in range, then the last yield.
\<close>

fun component_loop ::
  "(binary_key \<times> end_bound) list \<Rightarrow> binary_key \<Rightarrow> end_bound \<Rightarrow> (bool \<times> interval) option list" where
  "component_loop [] component_start target_end =
     [Some (False, \<lparr>iv_start = component_start, iv_end = target_end\<rparr>)]"
| "component_loop ((interval_start, interval_end) # rest) component_start target_end =
     Some (False, \<lparr>iv_start = component_start, iv_end = Excluded interval_start\<rparr>) #
     (if target_end \<le> interval_end
      then [Some (True, \<lparr>iv_start = interval_start, iv_end = target_end\<rparr>)]
      else Some (True, \<lparr>iv_start = interval_start, iv_end = interval_end\<rparr>) #
        (case interval_end of
           Unbounded \<Rightarrow> [None]
         | Excluded e \<Rightarrow> component_loop rest e target_end))"

text \<open>\<open>BTreeMap::range\<close> over an interval of starts.\<close>

definition starts_in_range ::
  "(binary_key, end_bound) btree_map \<Rightarrow> interval \<Rightarrow> (binary_key \<times> end_bound) list" where
  "starts_in_range m i = filter (\<lambda>p. interval_contains i (fst p)) m"

definition split_interval_components ::
  "interval_set \<Rightarrow> interval \<Rightarrow> (bool \<times> interval) option list" where
  "split_interval_components s target =
     (case s of
        All \<Rightarrow> [Some (True, target)]
      | Intervals m \<Rightarrow>
          if interval_is_empty target then []
          else
            let target_start = iv_start target;
                rest = (\<lambda>component_start. component_loop
                   (starts_in_range m \<lparr>iv_start = component_start, iv_end = iv_end target\<rparr>)
                   component_start (iv_end target))
            in case interval_preceding s target_start of
                 None \<Rightarrow> rest target_start
               | Some before \<Rightarrow>
                   if iv_end target \<le> iv_end before then [Some (True, target)]
                   else case iv_end before of
                          Unbounded \<Rightarrow> [None]
                        | Excluded before_end \<Rightarrow>
                            if before_end > target_start
                            then Some (True, \<lparr>iv_start = target_start, iv_end = iv_end before\<rparr>)
                                 # rest before_end
                            else rest target_start)"

text \<open>\<open>Iterator::all\<close> stops at the first component outside the set.\<close>

fun all_in_set :: "(bool \<times> interval) option list \<Rightarrow> bool option" where
  "all_in_set [] = Some True"
| "all_in_set (None # _) = None"
| "all_in_set (Some (in_set, _) # cs) = (if in_set then all_in_set cs else Some False)"

definition contains_interval :: "interval_set \<Rightarrow> interval \<Rightarrow> bool option" where
  "contains_interval s target = all_in_set (split_interval_components s target)"

fun subtract_loop ::
  "(bool \<times> interval) option list \<Rightarrow> (binary_key, end_bound) btree_map \<Rightarrow>
   (binary_key, end_bound) btree_map option" where
  "subtract_loop [] difference = Some difference"
| "subtract_loop (None # _) difference = None"
| "subtract_loop (Some (in_set, i) # cs) difference =
     subtract_loop cs (if \<not> in_set then bt_insert (iv_start i) (iv_end i) difference
                       else difference)"

definition subtract_from_interval :: "interval_set \<Rightarrow> interval \<Rightarrow> interval_set option" where
  "subtract_from_interval s target =
     map_option Intervals (subtract_loop (split_interval_components s target) [])"

definition all_interval_proto :: "interval_proto list" where
  "all_interval_proto = [\<lparr>start_inclusive = [], proto_end = Some AfterAll\<rparr>]"

definition iset_to_proto :: "interval_set \<Rightarrow> interval_proto list" where
  "iset_to_proto s =
     (case s of
        All \<Rightarrow> all_interval_proto
      | Intervals m \<Rightarrow>
          map (\<lambda>(start, e). \<lparr>start_inclusive = start,
                 proto_end = Some (case e of Unbounded \<Rightarrow> AfterAll | Excluded k \<Rightarrow> Exclusive k)\<rparr>) m)"

text \<open>The loop of \<open>try_from\<close>: a panic of \<open>add\<close> is \<open>None\<close>, an error is \<open>Inl\<close>.\<close>

fun add_protos :: "interval_proto list \<Rightarrow> interval_set \<Rightarrow> (interval_error + interval_set) option" where
  "add_protos [] s = Some (Inr s)"
| "add_protos (p # ps) s =
     (case proto_end p of
        None \<Rightarrow> Some (Inl IntervalMissingEnd)
      | Some e \<Rightarrow>
          (case iset_add s \<lparr>iv_start = start_inclusive p,
                  iv_end = (case e of AfterAll \<Rightarrow> Unbounded | Exclusive k \<Rightarrow> Excluded k)\<rparr> of
             None \<Rightarrow> None
           | Some s' \<Rightarrow> add_protos ps s'))"

definition iset_try_from :: "interval_proto list \<Rightarrow> (interval_error + interval_set) option" where
  "iset_try_from ps =
     (if ps = all_interval_proto then Some (Inr All) else add_protos ps iset_new)"

section \<open>Invariant and meaning\<close>

text \<open>
  The comment on \<open>IntervalSet::Intervals\<close>: intervals are non-empty,
  non-intersecting and non-adjacent.  In key order this says that each interval
  ends strictly before the next one starts.
\<close>

definition entries_wf :: "(binary_key \<times> end_bound) list \<Rightarrow> bool" where
  "entries_wf m \<longleftrightarrow>
     sorted_wrt (\<lambda>p q. snd p < Excluded (fst q)) m \<and> (\<forall>p \<in> set m. Excluded (fst p) < snd p)"

definition iset_wf :: "interval_set \<Rightarrow> bool" where
  "iset_wf s \<longleftrightarrow> (case s of All \<Rightarrow> True | Intervals m \<Rightarrow> entries_wf m)"

definition entries_keys :: "(binary_key \<times> end_bound) list \<Rightarrow> binary_key set" where
  "entries_keys m = (\<Union>p \<in> set m. interval_keys (entry_interval p))"

definition iset_keys :: "interval_set \<Rightarrow> binary_key set" where
  "iset_keys s = (case s of All \<Rightarrow> UNIV | Intervals m \<Rightarrow> entries_keys m)"

section \<open>Well-formed entry lists\<close>

lemma entry_interval_simps [simp]:
  "iv_start (entry_interval p) = fst p" "iv_end (entry_interval p) = snd p"
  by (simp_all add: entry_interval_def)

lemma in_entries_keys:
  "x \<in> entries_keys m \<longleftrightarrow> (\<exists>p \<in> set m. fst p \<le> x \<and> Excluded x < snd p)"
  by (simp add: entries_keys_def interval_contains_iff)

lemma entries_keys_simps [simp]:
  "entries_keys [] = {}"
  "entries_keys (p # m) = interval_keys (entry_interval p) \<union> entries_keys m"
  by (simp_all add: entries_keys_def)

lemma entries_wf_Nil [simp, intro!]: "entries_wf []"
  by (simp add: entries_wf_def)

lemma entries_wf_Cons:
  "entries_wf (p # m) \<longleftrightarrow>
     Excluded (fst p) < snd p \<and> (\<forall>q \<in> set m. snd p < Excluded (fst q)) \<and> entries_wf m"
  by (auto simp: entries_wf_def)

lemma entries_wf_filter [intro]: "entries_wf m \<Longrightarrow> entries_wf (filter P m)"
  by (induction m) (auto simp: entries_wf_Cons)

lemma entries_wf_nonempty: "entries_wf m \<Longrightarrow> p \<in> set m \<Longrightarrow> Excluded (fst p) < snd p"
  by (simp add: entries_wf_def)

lemma end_less_start_trans:
  "Excluded (fst p) < snd p \<Longrightarrow> snd p < Excluded (fst q) \<Longrightarrow> fst p < fst q"
  using less_trans [of "Excluded (fst p)" "snd p" "Excluded (fst q)"] by simp

lemma entries_wf_bt_wf: "entries_wf m \<Longrightarrow> bt_wf m"
proof (induction m)
  case (Cons p m)
  then have "\<forall>q \<in> set m. fst p < fst q"
    by (auto simp: entries_wf_Cons intro: end_less_start_trans)
  with Cons show ?case by (cases p) (auto simp: entries_wf_Cons bt_wf_Cons)
qed simp

text \<open>Two different entries are strictly apart, in one order or the other.\<close>

lemma entries_wf_apart:
  "entries_wf m \<Longrightarrow> p \<in> set m \<Longrightarrow> q \<in> set m \<Longrightarrow> p \<noteq> q \<Longrightarrow>
     snd p < Excluded (fst q) \<or> snd q < Excluded (fst p)"
  by (induction m) (auto simp: entries_wf_Cons)

lemma sorted_last_ge:
  "bt_wf m \<Longrightarrow> m \<noteq> [] \<Longrightarrow> p \<in> set m \<Longrightarrow> fst p \<le> fst (last m)"
proof (induction m)
  case (Cons q m)
  then show ?case
    by (cases q; cases "m = []") (auto simp: bt_wf_Cons order_less_imp_le)
qed simp

section \<open>Adding an interval\<close>

text \<open>An entry touches an interval when they intersect or are adjacent.\<close>

definition touches :: "interval \<Rightarrow> binary_key \<times> end_bound \<Rightarrow> bool" where
  "touches i p \<longleftrightarrow> Excluded (iv_start i) \<le> snd p \<and> Excluded (fst p) \<le> iv_end i"

lemma touches_iff:
  assumes "\<not> interval_is_empty i" "Excluded (fst p) < snd p"
  shows "touches i p \<longleftrightarrow>
    \<not> interval_is_disjoint i (entry_interval p) \<or> interval_is_adjacent i (entry_interval p)"
proof -
  have "a \<le> d \<and> c \<le> b \<longleftrightarrow> \<not> (d \<le> a \<or> b \<le> c) \<or> b = c \<or> d = a" if "a < b" "c < d"
    for a b c d :: end_bound
    using that by (metis leD le_less_trans linear order.strict_implies_order order.order_iff_strict)
  from this [of "Excluded (iv_start i)" "iv_end i" "Excluded (fst p)" "snd p"] assms
  show ?thesis
    by (simp add: touches_def interval_is_disjoint_def interval_is_adjacent_def interval_order
        not_le [symmetric])
qed

text \<open>Only the last entry that starts before the interval can touch it.\<close>

lemma touching_before:
  assumes wf: "entries_wf m" and before: "\<forall>p \<in> set m. fst p < iv_start i" and ne: "m \<noteq> []"
  shows "filter (touches i) m = (if touches i (last m) then [last m] else [])"
proof -
  from ne obtain m' q where m: "m = m' @ [q]" by (cases m rule: rev_cases) auto
  have "\<not> touches i p" if "p \<in> set m'" for p
  proof -
    from wf that have "snd p < Excluded (fst q)" by (auto simp: m entries_wf_def sorted_wrt_append)
    also from before have "Excluded (fst q) < Excluded (iv_start i)" by (simp add: m)
    finally show ?thesis by (auto simp: touches_def not_le [symmetric])
  qed
  then show ?thesis by (simp add: m filter_empty_conv)
qed

text \<open>Among those that start inside or after, the touching entries form an initial run.\<close>

lemma touching_after:
  assumes "entries_wf m" and "\<forall>p \<in> set m. iv_start i \<le> fst p" and "\<not> interval_is_empty i"
  shows "takeWhile (\<lambda>p. \<not> (end_is_disjoint (iv_end i) (fst p) \<and>
                         \<not> end_is_adjacent (iv_end i) (fst p))) m = filter (touches i) m"
  using assms(1,2)
proof (induction m)
  case (Cons p m)
  have touch: "touches i q \<longleftrightarrow> Excluded (fst q) \<le> iv_end i" if "q \<in> set (p # m)" for q
  proof -
    have "Excluded (iv_start i) \<le> Excluded (fst q)" using Cons.prems(2) that by auto
    also have "Excluded (fst q) \<le> snd q"
      using entries_wf_nonempty [OF Cons.prems(1) that] by simp
    finally show ?thesis by (simp add: touches_def)
  qed
  have cond: "\<not> (end_is_disjoint (iv_end i) (fst p) \<and> \<not> end_is_adjacent (iv_end i) (fst p))
      \<longleftrightarrow> touches i p"
    by (auto simp: interval_order touch)
  show ?case
  proof (cases "touches i p")
    case True
    with cond Cons show ?thesis by (simp add: entries_wf_Cons)
  next
    case False
    have "\<not> touches i q" if q: "q \<in> set m" for q
    proof -
      from Cons.prems(1) q have "fst p < fst q"
        by (auto simp: entries_wf_Cons intro: end_less_start_trans)
      moreover from False touch have "iv_end i < Excluded (fst p)" by (simp add: not_le)
      ultimately have "iv_end i < Excluded (fst q)" using less_trans by force
      then show ?thesis using touch q by (simp add: not_le)
    qed
    with False cond show ?thesis by (simp add: filter_empty_conv)
  qed
qed simp

lemma bt_wf_split_at:
  "bt_wf m \<Longrightarrow> m = filter (\<lambda>p. fst p < k) m @ filter (\<lambda>p. k \<le> fst p) m"
proof (induction m)
  case (Cons p m)
  obtain a b where p: "p = (a, b)" by (cases p)
  from Cons.prems have lt: "\<forall>q \<in> set m. a < fst q" and wf: "bt_wf m" by (auto simp: p bt_wf_Cons)
  show ?case
  proof (cases "a < k")
    case True
    with Cons.IH [OF wf] show ?thesis by (simp add: p)
  next
    case False
    with lt have "\<forall>q \<in> set m. k \<le> fst q" by (force simp: not_less)
    then have "filter (\<lambda>p. fst p < k) m = []" "filter (\<lambda>p. k \<le> fst p) m = m"
      by (auto simp: filter_empty_conv filter_id_conv not_less)
    with False show ?thesis by (simp add: p)
  qed
qed simp

lemma intersecting_or_adjacent_eq:
  assumes wf: "entries_wf m" and ne: "\<not> interval_is_empty i"
  shows "intersecting_or_adjacent m i = map entry_interval (filter (touches i) m)"
proof -
  let ?L = "filter (\<lambda>p. fst p < iv_start i) m" and ?R = "filter (\<lambda>p. iv_start i \<le> fst p) m"
  have wfs: "entries_wf ?L" "entries_wf ?R" using wf by auto
  have right: "takeWhile (\<lambda>p. \<not> (end_is_disjoint (iv_end i) (fst p) \<and>
                         \<not> end_is_adjacent (iv_end i) (fst p))) ?R = filter (touches i) ?R"
    by (rule touching_after [OF wfs(2) _ ne]) simp
  have left: "(if ?L = [] then []
      else if \<not> interval_is_disjoint i (entry_interval (last ?L)) \<or>
              interval_is_adjacent i (entry_interval (last ?L))
           then [entry_interval (last ?L)] else [])
      = map entry_interval (filter (touches i) ?L)"
  proof (cases "?L = []")
    case False
    then have "Excluded (fst (last ?L)) < snd (last ?L)"
      using entries_wf_nonempty [OF wfs(1)] last_in_set by blast
    from touches_iff [OF ne this] touching_before [OF wfs(1) _ False, of i] False
    show ?thesis by simp
  qed simp
  have "filter (touches i) m = filter (touches i) ?L @ filter (touches i) ?R"
    using bt_wf_split_at [OF entries_wf_bt_wf [OF wf], of "iv_start i"] by (metis filter_append)
  with left right show ?thesis
    unfolding intersecting_or_adjacent_def Let_def by simp
qed

text \<open>What the merge loop computes: the least start, the greatest end, and the removals.\<close>

lemma merge_overlaps_eq:
  assumes "\<forall>p \<in> set ps. bt_get m (fst p) \<noteq> None" and "distinct (map fst ps)"
  shows "merge_overlaps (map entry_interval ps) ms me m =
    Some (Min (insert ms (fst ` set ps)), Max (insert me (snd ` set ps)),
          filter (\<lambda>q. fst q \<notin> fst ` set ps) m)"
  using assms
proof (induction ps arbitrary: ms me m)
  case Nil
  show ?case by (simp add: filter_id_conv)
next
  case (Cons p ps)
  from Cons.prems obtain v where v: "bt_get m (fst p) = Some v" by auto
  let ?m = "bt_remove (fst p) m"
  have "\<forall>q \<in> set ps. bt_get ?m (fst q) \<noteq> None"
  proof
    fix q assume q: "q \<in> set ps"
    have "fst p \<notin> fst ` set ps" using Cons.prems(2) by simp
    with q have "fst q \<noteq> fst p" by (metis image_eqI)
    with Cons.prems(1) q show "bt_get ?m (fst q) \<noteq> None" by (simp add: bt_get_remove)
  qed
  from Cons.IH [OF this] Cons.prems(2)
  have IH: "merge_overlaps (map entry_interval ps) ms' me' ?m =
    Some (Min (insert ms' (fst ` set ps)), Max (insert me' (snd ` set ps)),
          filter (\<lambda>q. fst q \<notin> fst ` set ps) ?m)" for ms' me' by simp
  have mins: "Min (insert (if fst p < ms then fst p else ms) (fst ` set ps))
      = Min (insert ms (fst ` set (p # ps)))"
  proof -
    have "(if fst p < ms then fst p else ms) = min ms (fst p)" by (auto simp: min_def)
    moreover have "Min (insert (min ms (fst p)) A) = Min (insert ms (insert (fst p) A))"
      if "finite A" for A
      using that by (cases "A = {}") (simp_all add: min.assoc)
    ultimately show ?thesis by simp
  qed
  have maxs: "Max (insert (if me < snd p then snd p else me) (snd ` set ps))
      = Max (insert me (snd ` set (p # ps)))"
  proof -
    have "(if me < snd p then snd p else me) = max me (snd p)" by (auto simp: max_def)
    moreover have "Max (insert (max me (snd p)) A) = Max (insert me (insert (snd p) A))"
      if "finite A" for A
      using that by (cases "A = {}") (simp_all add: max.assoc)
    ultimately show ?thesis by simp
  qed
  have "filter (\<lambda>q. fst q \<notin> fst ` set ps) ?m = filter (\<lambda>q. fst q \<notin> fst ` set (p # ps)) m"
    by (auto simp: bt_remove_def case_prod_unfold intro!: filter_cong)
  moreover have "merge_overlaps (map entry_interval (p # ps)) ms me m =
      merge_overlaps (map entry_interval ps) (if fst p < ms then fst p else ms)
        (if me < snd p then snd p else me) ?m"
    using v by (simp add: Let_def)
  ultimately show ?case by (simp only: IH mins maxs)
qed

text \<open>Inserting an entry that is apart from all others keeps a list well formed.\<close>

lemma entries_wf_insert:
  assumes "entries_wf m" "Excluded k < e"
    and "\<forall>p \<in> set m. snd p < Excluded k \<or> e < Excluded (fst p)"
  shows "entries_wf (bt_insert k e m) \<and> set (bt_insert k e m) = insert (k, e) (set m)"
  using assms(1,3)
proof (induction m)
  case Nil
  with assms(2) show ?case by (simp add: entries_wf_def)
next
  case (Cons p m)
  obtain a b where p: "p = (a, b)" by (cases p)
  from Cons.prems have wf: "entries_wf m" and ab: "Excluded a < b"
    and next_: "\<forall>q \<in> set m. b < Excluded (fst q)"
    by (simp_all add: p entries_wf_Cons)
  from Cons.IH [OF wf] Cons.prems(2)
  have IH: "entries_wf (bt_insert k e m)" "set (bt_insert k e m) = insert (k, e) (set m)" by simp_all
  from Cons.prems(2) consider "b < Excluded k" | "e < Excluded a" by (auto simp: p)
  then show ?case
  proof cases
    case 1
    with ab have "Excluded a < Excluded k" by (rule less_trans)
    then have "\<not> k < a" "k \<noteq> a" by auto
    with IH ab next_ 1 show ?thesis by (auto simp: p entries_wf_Cons)
  next
    case 2
    with assms(2) have "Excluded k < Excluded a" by (rule less_trans)
    moreover have "\<forall>q \<in> set m. e < Excluded (fst q)"
    proof
      fix q assume "q \<in> set m"
      note 2 also note ab also from \<open>q \<in> set m\<close> next_ have "b < Excluded (fst q)" by blast
      finally show "e < Excluded (fst q)" .
    qed
    ultimately show ?thesis using assms(2) 2 wf ab next_ by (simp add: p entries_wf_Cons)
  qed
qed

lemma Min_insert_cases:
  "finite A \<Longrightarrow> Min (insert (x :: 'a::linorder) A) = x \<or> Min (insert x A) \<in> A"
  using Min_in [of "insert x A"] by auto

lemma Max_insert_cases:
  "finite A \<Longrightarrow> Max (insert (x :: 'a::linorder) A) = x \<or> Max (insert x A) \<in> A"
  using Max_in [of "insert x A"] by auto

text \<open>The merged interval stays apart from every entry that was not merged.\<close>

lemma merged_apart:
  assumes wf: "entries_wf m" and ne: "\<not> interval_is_empty i"
    and q: "q \<in> set m" "\<not> touches i q"
  defines "T \<equiv> set (filter (touches i) m)"
  shows "snd q < Excluded (Min (insert (iv_start i) (fst ` T))) \<or>
         Max (insert (iv_end i) (snd ` T)) < Excluded (fst q)"
proof -
  have fin: "finite (fst ` T)" "finite (snd ` T)" by (simp_all add: T_def)
  have qne: "Excluded (fst q) < snd q" using entries_wf_nonempty [OF wf q(1)] .
  have apart: "snd q < Excluded (fst y) \<or> snd y < Excluded (fst q)" and ty: "touches i y"
    if "y \<in> T" for y
  proof -
    from that have y: "y \<in> set m" "touches i y" by (simp_all add: T_def)
    with q(2) have "q \<noteq> y" by blast
    with entries_wf_apart [OF wf q(1) y(1)]
    show "snd q < Excluded (fst y) \<or> snd y < Excluded (fst q)" by blast
    from y show "touches i y" by blast
  qed
  from q(2) consider (left) "snd q < Excluded (iv_start i)" | (right) "iv_end i < Excluded (fst q)"
    by (auto simp: touches_def not_le)
  then show ?thesis
  proof cases
    case left
    have "snd q < Excluded (fst y)" if y: "y \<in> T" for y
    proof (rule ccontr)
      assume "\<not> ?thesis"
      with apart [OF y] have "snd y < Excluded (fst q)" by simp
      also note qne also note left
      finally show False using ty [OF y] by (auto simp: touches_def not_le [symmetric])
    qed
    with left Min_insert_cases [OF fin(1), of "iv_start i"] show ?thesis by auto
  next
    case right
    have "snd y < Excluded (fst q)" if y: "y \<in> T" for y
    proof (rule ccontr)
      assume "\<not> ?thesis"
      with apart [OF y] have lt: "snd q < Excluded (fst y)" by simp
      note right also note qne also note lt
      finally show False using ty [OF y] by (auto simp: touches_def not_le [symmetric])
    qed
    with right Max_insert_cases [OF fin(2), of "iv_end i"] show ?thesis by auto
  qed
qed

text \<open>The merged interval covers exactly the new interval and the merged entries.\<close>

lemma merged_keys:
  fixes T :: "(binary_key \<times> end_bound) set"
  assumes fin: "finite T" and touch: "\<forall>y \<in> T. touches i y"
  shows "Min (insert (iv_start i) (fst ` T)) \<le> p \<and> Excluded p < Max (insert (iv_end i) (snd ` T))
     \<longleftrightarrow> interval_contains i p \<or> (\<exists>y \<in> T. fst y \<le> p \<and> Excluded p < snd y)"
    (is "?l \<longleftrightarrow> ?r")
proof
  assume l: ?l
  show ?r
  proof (cases "iv_start i \<le> p")
    case False
    with l fin obtain y where y: "y \<in> T" "fst y \<le> p"
      using Min_insert_cases [of "fst ` T" "iv_start i"] by auto
    from False have "Excluded p < Excluded (iv_start i)" by (simp add: not_le)
    also from touch y have "\<dots> \<le> snd y" by (simp add: touches_def)
    finally show ?thesis using y by blast
  next
    case True
    show ?thesis
    proof (cases "Excluded p < iv_end i")
      case False
      with l fin obtain y where y: "y \<in> T" "Excluded p < snd y"
        using Max_insert_cases [of "snd ` T" "iv_end i"] by auto
      from touch y have "Excluded (fst y) \<le> iv_end i" by (simp add: touches_def)
      also from False have "\<dots> \<le> Excluded p" by simp
      finally show ?thesis using y by auto
    qed (use True in \<open>simp add: interval_contains_iff\<close>)
  qed
next
  assume ?r
  then obtain a b where ab: "a \<in> insert (iv_start i) (fst ` T)" "a \<le> p"
    "b \<in> insert (iv_end i) (snd ` T)" "Excluded p < b"
    by (auto simp: interval_contains_iff)
  have "Min (insert (iv_start i) (fst ` T)) \<le> a" using fin ab(1) by (intro Min_le) auto
  moreover have "b \<le> Max (insert (iv_end i) (snd ` T))" using fin ab(3) by (intro Max_ge) auto
  ultimately show ?l using ab(2,4) by (meson order_trans less_le_trans)
qed

lemma iset_add_Intervals:
  assumes wf: "entries_wf m" and ne: "\<not> interval_is_empty i" and na: "i \<noteq> interval_all"
  shows "\<exists>m'. iset_add (Intervals m) i = Some (Intervals m') \<and> entries_wf m' \<and>
              entries_keys m' = entries_keys m \<union> interval_keys i"
proof -
  define T where "T = filter (touches i) m"
  define ms where "ms = Min (insert (iv_start i) (fst ` set T))"
  define me where "me = Max (insert (iv_end i) (snd ` set T))"
  define m' where "m' = filter (\<lambda>q. \<not> touches i q) m"
  note bt = entries_wf_bt_wf [OF wf]
  have rest: "filter (\<lambda>q. fst q \<notin> fst ` set T) m = m'"
    unfolding m'_def
  proof (rule filter_cong [OF refl])
    fix q assume q: "q \<in> set m"
    have "q = y" if "y \<in> set m" "fst y = fst q" for y
      using that q bt by (metis bt_get_Some_iff option.inject prod.collapse)
    then have "touches i q" if "fst q \<in> fst ` set T" using that by (force simp: T_def)
    moreover have "fst q \<in> fst ` set T" if "touches i q" using that q by (simp add: T_def)
    ultimately show "fst q \<notin> fst ` set T \<longleftrightarrow> \<not> touches i q" by blast
  qed
  have "merge_overlaps (intersecting_or_adjacent m i) (iv_start i) (iv_end i) m = Some (ms, me, m')"
  proof -
    have "\<forall>p \<in> set T. bt_get m (fst p) \<noteq> None" by (auto simp: bt_get_None_iff T_def)
    moreover have "distinct (map fst T)" using bt by (intro bt_wf_distinct) (simp add: T_def)
    ultimately show ?thesis
      unfolding intersecting_or_adjacent_eq [OF wf ne] T_def [symmetric]
      by (simp only: merge_overlaps_eq rest ms_def me_def)
  qed
  with ne na have add: "iset_add (Intervals m) i = Some (Intervals (bt_insert ms me m'))"
    by (simp add: iset_add_def)
  have lt: "Excluded ms < me"
  proof -
    have "Excluded ms \<le> Excluded (iv_start i)" by (simp add: ms_def)
    also have "\<dots> < iv_end i" using ne by (simp add: interval_is_empty_iff not_le)
    also have "\<dots> \<le> me" by (simp add: me_def)
    finally show ?thesis .
  qed
  have apart: "\<forall>p \<in> set m'. snd p < Excluded ms \<or> me < Excluded (fst p)"
    unfolding ms_def me_def T_def using merged_apart [OF wf ne] by (simp add: m'_def)
  have "entries_wf m'" unfolding m'_def using wf by auto
  note ins = entries_wf_insert [OF this lt apart]
  have parts: "set m = set T \<union> set m'" by (auto simp: T_def m'_def)
  have "entries_keys (bt_insert ms me m') = entries_keys m \<union> interval_keys i"
  proof (rule set_eqI)
    fix p
    have "p \<in> entries_keys (bt_insert ms me m') \<longleftrightarrow>
        ms \<le> p \<and> Excluded p < me \<or> (\<exists>q \<in> set m'. fst q \<le> p \<and> Excluded p < snd q)"
      using ins by (simp add: in_entries_keys)
    also have "ms \<le> p \<and> Excluded p < me \<longleftrightarrow>
        interval_contains i p \<or> (\<exists>y \<in> set T. fst y \<le> p \<and> Excluded p < snd y)"
      unfolding ms_def me_def by (rule merged_keys) (simp_all add: T_def)
    finally show "p \<in> entries_keys (bt_insert ms me m') \<longleftrightarrow> p \<in> entries_keys m \<union> interval_keys i"
      unfolding in_entries_keys [of p m] parts Un_iff in_interval_keys by blast
  qed
  with add ins show ?thesis by blast
qed

lemma iset_add_spec:
  assumes "iset_wf s"
  shows "\<exists>s'. iset_add s i = Some s' \<and> iset_wf s' \<and> iset_keys s' = iset_keys s \<union> interval_keys i"
proof (cases "interval_is_empty i")
  case True
  with assms show ?thesis by (simp add: iset_add_def interval_keys_empty_iff [THEN iffD2])
next
  case ne: False
  show ?thesis
  proof (cases "i = interval_all")
    case True
    with ne show ?thesis by (simp add: iset_add_def iset_wf_def iset_keys_def)
  next
    case na: False
    show ?thesis
    proof (cases s)
      case All
      with ne na show ?thesis by (simp add: iset_add_def iset_wf_def iset_keys_def)
    next
      case (Intervals m)
      with assms iset_add_Intervals [OF _ ne na, of m] show ?thesis
        by (auto simp: iset_wf_def iset_keys_def)
    qed
  qed
qed

section \<open>Membership\<close>

text \<open>The preceding entry is the greatest one that starts at or before the key.\<close>

lemma preceding_entry:
  assumes wf: "entries_wf m"
  shows "interval_preceding (Intervals m) k = None \<Longrightarrow> \<forall>p \<in> set m. k < fst p"
    and "interval_preceding (Intervals m) k = Some b \<Longrightarrow>
      \<exists>q \<in> set m. b = entry_interval q \<and> fst q \<le> k \<and>
        (\<forall>p \<in> set m. p = q \<or> snd p < Excluded (fst q) \<or> k < fst p)"
proof -
  assume "interval_preceding (Intervals m) k = None"
  then show "\<forall>p \<in> set m. k < fst p"
    by (auto simp: interval_preceding_def filter_empty_conv not_le split: if_splits)
next
  let ?L = "filter (\<lambda>p. fst p \<le> k) m"
  assume b: "interval_preceding (Intervals m) k = Some b"
  then have ne: "?L \<noteq> []" and b: "b = entry_interval (last ?L)"
    by (auto simp: interval_preceding_def Let_def split: if_splits)
  from last_in_set [OF ne] have q: "last ?L \<in> set m" "fst (last ?L) \<le> k" by simp_all
  have "p = last ?L \<or> snd p < Excluded (fst (last ?L)) \<or> k < fst p" if p: "p \<in> set m" for p
  proof (cases "fst p \<le> k")
    case True
    have "bt_wf ?L" using entries_wf_bt_wf [OF wf] by simp
    from sorted_last_ge [OF this ne] True p have le: "fst p \<le> fst (last ?L)" by simp
    have "\<not> snd (last ?L) < Excluded (fst p)"
    proof
      assume "snd (last ?L) < Excluded (fst p)"
      with entries_wf_nonempty [OF wf q(1)] have "fst (last ?L) < fst p"
        by (rule end_less_start_trans)
      with le show False by simp
    qed
    with entries_wf_apart [OF wf p q(1)] show ?thesis by blast
  qed (simp add: not_le)
  with q b show "\<exists>q \<in> set m. b = entry_interval q \<and> fst q \<le> k \<and>
        (\<forall>p \<in> set m. p = q \<or> snd p < Excluded (fst q) \<or> k < fst p)" by blast
qed

lemma end_before_not_after:
  "snd p < Excluded a \<Longrightarrow> a \<le> k \<Longrightarrow> \<not> Excluded k < snd p"
  by (meson end_bound_le_simps(3) less_asym less_le_trans)

lemma iset_contains_iff:
  assumes "iset_wf s"
  shows "iset_contains s k \<longleftrightarrow> k \<in> iset_keys s"
proof (cases s)
  case All
  then show ?thesis
    by (simp add: iset_contains_def iset_keys_def interval_preceding_def
        interval_contains_iff interval_all_def binary_key_min_def)
next
  case (Intervals m)
  with assms have wf: "entries_wf m" by (simp add: iset_wf_def)
  show ?thesis
  proof (cases "interval_preceding s k")
    case None
    with preceding_entry(1) [OF wf] have "\<forall>p \<in> set m. k < fst p" by (simp add: Intervals)
    with None show ?thesis
      by (auto simp: iset_contains_def iset_keys_def Intervals in_entries_keys not_le [symmetric])
  next
    case (Some b)
    with preceding_entry(2) [OF wf, of k b] obtain q where q: "q \<in> set m" "b = entry_interval q"
      "fst q \<le> k" and others: "\<forall>p \<in> set m. p = q \<or> snd p < Excluded (fst q) \<or> k < fst p"
      by (auto simp: Intervals)
    have "p = q" if "p \<in> set m" "fst p \<le> k" "Excluded k < snd p" for p
      using that others end_before_not_after q(3) leD by blast
    then have "k \<in> iset_keys s \<longleftrightarrow> Excluded k < snd q"
      using q(1,3) unfolding iset_keys_def Intervals interval_set.case in_entries_keys by blast
    moreover have "iset_contains s k \<longleftrightarrow> Excluded k < snd q"
      using Some q by (simp add: iset_contains_def interval_contains_iff)
    ultimately show ?thesis by simp
  qed
qed

section \<open>Splitting an interval into components\<close>

definition component_keys :: "bool \<Rightarrow> (bool \<times> interval) option list \<Rightarrow> binary_key set" where
  "component_keys b cs = (\<Union>c \<in> set cs. case c of
     Some (b', i) \<Rightarrow> if b' = b then interval_keys i else {} | None \<Rightarrow> {})"

fun outside_entries :: "(bool \<times> interval) option list \<Rightarrow> (binary_key \<times> end_bound) list" where
  "outside_entries [] = []"
| "outside_entries (Some (in_set, i) # cs) =
     (if in_set then outside_entries cs else (iv_start i, iv_end i) # outside_entries cs)"
| "outside_entries (None # cs) = outside_entries cs"

lemma component_keys_simps [simp]:
  "component_keys b [] = {}"
  "component_keys b (None # cs) = component_keys b cs"
  "component_keys b (Some (b', i) # cs) =
     (if b' = b then interval_keys i else {}) \<union> component_keys b cs"
  by (simp_all add: component_keys_def)

lemma outside_keys: "entries_keys (outside_entries cs) = component_keys False cs"
proof (induction cs rule: outside_entries.induct)
  case (2 b i cs)
  then show ?case by (cases i) (simp add: entry_interval_def)
qed simp_all

text \<open>
  The loop, started at \<open>c\<close> with the entries that start strictly after \<open>c\<close> and
  before the target's end.
\<close>

lemma component_loop_spec:
  assumes "entries_wf m" "\<forall>p \<in> set m. c < fst p \<and> Excluded (fst p) < te" "Excluded c < te"
  shows "None \<notin> set (component_loop m c te) \<and>
    component_keys True (component_loop m c te) = {x. c \<le> x \<and> Excluded x < te} \<inter> entries_keys m \<and>
    component_keys False (component_loop m c te) = {x. c \<le> x \<and> Excluded x < te} - entries_keys m \<and>
    entries_wf (outside_entries (component_loop m c te)) \<and>
    (\<forall>p \<in> set (outside_entries (component_loop m c te)). c \<le> fst p)"
  using assms
proof (induction m c te rule: component_loop.induct)
  case (1 c te)
  then show ?case by (auto simp: interval_contains_iff entries_wf_Cons)
next
  case (2 s e rest c te)
  from "2.prems" have cs: "c < s" and ste: "Excluded s < te" and se: "Excluded s < e"
    and after: "\<forall>p \<in> set rest. e < Excluded (fst p)" and wf: "entries_wf rest"
    and inr: "\<forall>p \<in> set rest. Excluded (fst p) < te"
    by (auto simp: entries_wf_Cons)
  show ?case
  proof (cases "te \<le> e")
    case True
    have "rest = []"
    proof (rule ccontr)
      assume "rest \<noteq> []"
      then obtain p where "p \<in> set rest" by (cases rest) auto
      with after inr have "e < te" by (meson less_trans)
      with True show False by simp
    qed
    moreover have "Excluded x < e" if "Excluded x < te" for x using that True by (rule less_le_trans)
    moreover have "Excluded x < te" if "x < s" for x
      using that ste by (meson end_bound_le_simps(6) less_trans)
    ultimately show ?thesis using True cs
      by (auto simp: interval_contains_iff entries_wf_Cons not_le)
  next
    case False
    then obtain e' where e': "e = Excluded e'" by (cases e) auto
    from False have ete: "Excluded e' < te" by (simp add: e')
    from se have se': "s < e'" by (simp add: e')
    have "\<forall>p \<in> set rest. e' < fst p \<and> Excluded (fst p) < te" using after inr by (simp add: e')
    note IH = "2.IH" [OF False e' wf this ete]
    have below: "Excluded x < te" if "x < e'" for x
      using that ete by (meson end_bound_le_simps(6) less_trans)
    have rest_after: "\<not> x < e'" if "x \<in> entries_keys rest" for x
      using that after by (auto simp: in_entries_keys e')
    from IH se' cs have wf': "entries_wf ((c, Excluded s) # outside_entries (component_loop rest e' te))"
      by (auto simp: entries_wf_Cons)
    from False e' have eq: "component_loop ((s, e) # rest) c te =
       Some (False, \<lparr>iv_start = c, iv_end = Excluded s\<rparr>) #
       Some (True, \<lparr>iv_start = s, iv_end = Excluded e'\<rparr>) # component_loop rest e' te" by simp
    have order: "s \<le> x \<Longrightarrow> c \<le> x" "e' \<le> x \<Longrightarrow> c \<le> x" "x < s \<Longrightarrow> x < e'" "e' \<le> x \<Longrightarrow> s \<le> x" for x
      using cs se' by order+
    have mem: "x \<in> entries_keys ((s, e) # rest) \<longleftrightarrow> s \<le> x \<and> x < e' \<or> x \<in> entries_keys rest" for x
      by (simp add: interval_contains_iff e')
    have "x \<in> component_keys True (component_loop ((s, e) # rest) c te)
        \<longleftrightarrow> c \<le> x \<and> Excluded x < te \<and> x \<in> entries_keys ((s, e) # rest)" for x
    proof -
      have "x \<in> component_keys True (component_loop ((s, e) # rest) c te) \<longleftrightarrow>
          s \<le> x \<and> x < e' \<or> e' \<le> x \<and> Excluded x < te \<and> x \<in> entries_keys rest"
        unfolding eq using IH by (simp add: interval_contains_iff)
      then show ?thesis unfolding mem using order [of x] below [of x] rest_after [of x]
        by (cases "x < e'") (auto simp: not_less)
    qed
    moreover have "x \<in> component_keys False (component_loop ((s, e) # rest) c te)
        \<longleftrightarrow> c \<le> x \<and> Excluded x < te \<and> x \<notin> entries_keys ((s, e) # rest)" for x
    proof -
      have "x \<in> component_keys False (component_loop ((s, e) # rest) c te) \<longleftrightarrow>
          c \<le> x \<and> x < s \<or> e' \<le> x \<and> Excluded x < te \<and> x \<notin> entries_keys rest"
        unfolding eq using IH by (simp add: interval_contains_iff)
      then show ?thesis unfolding mem using order [of x] below [of x] rest_after [of x]
        by (cases "x < e'") (auto simp: not_less)
    qed
    moreover have "None \<notin> set (component_loop ((s, e) # rest) c te)"
      "entries_wf (outside_entries (component_loop ((s, e) # rest) c te))"
      "\<forall>p \<in> set (outside_entries (component_loop ((s, e) # rest) c te)). c \<le> fst p"
      unfolding eq using IH wf' order(2) by simp_all
    ultimately show ?thesis by blast
  qed
qed

text \<open>The loop over the entries in range, when nothing in the set reaches across its start.\<close>

lemma range_loop_spec:
  assumes wf: "entries_wf m" and cte: "Excluded c < te"
    and clear: "\<forall>p \<in> set m. snd p \<le> Excluded c \<or> c < fst p"
  defines "cs \<equiv> component_loop (starts_in_range m \<lparr>iv_start = c, iv_end = te\<rparr>) c te"
  shows "None \<notin> set cs \<and>
    component_keys True cs = {x. c \<le> x \<and> Excluded x < te} \<inter> entries_keys m \<and>
    component_keys False cs = {x. c \<le> x \<and> Excluded x < te} - entries_keys m \<and>
    entries_wf (outside_entries cs)"
proof -
  let ?r = "starts_in_range m \<lparr>iv_start = c, iv_end = te\<rparr>"
  have wfr: "entries_wf ?r" unfolding starts_in_range_def using wf by blast
  have inr: "\<forall>p \<in> set ?r. c < fst p \<and> Excluded (fst p) < te"
  proof
    fix p assume "p \<in> set ?r"
    then have p: "p \<in> set m" "c \<le> fst p" "Excluded (fst p) < te"
      by (auto simp: starts_in_range_def interval_contains_iff)
    have "Excluded c < snd p"
      using p(2) entries_wf_nonempty [OF wf p(1)] by (meson end_bound_le_simps(3) le_less_trans)
    with clear p show "c < fst p \<and> Excluded (fst p) < te" by (auto simp: not_le [symmetric])
  qed
  have "x \<in> entries_keys ?r \<longleftrightarrow> x \<in> entries_keys m" if x: "c \<le> x" "Excluded x < te" for x
  proof
    assume "x \<in> entries_keys m"
    then obtain p where p: "p \<in> set m" "fst p \<le> x" "Excluded x < snd p"
      by (auto simp: in_entries_keys)
    from x p have "\<not> snd p \<le> Excluded c" by (meson end_bound_le_simps(3) leD le_less_trans)
    with clear p have "c \<le> fst p" by (auto simp: order_less_imp_le)
    moreover have "Excluded (fst p) < te" using p x by (meson end_bound_le_simps(3) le_less_trans)
    ultimately show "x \<in> entries_keys ?r" using p unfolding in_entries_keys starts_in_range_def
      by (intro bexI [of _ p]) (simp_all add: interval_contains_iff)
  next
    assume "x \<in> entries_keys ?r"
    then show "x \<in> entries_keys m"
      unfolding in_entries_keys starts_in_range_def set_filter by blast
  qed
  then have "{x. c \<le> x \<and> Excluded x < te} \<inter> entries_keys ?r = {x. c \<le> x \<and> Excluded x < te} \<inter> entries_keys m"
    "{x. c \<le> x \<and> Excluded x < te} - entries_keys ?r = {x. c \<le> x \<and> Excluded x < te} - entries_keys m"
    by blast+
  with component_loop_spec [OF wfr inr cte] show ?thesis by (simp add: cs_def)
qed

lemma interval_keys_eq: "interval_keys i = {x. iv_start i \<le> x \<and> Excluded x < iv_end i}"
  by (rule set_eqI) (simp add: interval_contains_iff)

lemma split_interval_components_spec:
  fixes target :: interval
  assumes "iset_wf s"
  defines "cs \<equiv> split_interval_components s target"
  shows "None \<notin> set cs \<and>
    component_keys True cs = interval_keys target \<inter> iset_keys s \<and>
    component_keys False cs = interval_keys target - iset_keys s \<and>
    entries_wf (outside_entries cs)"
proof (cases s)
  case All
  then show ?thesis by (simp add: cs_def split_interval_components_def iset_keys_def)
next
  case (Intervals m)
  with assms have wf: "entries_wf m" by (simp add: iset_wf_def)
  let ?ts = "iv_start target" and ?te = "iv_end target"
  let ?rest = "\<lambda>c. component_loop (starts_in_range m \<lparr>iv_start = c, iv_end = ?te\<rparr>) c ?te"
  show ?thesis
  proof (cases "interval_is_empty target")
    case True
    then have "interval_keys target = {}" by (simp add: interval_keys_empty_iff)
    then show ?thesis by (simp add: cs_def split_interval_components_def Intervals True)
  next
    case ne: False
    then have tste: "Excluded ?ts < ?te" by (simp add: interval_is_empty_iff not_le)
    show ?thesis
    proof (cases "interval_preceding s ?ts")
      case None
      with preceding_entry(1) [OF wf] have "\<forall>p \<in> set m. ?ts < fst p" by (simp add: Intervals)
      then have "\<forall>p \<in> set m. snd p \<le> Excluded ?ts \<or> ?ts < fst p" by blast
      from range_loop_spec [OF wf tste this] None ne show ?thesis
        by (simp add: cs_def split_interval_components_def Intervals iset_keys_def interval_keys_eq
            Let_def)
    next
      case (Some b)
      with preceding_entry(2) [OF wf, of ?ts b] obtain q where q: "q \<in> set m" "b = entry_interval q"
        "fst q \<le> ?ts" and others: "\<forall>p \<in> set m. p = q \<or> snd p < Excluded (fst q) \<or> ?ts < fst p"
        by (auto simp: Intervals)
      show ?thesis
      proof (cases "?te \<le> snd q")
        case True
        have "interval_keys target \<subseteq> iset_keys s"
        proof
          fix x assume "x \<in> interval_keys target"
          with q True have "fst q \<le> x" "Excluded x < snd q"
            by (auto simp: interval_contains_iff)
          with q(1) show "x \<in> iset_keys s" by (auto simp: iset_keys_def Intervals in_entries_keys)
        qed
        moreover have "cs = [Some (True, target)]"
          using Some ne True q by (simp add: cs_def split_interval_components_def Intervals Let_def)
        ultimately show ?thesis by auto
      next
        case False
        then obtain be where be: "snd q = Excluded be" by (cases "snd q") auto
        from False be have bete: "Excluded be < ?te" by simp
        have left: "snd p < Excluded ?ts" if "snd p < Excluded (fst q)" for p :: "binary_key \<times> end_bound"
          using that q(3) by (meson end_bound_le_simps(3) less_le_trans)
        show ?thesis
        proof (cases "be > ?ts")
          case True
          have "\<forall>p \<in> set m. snd p \<le> Excluded be \<or> be < fst p"
          proof
            fix p assume p: "p \<in> set m"
            have "snd p < Excluded be" if "snd p < Excluded (fst q)"
              using left [OF that] True by (meson end_bound_le_simps(6) less_trans)
            moreover have "be < fst p" if "snd q < Excluded (fst p)" using that by (simp add: be)
            ultimately show "snd p \<le> Excluded be \<or> be < fst p"
              using entries_wf_apart [OF wf p q(1)] be by (cases "p = q") (auto simp: order_less_imp_le)
          qed
          note loop = range_loop_spec [OF wf bete this]
          have cs: "cs = Some (True, \<lparr>iv_start = ?ts, iv_end = Excluded be\<rparr>) # ?rest be"
            using Some ne False q True be
            by (simp add: cs_def split_interval_components_def Intervals Let_def)
          have inq: "x \<in> entries_keys m" if "?ts \<le> x" "x < be" for x
            unfolding in_entries_keys using that q be by (intro bexI [of _ q]) auto
          have order: "x < be \<Longrightarrow> Excluded x < ?te" "be \<le> x \<Longrightarrow> ?ts \<le> x" for x
            using bete True by (meson end_bound_le_simps(6) less_trans, order)
          have "component_keys True cs = interval_keys target \<inter> entries_keys m"
            using loop order inq by (fastforce simp: cs interval_keys_eq not_less)
          moreover have "component_keys False cs = interval_keys target - entries_keys m"
            using loop order inq by (fastforce simp: cs interval_keys_eq not_less)
          ultimately show ?thesis using loop by (simp add: cs iset_keys_def Intervals)
        next
          case nlt: False
          have "\<forall>p \<in> set m. snd p \<le> Excluded ?ts \<or> ?ts < fst p"
            using others left be nlt by (auto simp: order_less_imp_le)
          from range_loop_spec [OF wf tste this] Some ne False nlt be q show ?thesis
            by (simp add: cs_def split_interval_components_def Intervals iset_keys_def interval_keys_eq
            Let_def)
        qed
      qed
    qed
  qed
qed

section \<open>Containment and difference\<close>

lemma all_in_set_eq: "None \<notin> set cs \<Longrightarrow> all_in_set cs = Some (outside_entries cs = [])"
  by (induction cs rule: all_in_set.induct) auto

lemma entries_keys_empty_iff: "entries_wf m \<Longrightarrow> entries_keys m = {} \<longleftrightarrow> m = []"
proof (cases m)
  case (Cons p m')
  assume "entries_wf m"
  then have "fst p \<in> entries_keys m" by (simp add: Cons entries_wf_Cons interval_contains_iff)
  then show ?thesis by (auto simp: Cons)
qed simp

lemma subtract_loop_eq:
  "None \<notin> set cs \<Longrightarrow>
   subtract_loop cs m = Some (fold (\<lambda>(k, v). bt_insert k v) (outside_entries cs) m)"
  by (induction cs m rule: subtract_loop.induct) auto

lemma subtract_from_interval_spec:
  assumes "iset_wf s"
  shows "\<exists>d. subtract_from_interval s target = Some (Intervals d) \<and> entries_wf d \<and>
             entries_keys d = interval_keys target - iset_keys s"
proof -
  let ?cs = "split_interval_components s target"
  note spec = split_interval_components_spec [OF assms, of target]
  then have "bt_collect (outside_entries ?cs) = outside_entries ?cs"
    by (intro bt_collect_id entries_wf_bt_wf) blast
  with spec have "subtract_from_interval s target = Some (Intervals (outside_entries ?cs))"
    by (simp add: subtract_from_interval_def subtract_loop_eq bt_collect_def)
  with spec show ?thesis by (simp add: outside_keys)
qed

text \<open>A well-formed list is determined by its keys.\<close>

lemma entries_wf_least:
  assumes "entries_wf (p # m)" "x \<in> entries_keys (p # m)" shows "fst p \<le> x"
proof -
  from assms(2) obtain q where q: "q \<in> set (p # m)" "fst q \<le> x" unfolding in_entries_keys by blast
  have "fst p \<le> fst q"
  proof (cases "q = p")
    case False
    with assms(1) q(1) have "fst p < fst q"
      by (auto simp: entries_wf_Cons intro: end_less_start_trans)
    then show ?thesis by simp
  qed simp
  with q show ?thesis by simp
qed

lemma entries_keys_head_end:
  assumes wf: "entries_wf ((s, e) # m)" and wf': "entries_wf ((s, e') # m')"
    and keys: "entries_keys ((s, e) # m) = entries_keys ((s, e') # m')"
  shows "\<not> e < e'"
proof
  assume lt: "e < e'"
  then obtain t where t: "e = Excluded t" by (cases e) auto
  from wf have "s \<le> t" by (simp add: entries_wf_Cons t order_less_imp_le)
  with lt have "t \<in> entries_keys ((s, e') # m')" by (simp add: t interval_contains_iff)
  with keys have "t \<in> entries_keys ((s, e) # m)" by simp
  then obtain q where "q \<in> set m" "fst q \<le> t" unfolding in_entries_keys by (auto simp: t)
  with wf show False by (auto simp: entries_wf_Cons t)
qed

lemma entries_keys_tail:
  "entries_wf (p # m) \<Longrightarrow> entries_keys m = entries_keys (p # m) - interval_keys (entry_interval p)"
proof -
  assume wf: "entries_wf (p # m)"
  have "\<not> Excluded x < snd p" if x: "x \<in> entries_keys m" for x
  proof -
    from x obtain q where q: "q \<in> set m" "fst q \<le> x" unfolding in_entries_keys by blast
    with wf have "snd p < Excluded (fst q)" by (simp add: entries_wf_Cons)
    then show ?thesis using q(2) by (rule end_before_not_after)
  qed
  then show ?thesis by (auto simp: interval_contains_iff)
qed

lemma entries_wf_canonical:
  "entries_wf m \<Longrightarrow> entries_wf m' \<Longrightarrow> entries_keys m = entries_keys m' \<Longrightarrow> m = m'"
proof (induction m arbitrary: m')
  case Nil
  then show ?case using entries_keys_empty_iff [of m'] by simp
next
  case (Cons p m)
  then have "m' \<noteq> []" using entries_keys_empty_iff [of "p # m"] by auto
  then obtain p' n where m': "m' = p' # n" by (cases m') auto
  have "fst p \<in> entries_keys (p # m)" "fst p' \<in> entries_keys (p' # n)"
    using Cons.prems(1,2) by (simp_all add: m' entries_wf_Cons interval_contains_iff)
  then have "fst p = fst p'"
    using entries_wf_least [OF Cons.prems(1), of "fst p'"] Cons.prems(2,3)
      entries_wf_least [of p' n "fst p"] by (simp only: m') (blast intro: order.antisym)
  then obtain s e e' where p: "p = (s, e)" "p' = (s, e')" by (cases p, cases p') auto
  have "\<not> e < e'" "\<not> e' < e"
    using entries_keys_head_end Cons.prems unfolding m' p by metis+
  then have "e = e'" by simp
  then have "p' = p" by (simp add: p)
  have "entries_keys m = entries_keys n"
    using entries_keys_tail [OF Cons.prems(1)] Cons.prems(2,3) entries_keys_tail [of p' n]
    by (simp only: m' \<open>p' = p\<close>)
  moreover have "entries_wf m" "entries_wf n" using Cons.prems(1,2) by (simp_all add: m' entries_wf_Cons)
  ultimately have "m = n" by (intro Cons.IH)
  then show ?case by (simp add: m' \<open>p' = p\<close>)
qed

section \<open>Wire format\<close>

lemma iset_add_canonical:
  assumes "entries_wf (m @ [(s, e)])" "(s, e) \<noteq> ([], Unbounded)"
  shows "iset_add (Intervals m) \<lparr>iv_start = s, iv_end = e\<rparr> = Some (Intervals (m @ [(s, e)]))"
proof -
  from assms have wf: "entries_wf m" and ne: "Excluded s < e"
    by (auto simp: entries_wf_def sorted_wrt_append)
  let ?i = "\<lparr>iv_start = s, iv_end = e\<rparr>"
  have "\<not> interval_is_empty ?i" using ne by (simp add: interval_is_empty_iff not_le)
  moreover have "?i \<noteq> interval_all" using assms(2) by (simp add: interval_all_def binary_key_min_def)
  ultimately obtain m' where m': "iset_add (Intervals m) ?i = Some (Intervals m')" "entries_wf m'"
    "entries_keys m' = entries_keys m \<union> interval_keys ?i"
    using iset_add_Intervals [OF wf] by blast
  moreover have "entries_keys (m @ [(s, e)]) = entries_keys m \<union> interval_keys ?i"
    by (simp add: entries_keys_def Un_commute entry_interval_def)
  ultimately have "m' = m @ [(s, e)]" using assms(1) entries_wf_canonical by blast
  with m' show ?thesis by simp
qed

lemma entries_wf_all:
  assumes "entries_wf m" "([], Unbounded) \<in> set m" shows "m = [([], Unbounded)]"
proof -
  have "entries_keys m = UNIV" using assms(2) unfolding entries_keys_def
    by (auto simp: interval_contains_iff intro!: bexI [of _ "([], Unbounded)"])
  then show ?thesis
    by (intro entries_wf_canonical [OF assms(1)])
       (auto simp: entries_wf_Cons interval_contains_iff)
qed

lemma add_protos_entries:
  assumes "entries_wf (m @ ps)" "([], Unbounded) \<notin> set ps"
  shows "add_protos (iset_to_proto (Intervals ps)) (Intervals m) = Some (Inr (Intervals (m @ ps)))"
  using assms
proof (induction ps arbitrary: m)
  case Nil
  then show ?case by (simp add: iset_to_proto_def)
next
  case (Cons p ps)
  obtain s e where p: "p = (s, e)" by (cases p)
  have "entries_wf (m @ [(s, e)])"
    using Cons.prems(1) by (auto simp: p entries_wf_def sorted_wrt_append)
  then have "iset_add (Intervals m) \<lparr>iv_start = s, iv_end = e\<rparr> = Some (Intervals (m @ [(s, e)]))"
    using Cons.prems(2) by (intro iset_add_canonical) (auto simp: p)
  moreover have "(case case e of Excluded k \<Rightarrow> Exclusive k | Unbounded \<Rightarrow> AfterAll of
      Exclusive k \<Rightarrow> Excluded k | AfterAll \<Rightarrow> Unbounded) = e" by (cases e) simp_all
  ultimately show ?case
    using Cons.IH [of "m @ [p]"] Cons.prems by (simp add: iset_to_proto_def p)
qed

section \<open>The contract clients rely on\<close>

text \<open>
  What the users of an interval set need: starting from the empty set and adding
  intervals never fails, and membership answers for the union.  \<open>add_all\<close> is the
  loop \<open>for interval in ... { set.add(interval) }\<close>.
\<close>

primrec add_all :: "('s \<Rightarrow> interval \<Rightarrow> 's option) \<Rightarrow> interval list \<Rightarrow> 's \<Rightarrow> 's option" where
  "add_all add [] s = Some s"
| "add_all add (i # is) s = (case add s i of None \<Rightarrow> None | Some s' \<Rightarrow> add_all add is s')"

locale key_set =
  fixes empty :: 's
    and add :: "'s \<Rightarrow> interval \<Rightarrow> 's option"
    and member :: "'s \<Rightarrow> binary_key \<Rightarrow> bool"
    and invar :: "'s \<Rightarrow> bool"
  assumes invar_empty: "invar empty"
    and member_empty: "\<not> member empty k"
    and add_law: "invar s \<Longrightarrow> \<exists>s'. add s i = Some s' \<and> invar s' \<and>
          (\<forall>k. member s' k \<longleftrightarrow> member s k \<or> interval_contains i k)"
begin

lemma add_all_law:
  assumes "invar s"
  shows "\<exists>s'. add_all add is s = Some s' \<and> invar s' \<and>
      (\<forall>k. member s' k \<longleftrightarrow> member s k \<or> (\<exists>i \<in> set is. interval_contains i k))"
  using assms
proof (induction "is" arbitrary: s)
  case (Cons i "is")
  from add_law [OF Cons.prems, of i] obtain s1 where s1: "add s i = Some s1" "invar s1"
    "\<forall>k. member s1 k \<longleftrightarrow> member s k \<or> interval_contains i k" by blast
  from Cons.IH [OF s1(2)] s1(1,3) show ?case by auto
qed simp

lemma add_all_empty:
  "\<exists>s'. add_all add is empty = Some s' \<and> invar s' \<and>
      (\<forall>k. member s' k \<longleftrightarrow> (\<exists>i \<in> set is. interval_contains i k))"
  using add_all_law [OF invar_empty, of "is"] by (simp add: member_empty)

end

interpretation iset: key_set iset_new iset_add iset_contains iset_wf
proof unfold_locales
  show "iset_wf iset_new" by (simp add: iset_wf_def iset_new_def)
  then show "\<not> iset_contains iset_new k" for k
    by (simp add: iset_contains_iff) (simp add: iset_keys_def iset_new_def)
  show "\<exists>s'. iset_add s i = Some s' \<and> iset_wf s' \<and>
      (\<forall>k. iset_contains s' k \<longleftrightarrow> iset_contains s k \<or> interval_contains i k)"
    if "iset_wf s" for s i
    using iset_add_spec [OF that, of i] that by (auto simp: iset_contains_iff)
qed

section \<open>Properties\<close>

text \<open>
  C33. Adding intervals one after the other to the empty set never panics, keeps
  the intervals non-empty, apart and ordered, and afterwards \<open>contains\<close> holds
  for exactly the keys of the added intervals.
\<close>

theorem interval_set_add_contains:
  "\<exists>s. add_all iset_add is iset_new = Some s \<and> iset_wf s \<and>
       (\<forall>k. iset_contains s k \<longleftrightarrow> (\<exists>i \<in> set is. interval_contains i k))"
  by (rule iset.add_all_empty)

theorem interval_set_add_contains_witness:
  "\<exists>s. add_all iset_add [interval_prefix [1], singleton [2], interval_prefix [3]] iset_new = Some s \<and>
       iset_contains s [1, 7] \<and> iset_contains s [2] \<and> \<not> iset_contains s [2, 0]"
  using interval_set_add_contains [of "[interval_prefix [1], singleton [2], interval_prefix [3]]"]
  by (auto simp: interval_prefix_def singleton_def end_included_def after_prefix_def
      increment.simps interval_contains_def)



text \<open>
  C35. On a well-formed set, \<open>split_interval_components\<close> reaches no
  \<open>unreachable!\<close>, its components marked \<open>true\<close> cover the part of the target inside
  the set and those marked \<open>false\<close> the part outside; so \<open>contains_interval\<close>
  decides inclusion and \<open>subtract_from_interval\<close> is the difference, again well formed.
\<close>

theorem interval_set_components:
  assumes "iset_wf s"
  shows "None \<notin> set (split_interval_components s target) \<and>
    component_keys True (split_interval_components s target) = interval_keys target \<inter> iset_keys s \<and>
    component_keys False (split_interval_components s target) = interval_keys target - iset_keys s \<and>
    contains_interval s target = Some (interval_keys target \<subseteq> iset_keys s) \<and>
    (\<exists>d. subtract_from_interval s target = Some d \<and> iset_wf d \<and>
         iset_keys d = interval_keys target - iset_keys s)"
proof -
  note spec = split_interval_components_spec [OF assms, of target]
  then have "outside_entries (split_interval_components s target) = [] \<longleftrightarrow>
      interval_keys target - iset_keys s = {}"
    using entries_keys_empty_iff outside_keys by metis
  then have "contains_interval s target = Some (interval_keys target \<subseteq> iset_keys s)"
    using spec by (simp add: contains_interval_def all_in_set_eq Diff_eq_empty_iff)
  with spec subtract_from_interval_spec [OF assms, of target] show ?thesis
    by (auto simp: iset_wf_def iset_keys_def)
qed

theorem interval_set_components_witness:
  "contains_interval (Intervals [([1], Excluded [3]), ([5], Unbounded)]) (singleton [2]) =
     Some (interval_keys (singleton [2]) \<subseteq> iset_keys (Intervals [([1], Excluded [3]), ([5], Unbounded)]))"
  using interval_set_components [of "Intervals [([1], Excluded [3]), ([5], Unbounded)]" "singleton [2]"]
  by (simp add: iset_wf_def entries_wf_def)

text \<open>
  C37. A well-formed set survives the wire format: decoding its encoding gives
  the set back, except that the single interval covering every key comes back as
  \<open>All\<close>, which denotes the same keys.
\<close>

theorem interval_set_proto_roundtrip:
  assumes "iset_wf s"
  shows "iset_try_from (iset_to_proto s) =
    Some (Inr (if s = Intervals [([], Unbounded)] then All else s))"
proof (cases s)
  case All
  then show ?thesis by (simp add: iset_try_from_def iset_to_proto_def)
next
  case (Intervals m)
  with assms have wf: "entries_wf m" by (simp add: iset_wf_def)
  have enc: "iset_to_proto s = all_interval_proto \<longleftrightarrow> m = [([], Unbounded)]"
  proof -
    have "(case e of Unbounded \<Rightarrow> AfterAll | Excluded k \<Rightarrow> Exclusive k) = AfterAll \<longleftrightarrow> e = Unbounded" for e
      by (cases e) simp_all
    then show ?thesis
      by (auto simp: Intervals iset_to_proto_def all_interval_proto_def map_eq_Cons_conv)
  qed
  show ?thesis
  proof (cases "m = [([], Unbounded)]")
    case True
    with enc show ?thesis by (simp add: iset_try_from_def Intervals)
  next
    case False
    with entries_wf_all [OF wf] have "([], Unbounded) \<notin> set m" by blast
    with add_protos_entries [of "[]" m] wf False enc show ?thesis
      by (simp add: iset_try_from_def Intervals iset_new_def)
  qed
qed

theorem interval_set_proto_roundtrip_witness:
  "iset_try_from (iset_to_proto (Intervals [([1], Excluded [3]), ([5], Unbounded)])) =
     Some (Inr (Intervals [([1], Excluded [3]), ([5], Unbounded)]))"
  using interval_set_proto_roundtrip [of "Intervals [([1], Excluded [3]), ([5], Unbounded)]"]
  by (simp add: iset_wf_def entries_wf_def)

end
