(* ===== verification/Timestamps.thy ===== *)
theory Timestamps
  imports Prelude
begin

text \<open>
  Timestamps, from \<open>crates/convex/sync_types/src/timestamp.rs\<close> and
  \<open>crates/common/src/types/timestamp.rs\<close>.  A timestamp is a \<open>u64\<close> that the
  constructors keep at or below \<open>i64::MAX\<close>; the bound is the invariant
  \<open>ts_wf\<close>.  A \<open>Duration\<close> is its number of nanoseconds, and \<open>as_nanos() as u64\<close>
  keeps the low 64 bits.
\<close>

section \<open>Timestamps\<close>

type_synonym timestamp = u64
type_synonym i64 = "64 word"

datatype ts_error =
    TsAlreadyMax
  | TsAlreadyMin
  | TsOverflowU64
  | TsOverflowI64
  | TsNotAfterDuration
  | TsNegative
  | TsTooLarge
  | TsBeforeEpoch
  | TsPast2262
  | TsNotPrior
  | TsMissing

definition ts_max :: timestamp where
  "ts_max = 0x7FFFFFFFFFFFFFFF"

definition ts_min :: timestamp where
  "ts_min = 0"

definition succ_opt :: "timestamp \<Rightarrow> timestamp option" where
  "succ_opt ts = (if ts \<ge> ts_max then None else Some (ts + 1))"

definition ts_succ :: "timestamp \<Rightarrow> ts_error + timestamp" where
  "ts_succ ts = (case succ_opt ts of None \<Rightarrow> Inl TsAlreadyMax | Some t \<Rightarrow> Inr t)"

definition pred_opt :: "timestamp \<Rightarrow> timestamp option" where
  "pred_opt ts = (if ts \<le> ts_min then None else Some (ts - 1))"

definition ts_pred :: "timestamp \<Rightarrow> ts_error + timestamp" where
  "ts_pred ts = (case pred_opt ts of None \<Rightarrow> Inl TsAlreadyMin | Some t \<Rightarrow> Inr t)"

definition as_nanos_u64 :: "nat \<Rightarrow> u64" where
  "as_nanos_u64 nanos = word_of_nat nanos"

definition ts_add :: "timestamp \<Rightarrow> nat \<Rightarrow> ts_error + timestamp" where
  "ts_add ts duration =
     (case checked_add ts (as_nanos_u64 duration) of
        None \<Rightarrow> Inl TsOverflowU64
      | Some nanos \<Rightarrow> if nanos \<le> ts_max then Inr nanos else Inl TsOverflowI64)"

definition ts_sub :: "timestamp \<Rightarrow> nat \<Rightarrow> ts_error + timestamp" where
  "ts_sub ts duration =
     (let nanos = as_nanos_u64 duration in
      if ts \<le> nanos then Inl TsNotAfterDuration else Inr (ts - nanos))"

text \<open>\<open>i64\<close> is a 64-bit word read with its sign.\<close>

definition ts_to_i64 :: "timestamp \<Rightarrow> i64" where
  "ts_to_i64 ts = ts"

definition ts_from_i64 :: "i64 \<Rightarrow> ts_error + timestamp" where
  "ts_from_i64 v = (if sint v < 0 then Inl TsNegative else Inr v)"

definition ts_from_u64 :: "u64 \<Rightarrow> ts_error + timestamp" where
  "ts_from_u64 v = (if v > ts_max then Inl TsTooLarge else Inr v)"

text \<open>A \<open>SystemTime\<close> is its signed distance from the epoch in nanoseconds.\<close>

definition ts_from_system_time :: "int \<Rightarrow> ts_error + timestamp" where
  "ts_from_system_time nanos =
     (if nanos < 0 then Inl TsBeforeEpoch
      else if nanos \<ge> 2 ^ 64 then Inl TsPast2262
      else ts_from_u64 (word_of_int nanos))"

definition ts_to_system_time :: "timestamp \<Rightarrow> int" where
  "ts_to_system_time ts = uint ts"

section \<open>Repeatable and write timestamps\<close>

text \<open>A \<open>RepeatableTimestamp\<close> wraps a timestamp; its reason is not stored.\<close>

datatype repeatable_timestamp = Repeatable timestamp

primrec repeatable_ts :: "repeatable_timestamp \<Rightarrow> timestamp" where
  "repeatable_ts (Repeatable ts) = ts"

definition prior_ts :: "repeatable_timestamp \<Rightarrow> timestamp \<Rightarrow> ts_error + repeatable_timestamp" where
  "prior_ts r ts = (if ts \<le> repeatable_ts r then Inr (Repeatable ts) else Inl TsNotPrior)"

definition repeatable_sub :: "repeatable_timestamp \<Rightarrow> nat \<Rightarrow> ts_error + repeatable_timestamp" where
  "repeatable_sub r duration =
     (case ts_sub (repeatable_ts r) duration of Inl e \<Rightarrow> Inl e | Inr ts \<Rightarrow> prior_ts r ts)"

definition repeatable_pred :: "repeatable_timestamp \<Rightarrow> ts_error + repeatable_timestamp" where
  "repeatable_pred r =
     (case ts_pred (repeatable_ts r) of Inl e \<Rightarrow> Inl e | Inr ts \<Rightarrow> prior_ts r ts)"

definition repeatable_to_proto :: "repeatable_timestamp \<Rightarrow> u64 option" where
  "repeatable_to_proto r = Some (repeatable_ts r)"

definition repeatable_from_proto :: "u64 option \<Rightarrow> ts_error + repeatable_timestamp" where
  "repeatable_from_proto p =
     (case p of
        None \<Rightarrow> Inl TsMissing
      | Some v \<Rightarrow> (case ts_from_u64 v of Inl e \<Rightarrow> Inl e | Inr ts \<Rightarrow> Inr (Repeatable ts)))"

datatype write_timestamp = WriteCommitted timestamp | WritePending

text \<open>The derived \<open>Ord\<close>: committed writes by timestamp, then the pending one.\<close>

instantiation write_timestamp :: linorder
begin

definition less_eq_write_timestamp :: "write_timestamp \<Rightarrow> write_timestamp \<Rightarrow> bool" where
  "less_eq_write_timestamp a b =
     (case b of WritePending \<Rightarrow> True
      | WriteCommitted t \<Rightarrow> (case a of WritePending \<Rightarrow> False | WriteCommitted s \<Rightarrow> s \<le> t))"

definition less_write_timestamp :: "write_timestamp \<Rightarrow> write_timestamp \<Rightarrow> bool" where
  "less_write_timestamp a b =
     (case a of WritePending \<Rightarrow> False
      | WriteCommitted s \<Rightarrow> (case b of WritePending \<Rightarrow> True | WriteCommitted t \<Rightarrow> s < t))"

instance
  by standard
     (auto simp: less_eq_write_timestamp_def less_write_timestamp_def split: write_timestamp.splits)

end

section \<open>The bound\<close>

definition ts_wf :: "timestamp \<Rightarrow> bool" where
  "ts_wf ts \<longleftrightarrow> ts \<le> ts_max"

named_theorems ts_defs \<open>definitions of the timestamp operations\<close>

lemmas ts_operations [ts_defs] =
  ts_succ_def succ_opt_def ts_pred_def pred_opt_def ts_add_def ts_sub_def
  ts_from_i64_def ts_from_u64_def

lemma ts_succ_Inr:
  assumes "ts_succ ts = Inr t"
  shows "unat t = unat ts + 1" "ts < t" "ts_wf t" "ts_wf ts"
proof -
  from assms have lt: "ts < ts_max" and t: "t = ts + 1"
    by (auto simp: ts_succ_def succ_opt_def not_le split: if_splits)
  from word_less_succ [OF lt] t show "unat t = unat ts + 1" by simp
  from word_less_succ_gt [OF lt] t show "ts < t" by simp
  from word_succ_le [OF lt] t show "ts_wf t" by (simp add: ts_wf_def)
  from lt show "ts_wf ts" by (simp add: ts_wf_def)
qed

lemma ts_succ_le: "ts_succ a = Inr t \<Longrightarrow> a < b \<Longrightarrow> t \<le> b"
  using ts_succ_Inr(1) [of a t] by (simp add: word_le_nat_alt word_less_nat_alt)

lemma ts_succ_ok: "ts < ts_max \<Longrightarrow> ts_succ ts = Inr (ts + 1)"
  by (simp add: ts_succ_def succ_opt_def)

lemma unat_ts_max: "unat ts_max = 2 ^ 63 - 1"
  by (simp add: ts_max_def)

lemma sint_nonneg_iff: "0 \<le> sint v \<longleftrightarrow> v \<le> ts_max" for v :: i64
proof -
  have "0 \<le> sint v \<longleftrightarrow> \<not> bit v 63"
    by (simp add: not_less [symmetric] bit_last_iff [symmetric])
  also have "\<dots> \<longleftrightarrow> drop_bit 63 v = 0"
    using drop_bit_eq_zero_iff_not_bit_last [of v] by simp
  also have "\<dots> \<longleftrightarrow> unat (drop_bit 63 v) = 0"
    by (simp add: unat_eq_0)
  also have "\<dots> \<longleftrightarrow> unat v < 2 ^ 63"
    by (simp add: drop_bit_eq_div unat_div div_eq_0_iff)
  finally show ?thesis by (simp add: word_le_nat_alt unat_ts_max) linarith
qed

lemma ts_pred_Inr:
  assumes "ts_pred ts = Inr t"
  shows "unat ts = unat t + 1" "t < ts"
proof -
  from assms have gt: "0 < ts" and t: "t = ts - 1"
    by (auto simp: ts_pred_def pred_opt_def ts_min_def word_gt_0 split: if_splits)
  from gt have "unat t = unat ts - 1" "0 < unat ts"
    by (simp_all add: t unat_minus_one word_gt_0 unat_gt_0)
  then show "unat ts = unat t + 1" "t < ts" by (simp_all add: word_less_nat_alt)
qed

section \<open>Properties\<close>



text \<open>
  The conversions agree: a bounded timestamp comes back unchanged from
  \<open>i64\<close>, \<open>u64\<close>, \<open>SystemTime\<close> and the protobuf form, and a conversion from \<open>i64\<close> or
  \<open>u64\<close> that succeeds yields a bounded timestamp.
\<close>

lemma timestamp_conversions:
  "(ts_wf ts \<longrightarrow> ts_from_i64 (ts_to_i64 ts) = Inr ts \<and> ts_from_u64 ts = Inr ts \<and>
      ts_from_system_time (ts_to_system_time ts) = Inr ts \<and>
      repeatable_from_proto (repeatable_to_proto (Repeatable ts)) = Inr (Repeatable ts)) \<and>
   (ts_from_i64 v = Inr t \<longrightarrow> ts_wf t) \<and> (ts_from_u64 v = Inr t \<longrightarrow> ts_wf t)"
proof -
  have "uint ts < 2 ^ 64" using uint_lt2p [of ts] by simp
  then show ?thesis
    using sint_nonneg_iff [of v] sint_nonneg_iff [of ts]
    by (auto simp: ts_from_i64_def ts_to_i64_def ts_from_u64_def ts_wf_def ts_from_system_time_def
        ts_to_system_time_def repeatable_from_proto_def repeatable_to_proto_def split: if_splits)
qed

end
