(* ===== verification/KeyValueStore.thy ===== *)
theory KeyValueStore
  imports Prelude
begin

text \<open>
  The key-value bucket that the cluster's control plane lives in.  The bucket is
  a service outside the repository (\<open>async_nats::jetstream::kv::Store\<close>), so it is
  a parameter: a record of operations on an arbitrary world \<open>'w\<close>.  What the code
  relies on is the predicate \<open>kv_laws\<close>, the documented behaviour of revisions:
  an update is applied only at the revision it names, a create only where there
  is no live value, and every write gets a higher revision.  An operation that
  answers with an error may or may not have been applied.

  \<open>cas_retry\<close> is the loop that the timestamp oracle, the table number allocator
  and the decision log all run: read the entry, compute a new value from it,
  write it back at the revision read, retry on conflict.
\<close>

section \<open>Big-endian bytes\<close>

definition to_be_bytes :: "'w::len word \<Rightarrow> u8 list" where
  "to_be_bytes w = map (\<lambda>i. word_of_nat (unat w div 256 ^ i mod 256)) (rev [0..<LENGTH('w) div 8])"

definition from_be_bytes :: "u8 list \<Rightarrow> 'w::len word option" where
  "from_be_bytes bs =
     (if length bs = LENGTH('w) div 8
      then Some (word_of_nat (foldl (\<lambda>a b. a * 256 + unat b) 0 bs)) else None)"

lemma horner_digits:
  "foldl (\<lambda>a i. a * 256 + x div 256 ^ i mod 256) a (rev [0..<n]) = a * 256 ^ n + x mod 256 ^ n"
  for x a :: nat
proof (induction n arbitrary: a)
  case (Suc n)
  have "x mod 256 ^ Suc n = x mod 256 ^ n + 256 ^ n * (x div 256 ^ n mod 256)"
    using mod_mult2_eq [of x "256 ^ n" 256] by (simp add: mult.commute)
  with Suc show ?case by (simp add: algebra_simps)
qed simp

lemma from_to_be_bytes:
  assumes "8 * (LENGTH('w) div 8) = LENGTH('w)"
  shows "from_be_bytes (to_be_bytes w) = Some (w :: 'w::len word)"
proof -
  let ?n = "LENGTH('w) div 8"
  have "foldl (\<lambda>a b. a * 256 + unat b) 0 (to_be_bytes w)
      = foldl (\<lambda>a i. a * 256 + unat w div 256 ^ i mod 256) 0 (rev [0..<?n])"
    by (simp add: to_be_bytes_def foldl_map unat_of_nat)
  also have "\<dots> = unat w mod 256 ^ ?n" by (simp add: horner_digits)
  also have "(256 :: nat) ^ ?n = 2 ^ LENGTH('w)"
  proof -
    have "(256 :: nat) ^ ?n = (2 ^ 8) ^ ?n" by simp
    also have "\<dots> = 2 ^ (8 * ?n)" by (simp only: power_mult)
    finally show ?thesis by (simp only: assms)
  qed
  also have "unat w mod 2 ^ LENGTH('w) = unat w" by (simp add: unsigned_less)
  finally have "foldl (\<lambda>a b. a * 256 + unat b) 0 (to_be_bytes w) = unat w" .
  then show ?thesis by (simp add: from_be_bytes_def) (simp add: to_be_bytes_def)
qed

lemma from_to_be_bytes_u64 [simp]: "from_be_bytes (to_be_bytes w) = Some (w :: u64)"
  by (rule from_to_be_bytes) simp

lemma from_to_be_bytes_u32 [simp]: "from_be_bytes (to_be_bytes w) = Some (w :: u32)"
  by (rule from_to_be_bytes) simp

section \<open>The bucket\<close>

datatype kv_operation = KvPut | KvDelete | KvPurge

record kv_entry =
  ke_value :: "u8 list"
  ke_revision :: u64
  ke_operation :: kv_operation

datatype kv_error = WrongLastRevision | KvOther

record 'w kv_store =
  kv_entry_op :: "string \<Rightarrow> 'w \<Rightarrow> (kv_error + kv_entry option) \<times> 'w"
  kv_create_op :: "string \<Rightarrow> u8 list \<Rightarrow> 'w \<Rightarrow> (kv_error + u64) \<times> 'w"
  kv_update_op :: "string \<Rightarrow> u8 list \<Rightarrow> u64 \<Rightarrow> 'w \<Rightarrow> (kv_error + u64) \<times> 'w"
  kv_delete_op :: "string \<Rightarrow> 'w \<Rightarrow> (kv_error + unit) \<times> 'w"

type_synonym kv_view = "string \<Rightarrow> kv_entry option"

text \<open>A live entry is one whose last operation was a put.\<close>

definition kv_live :: "kv_view \<Rightarrow> string \<Rightarrow> bool" where
  "kv_live v k \<longleftrightarrow> (\<exists>e. v k = Some e \<and> ke_operation e = KvPut)"

text \<open>
  \<open>kv_write v k bytes v'\<close>: the view after a put of \<open>bytes\<close> under \<open>k\<close>, at a
  revision above the one the key had.
\<close>

definition kv_written :: "kv_view \<Rightarrow> string \<Rightarrow> u8 list \<Rightarrow> kv_operation \<Rightarrow> kv_view \<Rightarrow> bool" where
  "kv_written v k bytes oper v' \<longleftrightarrow>
     (\<exists>rev. v' = v(k \<mapsto> \<lparr>ke_value = bytes, ke_revision = rev, ke_operation = oper\<rparr>) \<and>
            (\<forall>e. v k = Some e \<longrightarrow> ke_revision e < rev))"

definition kv_laws :: "('w \<Rightarrow> kv_view) \<Rightarrow> 'w kv_store \<Rightarrow> bool" where
  "kv_laws view kv \<longleftrightarrow>
     (\<forall>k w r w'. kv_entry_op kv k w = (r, w') \<longrightarrow>
        view w' = view w \<and> (\<forall>e. r = Inr e \<longrightarrow> e = view w k)) \<and>
     (\<forall>k b w r w'. kv_create_op kv k b w = (r, w') \<longrightarrow>
        (\<not> kv_live (view w) k \<and> kv_written (view w) k b KvPut (view w')) \<or>
        (view w' = view w \<and> \<not> is_ok r)) \<and>
     (\<forall>k b rev w r w'. kv_update_op kv k b rev w = (r, w') \<longrightarrow>
        ((\<exists>e. view w k = Some e \<and> ke_revision e = rev) \<and>
           kv_written (view w) k b KvPut (view w') \<and> r \<noteq> Inl WrongLastRevision) \<or>
        (view w' = view w \<and> \<not> is_ok r)) \<and>
     (\<forall>k w r w'. kv_delete_op kv k w = (r, w') \<longrightarrow>
        kv_written (view w) k [] KvDelete (view w') \<or> (view w' = view w \<and> \<not> is_ok r))"

text \<open>
  A bucket that answers, in the worlds \<open>up\<close>: reads succeed and leave the bucket
  up, updates at the current revision succeed, and so do creates where there is
  no live value.
\<close>

definition kv_available :: "('w \<Rightarrow> kv_view) \<Rightarrow> ('w \<Rightarrow> bool) \<Rightarrow> 'w kv_store \<Rightarrow> bool" where
  "kv_available view up kv \<longleftrightarrow>
     (\<forall>w. up w \<longrightarrow>
        (\<forall>k. is_ok (fst (kv_entry_op kv k w)) \<and> up (snd (kv_entry_op kv k w))) \<and>
        (\<forall>k b e. view w k = Some e \<longrightarrow> is_ok (fst (kv_update_op kv k b (ke_revision e) w))) \<and>
        (\<forall>k b. \<not> kv_live (view w) k \<longrightarrow> is_ok (fst (kv_create_op kv k b w))))"

section \<open>Read, compute, compare and swap\<close>

text \<open>
  \<open>compute\<close> looks at the entry read (and at the world, for its clock) and either ends the loop with a result
  (\<open>Inl\<close>) or asks for bytes to be written at a revision, with the value to return
  if the write succeeds.  \<open>fatal\<close> turns an update error into a final error, or
  \<open>None\<close> for another attempt.
\<close>

fun cas_retry ::
  "nat \<Rightarrow> 'w kv_store \<Rightarrow> string \<Rightarrow> 'e \<Rightarrow> 'e \<Rightarrow> (kv_error \<Rightarrow> 'e option) \<Rightarrow>
   ('w \<Rightarrow> kv_entry option \<Rightarrow> ('e + 'r) + u8 list \<times> u64 \<times> 'r) \<Rightarrow> 'w \<Rightarrow> ('e + 'r) \<times> 'w" where
  "cas_retry 0 kv key read_err exhausted fatal compute w = (Inl exhausted, w)"
| "cas_retry (Suc n) kv key read_err exhausted fatal compute w =
     (case kv_entry_op kv key w of
        (Inl _, w1) \<Rightarrow> (Inl read_err, w1)
      | (Inr entry, w1) \<Rightarrow>
          (case compute w1 entry of
             Inl res \<Rightarrow> (res, w1)
           | Inr (bytes, revn, r) \<Rightarrow>
               (case kv_update_op kv key bytes revn w1 of
                  (Inr _, w2) \<Rightarrow> (Inr r, w2)
                | (Inl e, w2) \<Rightarrow>
                    (case fatal e of
                       Some e' \<Rightarrow> (Inl e', w2)
                     | None \<Rightarrow> cas_retry n kv key read_err exhausted fatal compute w2))))"

text \<open>Whatever the bucket does, a result comes from one computation.\<close>

lemma cas_retry_Inr:
  assumes "cas_retry n kv key re ex fatal compute w = (Inr r, w')"
  shows "\<exists>w1 entry. compute w1 entry = Inl (Inr r) \<or> (\<exists>bytes revn. compute w1 entry = Inr (bytes, revn, r))"
  using assms
proof (induction n arbitrary: w)
  case (Suc n)
  then show ?case
    by (auto split: prod.splits sum.splits option.splits)
qed simp

text \<open>
  An available bucket ends the loop in one attempt, as long as \<open>compute\<close> asks
  for a write at the revision it read.
\<close>

lemma kv_entry_available:
  assumes "kv_laws view kv" "kv_available view up kv" "up w"
  shows "\<exists>w'. kv_entry_op kv key w = (Inr (view w key), w') \<and> view w' = view w \<and> up w'"
proof -
  obtain ro w1 where ent: "kv_entry_op kv key w = (ro, w1)" by (cases "kv_entry_op kv key w")
  with assms(2,3) have "is_ok ro" "up w1" unfolding kv_available_def by (metis fst_conv snd_conv)+
  then obtain x where x: "ro = Inr x" by (cases ro) auto
  from assms(1) ent have "view w1 = view w \<and> (\<forall>e. ro = Inr e \<longrightarrow> e = view w key)"
    unfolding kv_laws_def by blast
  with ent x \<open>up w1\<close> show ?thesis by simp
qed

lemma kv_update_available:
  assumes "kv_laws view kv" "kv_available view up kv" "up w" "view w key = Some e"
  shows "\<exists>x w'. kv_update_op kv key bytes (ke_revision e) w = (Inr x, w') \<and>
    kv_written (view w) key bytes KvPut (view w')"
proof -
  obtain ru w1 where upd: "kv_update_op kv key bytes (ke_revision e) w = (ru, w1)"
    by (cases "kv_update_op kv key bytes (ke_revision e) w")
  with assms(2-4) have ok: "is_ok ru" unfolding kv_available_def by (metis fst_conv)
  then obtain x where x: "ru = Inr x" by (cases ru) auto
  from assms(1) upd ok have "kv_written (view w) key bytes KvPut (view w1)"
    unfolding kv_laws_def by blast
  with upd x show ?thesis by simp
qed

lemma cas_retry_available:
  assumes laws: "kv_laws view kv" and avail: "kv_available view up kv" and up: "up w"
    and comp: "\<And>w1. compute w1 (Some e) = Inr (bytes, ke_revision e, r)"
    and e: "view w key = Some e"
  shows "\<exists>w'. cas_retry (Suc n) kv key re ex fatal compute w = (Inr r, w') \<and>
     kv_written (view w) key bytes KvPut (view w')"
proof -
  from kv_entry_available [OF laws avail up] obtain w1 where
    w1: "kv_entry_op kv key w = (Inr (Some e), w1)" "view w1 = view w" "up w1" by (metis e)
  from kv_update_available [OF laws avail w1(3), of key e bytes] e w1(2)
  obtain x w2 where "kv_update_op kv key bytes (ke_revision e) w1 = (Inr x, w2)"
    "kv_written (view w) key bytes KvPut (view w2)" by auto
  with w1 comp show ?thesis by simp
qed

section \<open>A bucket in memory\<close>

text \<open>One bucket that satisfies the laws, for the witnesses: a map and its last revision.\<close>

type_synonym mem_bucket = "(string \<times> kv_entry) list \<times> u64"

definition mem_view :: "mem_bucket \<Rightarrow> kv_view" where
  "mem_view b = map_of (fst b)"

definition mem_live :: "mem_bucket \<Rightarrow> string \<Rightarrow> bool" where
  "mem_live s k = (case mem_view s k of None \<Rightarrow> False | Some e \<Rightarrow> ke_operation e = KvPut)"

text \<open>A bucket that has used its last revision refuses every write.\<close>

definition mem_put :: "string \<Rightarrow> u8 list \<Rightarrow> kv_operation \<Rightarrow> mem_bucket \<Rightarrow> (kv_error + u64) \<times> mem_bucket" where
  "mem_put k b oper s =
     (let revn = snd s + 1 in
      if (case mem_view s k of None \<Rightarrow> True | Some e \<Rightarrow> ke_revision e < revn)
      then (Inr revn, ((k, \<lparr>ke_value = b, ke_revision = revn, ke_operation = oper\<rparr>) # fst s, revn))
      else (Inl KvOther, s))"

definition mem_kv :: "mem_bucket kv_store" where
  "mem_kv = \<lparr>
     kv_entry_op = (\<lambda>k s. (Inr (mem_view s k), s)),
     kv_create_op = (\<lambda>k b s. if mem_live s k then (Inl KvOther, s) else mem_put k b KvPut s),
     kv_update_op = (\<lambda>k b revn s.
       case mem_view s k of
         None \<Rightarrow> (Inl WrongLastRevision, s)
       | Some e \<Rightarrow> if ke_revision e = revn then mem_put k b KvPut s else (Inl WrongLastRevision, s)),
     kv_delete_op = (\<lambda>k s. case mem_put k [] KvDelete s of (Inl e, s') \<Rightarrow> (Inl e, s') | (Inr _, s') \<Rightarrow> (Inr (), s'))\<rparr>"

text \<open>The bucket is up while a fresh revision is above all those it holds.\<close>

definition mem_up :: "mem_bucket \<Rightarrow> bool" where
  "mem_up s \<longleftrightarrow> (\<forall>p \<in> set (fst s). ke_revision (snd p) < snd s + 1)"

lemma mem_live_iff: "mem_live s k \<longleftrightarrow> kv_live (mem_view s) k"
  by (auto simp: mem_live_def kv_live_def split: option.splits)

lemma mem_put_written:
  "mem_put k b oper s = (Inr x, s') \<Longrightarrow> kv_written (mem_view s) k b oper (mem_view s')"
  "mem_put k b oper s = (Inl e, s') \<Longrightarrow> s' = s"
  by (auto simp: mem_put_def Let_def kv_written_def mem_view_def fun_eq_iff
      split: if_splits option.splits)

lemma mem_put_error: "mem_put k b oper s = (r, s') \<Longrightarrow> r \<noteq> Inl WrongLastRevision"
  by (auto simp: mem_put_def Let_def split: if_splits)

lemma mem_kv_laws: "kv_laws mem_view mem_kv"
  unfolding kv_laws_def
proof (intro conjI allI impI)
  fix k b s r s'
  assume "kv_create_op mem_kv k b s = (r, s')"
  then show "\<not> kv_live (mem_view s) k \<and> kv_written (mem_view s) k b KvPut (mem_view s') \<or>
      mem_view s' = mem_view s \<and> \<not> is_ok r"
    by (cases r) (auto simp: mem_kv_def mem_live_iff dest: mem_put_written split: if_splits)
next
  fix k b revn s r s'
  assume "kv_update_op mem_kv k b revn s = (r, s')"
  then show "(\<exists>e. mem_view s k = Some e \<and> ke_revision e = revn) \<and>
      kv_written (mem_view s) k b KvPut (mem_view s') \<and> r \<noteq> Inl WrongLastRevision \<or>
      mem_view s' = mem_view s \<and> \<not> is_ok r"
    by (cases r) (auto simp: mem_kv_def dest: mem_put_written split: if_splits option.splits)
next
  fix k s r s'
  assume "kv_delete_op mem_kv k s = (r, s')"
  then show "kv_written (mem_view s) k [] KvDelete (mem_view s') \<or> mem_view s' = mem_view s \<and> \<not> is_ok r"
    by (auto simp: mem_kv_def dest: mem_put_written split: prod.splits sum.splits)
qed (auto simp: mem_kv_def)

lemma mem_kv_available: "kv_available mem_view mem_up mem_kv"
proof -
  have "is_ok (fst (mem_put k b oper s))" if "mem_up s" for k b oper s
    using that by (auto simp: mem_put_def Let_def mem_up_def mem_view_def dest!: map_of_SomeD
        split: option.splits)
  then show ?thesis
    by (auto simp: kv_available_def mem_kv_def mem_live_iff)
qed

text \<open>A bucket as part of a larger world, whose other part it leaves alone.\<close>

definition lift_kv :: "'s kv_store \<Rightarrow> ('a \<times> 's) kv_store" where
  "lift_kv kv = \<lparr>
     kv_entry_op = (\<lambda>k w. let (r, s) = kv_entry_op kv k (snd w) in (r, (fst w, s))),
     kv_create_op = (\<lambda>k b w. let (r, s) = kv_create_op kv k b (snd w) in (r, (fst w, s))),
     kv_update_op = (\<lambda>k b revn w. let (r, s) = kv_update_op kv k b revn (snd w) in (r, (fst w, s))),
     kv_delete_op = (\<lambda>k w. let (r, s) = kv_delete_op kv k (snd w) in (r, (fst w, s)))\<rparr>"

lemma lift_kv_laws: "kv_laws view kv \<Longrightarrow> kv_laws (view \<circ> snd) (lift_kv kv)"
  by (simp add: kv_laws_def lift_kv_def Let_def case_prod_unfold prod_eq_iff)

lemma lift_kv_available: "kv_available view up kv \<Longrightarrow> kv_available (view \<circ> snd) (up \<circ> snd) (lift_kv kv)"
  by (simp add: kv_available_def lift_kv_def Let_def case_prod_unfold)

end
