(* ===== verification/TimestampOracle.thy ===== *)
theory TimestampOracle
  imports Timestamps KeyValueStore
begin

text \<open>
  The timestamp oracles, from \<open>crates/database/src/timestamp_oracle.rs\<close>: the
  single-node oracle, and the oracle that reserves ranges of timestamps from a
  shared counter.  The batch oracle's mutex-protected state may be changed by
  other tasks of the node whenever a call awaits the bucket; so the bucket's
  operations act on the pair of that state and the rest of the world.
\<close>

section \<open>The local oracle\<close>

datatype tso_error =
    TsoTimestamp ts_error
  | TsoReadFailed
  | TsoCounterMissing
  | TsoInvalidValue
  | TsoUpperBoundOverflow
  | TsoReserveExhausted
  | TsoAdvanceExhausted

record local_state =
  last_assigned :: timestamp
  local_max_committed :: timestamp

definition local_oracle_new :: local_state where
  "local_oracle_new = \<lparr>last_assigned = ts_min, local_max_committed = ts_min\<rparr>"

text \<open>\<open>system_ts\<close> is the answer of \<open>runtime.generate_timestamp()\<close>.\<close>

definition local_next_ts_at_or_after ::
  "ts_error + timestamp \<Rightarrow> local_state \<Rightarrow> timestamp \<Rightarrow> (ts_error + timestamp) \<times> local_state" where
  "local_next_ts_at_or_after system_ts st min_ts =
     (case system_ts of
        Inl e \<Rightarrow> (Inl e, st)
      | Inr sys \<Rightarrow>
          (case ts_succ (last_assigned st) of
             Inl e \<Rightarrow> (Inl e, st)
           | Inr a \<Rightarrow>
               (case ts_succ (local_max_committed st) of
                  Inl e \<Rightarrow> (Inl e, st)
                | Inr c \<Rightarrow>
                    let next = max (max sys min_ts) (max a c)
                    in (Inr next, st\<lparr>last_assigned := next\<rparr>))))"

definition local_try_next_ts_at_or_after ::
  "ts_error + timestamp \<Rightarrow> local_state \<Rightarrow> timestamp \<Rightarrow> (ts_error + timestamp option) \<times> local_state" where
  "local_try_next_ts_at_or_after system_ts st min_ts =
     (case system_ts of
        Inl e \<Rightarrow> (Inl e, st)
      | Inr sys \<Rightarrow>
          (case ts_succ (last_assigned st) of
             Inl e \<Rightarrow> (Inl e, st)
           | Inr a \<Rightarrow>
               (case ts_succ (local_max_committed st) of
                  Inl e \<Rightarrow> (Inl e, st)
                | Inr c \<Rightarrow>
                    let next = max (max sys min_ts) (max a c)
                    in (Inr (Some next), st\<lparr>last_assigned := next\<rparr>))))"

definition local_observe_committed_ts :: "local_state \<Rightarrow> timestamp \<Rightarrow> local_state" where
  "local_observe_committed_ts st ts =
     (if ts > local_max_committed st then st\<lparr>local_max_committed := ts\<rparr> else st)"

section \<open>The batch oracle: state and pure steps\<close>

record batch_state =
  current :: u64
  upper_bound :: u64
  max_committed :: timestamp
  refresh_floor :: bool
  reservation_epoch :: u64

definition tso_counter_key :: string where "tso_counter_key = ''tso_counter''"
definition tso_max_committed_key :: string where "tso_max_committed_key = ''tso_max_committed''"
definition default_batch_size :: u64 where "default_batch_size = 1000"

definition batch_state_new :: batch_state where
  "batch_state_new = \<lparr>current = 0, upper_bound = 0, max_committed = ts_min,
     refresh_floor = False, reservation_epoch = 0\<rparr>"

definition next_ts_from_reserved_batch :: "u64 \<Rightarrow> u64 \<Rightarrow> u64 \<Rightarrow> (u64 \<times> u64) option" where
  "next_ts_from_reserved_batch cur upper min_next =
     (let candidate = max cur min_next in
      if candidate < upper then Some (candidate, candidate + 1) else None)"

definition batch_lower_bound :: "u64 \<Rightarrow> u64 \<Rightarrow> u64" where
  "batch_lower_bound counter_value min_next = max counter_value min_next"

definition reserved_batch_can_satisfy_local_floor :: "u64 \<Rightarrow> u64 \<Rightarrow> u64 \<Rightarrow> bool" where
  "reserved_batch_can_satisfy_local_floor cur upper local_min_next =
     (next_ts_from_reserved_batch cur upper local_min_next \<noteq> None)"

definition local_min_next_from_floor :: "timestamp \<Rightarrow> timestamp \<Rightarrow> tso_error + u64" where
  "local_min_next_from_floor min_ts committed =
     (case ts_succ committed of Inl e \<Rightarrow> Inl (TsoTimestamp e) | Inr s \<Rightarrow> Inr (max min_ts s))"

definition discard_batch_state_for_leadership_change :: "batch_state \<Rightarrow> batch_state" where
  "discard_batch_state_for_leadership_change st =
     st\<lparr>current := 0, upper_bound := 0, refresh_floor := True,
        reservation_epoch := reservation_epoch st + 1\<rparr>"

definition refresh_committed_floor :: "batch_state \<Rightarrow> timestamp \<Rightarrow> batch_state" where
  "refresh_committed_floor st committed_floor =
     (if committed_floor > max_committed st
      then st\<lparr>max_committed := committed_floor, refresh_floor := False\<rparr>
      else st\<lparr>refresh_floor := False\<rparr>)"

definition observe_committed_ts :: "batch_state \<Rightarrow> timestamp \<Rightarrow> batch_state" where
  "observe_committed_ts st ts =
     (if ts > max_committed st then st\<lparr>max_committed := ts\<rparr> else st)"

definition try_assign_from_reserved_batch ::
  "batch_state \<Rightarrow> timestamp \<Rightarrow> (tso_error + timestamp option) \<times> batch_state" where
  "try_assign_from_reserved_batch st min_ts =
     (if refresh_floor st then (Inr None, st)
      else case local_min_next_from_floor min_ts (max_committed st) of
             Inl e \<Rightarrow> (Inl e, st)
           | Inr min_next \<Rightarrow>
               (case next_ts_from_reserved_batch (current st) (upper_bound st) min_next of
                  None \<Rightarrow> (Inr None, st)
                | Some (ts, next_current) \<Rightarrow>
                    (case ts_from_u64 ts of
                       Inl e \<Rightarrow> (Inl (TsoTimestamp e), st\<lparr>current := next_current\<rparr>)
                     | Inr t \<Rightarrow> (Inr (Some t), st\<lparr>current := next_current\<rparr>))))"

definition try_assignable_from_reserved_batch :: "batch_state \<Rightarrow> timestamp \<Rightarrow> tso_error + bool" where
  "try_assignable_from_reserved_batch st min_ts =
     (if refresh_floor st then Inr False
      else case local_min_next_from_floor min_ts (max_committed st) of
             Inl e \<Rightarrow> Inl e
           | Inr min_next \<Rightarrow>
               Inr (reserved_batch_can_satisfy_local_floor (current st) (upper_bound st) min_next))"

section \<open>The batch oracle: calls\<close>

type_synonym 's tso_world = "batch_state \<times> 's"

text \<open>\<open>connect\<close>: create the counter if it is not there; either answer is fine.\<close>

definition tso_connect :: "'s kv_store \<Rightarrow> u64 \<Rightarrow> 's \<Rightarrow> batch_state \<times> 's" where
  "tso_connect kv initial_ts s =
     (batch_state_new, snd (kv_create_op kv tso_counter_key (to_be_bytes initial_ts) s))"

definition tso_batch_size :: "u64 option \<Rightarrow> u64" where
  "tso_batch_size configured = (case configured of Some n \<Rightarrow> n | None \<Rightarrow> default_batch_size)"

text \<open>One attempt at the counter: the range to reserve and the value to swap in.\<close>

definition reserve_compute ::
  "u64 \<Rightarrow> u64 \<Rightarrow> kv_entry option \<Rightarrow> (tso_error + u64 \<times> u64) + u8 list \<times> u64 \<times> u64 \<times> u64" where
  "reserve_compute batch_size min_next entry =
     (case entry of
        None \<Rightarrow> Inl (Inl TsoCounterMissing)
      | Some e \<Rightarrow>
          (case from_be_bytes (ke_value e) of
             None \<Rightarrow> Inl (Inl TsoInvalidValue)
           | Some current_value \<Rightarrow>
               let new_lower = batch_lower_bound current_value min_next in
               (case checked_add new_lower batch_size of
                  None \<Rightarrow> Inl (Inl TsoUpperBoundOverflow)
                | Some new_upper \<Rightarrow>
                    Inr (to_be_bytes new_upper, ke_revision e, new_lower, new_upper))))"

definition reserve_batch_at_or_above ::
  "'w kv_store \<Rightarrow> u64 \<Rightarrow> u64 \<Rightarrow> 'w \<Rightarrow> (tso_error + u64 \<times> u64) \<times> 'w" where
  "reserve_batch_at_or_above kv batch_size min_next w =
     cas_retry 10 kv tso_counter_key TsoReadFailed TsoReserveExhausted (\<lambda>_. None)
       (\<lambda>_. reserve_compute batch_size min_next) w"

definition committed_floor_of :: "kv_entry option \<Rightarrow> tso_error + timestamp" where
  "committed_floor_of entry =
     (case entry of
        None \<Rightarrow> Inr ts_min
      | Some e \<Rightarrow>
          (case from_be_bytes (ke_value e) of
             None \<Rightarrow> Inl TsoInvalidValue
           | Some v \<Rightarrow>
               (case ts_from_u64 v of Inl e \<Rightarrow> Inl (TsoTimestamp e) | Inr ts \<Rightarrow> Inr ts)))"

definition max_committed_ts :: "'w kv_store \<Rightarrow> 'w \<Rightarrow> (tso_error + timestamp) \<times> 'w" where
  "max_committed_ts kv w =
     (case kv_entry_op kv tso_max_committed_key w of
        (Inl _, w1) \<Rightarrow> (Inl TsoReadFailed, w1)
      | (Inr entry, w1) \<Rightarrow> (committed_floor_of entry, w1))"

text \<open>The critical section after the floor is read: done, or what to reserve.\<close>

definition plan_reservation ::
  "batch_state \<Rightarrow> timestamp \<Rightarrow> timestamp \<Rightarrow> (tso_error + (u64 \<times> u64) option) \<times> batch_state" where
  "plan_reservation st min_ts floor_ts =
     (let st' = refresh_committed_floor st floor_ts in
      (case local_min_next_from_floor min_ts (max_committed st') of
         Inl e \<Rightarrow> Inl e
       | Inr min_next \<Rightarrow>
           if reserved_batch_can_satisfy_local_floor (current st') (upper_bound st') min_next
           then Inr None
           else Inr (Some (min_next, reservation_epoch st')),
       st'))"

text \<open>The critical section after a range is reserved; \<open>None\<close> is a stale epoch.\<close>

definition install_reservation :: "batch_state \<Rightarrow> u64 \<Rightarrow> u64 \<Rightarrow> u64 \<Rightarrow> batch_state option" where
  "install_reservation st epoch lower upper =
     (if reservation_epoch st \<noteq> epoch then None
      else Some (st\<lparr>current := lower, upper_bound := upper\<rparr>))"

partial_function (option) ensure_reserved_batch_at_or_above ::
  "'s tso_world kv_store \<Rightarrow> u64 \<Rightarrow> timestamp \<Rightarrow> 's tso_world \<Rightarrow>
   ((tso_error + unit) \<times> 's tso_world) option" where
  "ensure_reserved_batch_at_or_above kv batch_size min_ts w =
     (case try_assignable_from_reserved_batch (fst w) min_ts of
        Inl e \<Rightarrow> Some (Inl e, w)
      | Inr assignable \<Rightarrow>
          if assignable then Some (Inr (), w)
          else
            (case max_committed_ts kv w of
               (Inl e, w1) \<Rightarrow> Some (Inl e, w1)
             | (Inr committed_floor, w1) \<Rightarrow>
                 (case plan_reservation (fst w1) min_ts committed_floor of
                    (Inl e, st) \<Rightarrow> Some (Inl e, (st, snd w1))
                  | (Inr None, st) \<Rightarrow> Some (Inr (), (st, snd w1))
                  | (Inr (Some (min_next, epoch)), st) \<Rightarrow>
                      (case reserve_batch_at_or_above kv batch_size min_next (st, snd w1) of
                         (Inl e, w2) \<Rightarrow> Some (Inl e, w2)
                       | (Inr (lower, upper), w2) \<Rightarrow>
                           (case install_reservation (fst w2) epoch lower upper of
                              None \<Rightarrow> ensure_reserved_batch_at_or_above kv batch_size min_ts w2
                            | Some st' \<Rightarrow> Some (Inr (), (st', snd w2)))))))"

partial_function (option) next_ts_at_or_after ::
  "'s tso_world kv_store \<Rightarrow> u64 \<Rightarrow> timestamp \<Rightarrow> 's tso_world \<Rightarrow>
   ((tso_error + timestamp) \<times> 's tso_world) option" where
  "next_ts_at_or_after kv batch_size min_ts w =
     (case try_assign_from_reserved_batch (fst w) min_ts of
        (Inl e, st) \<Rightarrow> Some (Inl e, (st, snd w))
      | (Inr (Some ts), st) \<Rightarrow> Some (Inr ts, (st, snd w))
      | (Inr None, st) \<Rightarrow>
          (case ensure_reserved_batch_at_or_above kv batch_size min_ts (st, snd w) of
             None \<Rightarrow> None
           | Some (Inl e, w1) \<Rightarrow> Some (Inl e, w1)
           | Some (Inr _, w1) \<Rightarrow> next_ts_at_or_after kv batch_size min_ts w1))"

definition discard_reserved_batch :: "batch_state \<Rightarrow> batch_state" where
  "discard_reserved_batch st = discard_batch_state_for_leadership_change st"

text \<open>\<open>advance_committed_ts\<close>: raise the shared floor, creating it when it is absent.\<close>

fun advance_attempts ::
  "nat \<Rightarrow> 'w kv_store \<Rightarrow> u64 \<Rightarrow> 'w \<Rightarrow> (tso_error + unit) \<times> 'w" where
  "advance_attempts 0 kv ts w = (Inl TsoAdvanceExhausted, w)"
| "advance_attempts (Suc n) kv ts w =
     (case kv_entry_op kv tso_max_committed_key w of
        (Inl _, w1) \<Rightarrow> (Inl TsoReadFailed, w1)
      | (Inr (Some e), w1) \<Rightarrow>
          (case from_be_bytes (ke_value e) of
             None \<Rightarrow> (Inl TsoInvalidValue, w1)
           | Some cur \<Rightarrow>
               if cur \<ge> ts then (Inr (), w1)
               else
                 (case kv_update_op kv tso_max_committed_key (to_be_bytes ts) (ke_revision e) w1 of
                    (Inr _, w2) \<Rightarrow> (Inr (), w2)
                  | (Inl _, w2) \<Rightarrow> advance_attempts n kv ts w2))
      | (Inr None, w1) \<Rightarrow>
          (case kv_create_op kv tso_max_committed_key (to_be_bytes ts) w1 of
             (Inr _, w2) \<Rightarrow> (Inr (), w2)
           | (Inl _, w2) \<Rightarrow> advance_attempts n kv ts w2))"

definition advance_committed_ts ::
  "'s tso_world kv_store \<Rightarrow> timestamp \<Rightarrow> 's tso_world \<Rightarrow> (tso_error + unit) \<times> 's tso_world" where
  "advance_committed_ts kv ts w =
     advance_attempts 10 kv ts (observe_committed_ts (fst w) ts, snd w)"

section \<open>One assignment\<close>

lemma next_ts_from_reserved_batch_Some:
  assumes "next_ts_from_reserved_batch cur upper min_next = Some (c, n)"
  shows "c = max cur min_next" "c < upper" "n = c + 1" "unat n = unat c + 1" "n \<le> upper"
proof -
  from assms show c: "c = max cur min_next" "c < upper" "n = c + 1"
    by (auto simp: next_ts_from_reserved_batch_def Let_def split: if_splits)
  from word_less_succ [OF c(2)] c(3) show "unat n = unat c + 1" by simp
  from word_succ_le [OF c(2)] c(3) show "n \<le> upper" by simp
qed

lemma local_min_next_Inr:
  assumes "local_min_next_from_floor min_ts committed = Inr m"
  shows "min_ts \<le> m" "committed < m"
proof -
  from assms obtain s where "ts_succ committed = Inr s" "m = max min_ts s"
    by (auto simp: local_min_next_from_floor_def split: sum.splits)
  with ts_succ_Inr(2) show "min_ts \<le> m" "committed < m" by (auto simp: less_max_iff_disj)
qed

lemma try_assign_Some:
  assumes "try_assign_from_reserved_batch st min_ts = (Inr (Some ts), st')"
  shows "min_ts \<le> ts" "max_committed st < ts" "current st \<le> ts" "ts < upper_bound st"
    "st' = st\<lparr>current := ts + 1\<rparr>" "unat (ts + 1) = unat ts + 1" "ts_wf ts" "\<not> refresh_floor st"
proof -
  from assms obtain m n where m: "local_min_next_from_floor min_ts (max_committed st) = Inr m"
    and n: "next_ts_from_reserved_batch (current st) (upper_bound st) m = Some (ts, n)"
    and st': "st' = st\<lparr>current := n\<rparr>" and wf: "ts_wf ts" and fl: "\<not> refresh_floor st"
    by (auto simp: try_assign_from_reserved_batch_def ts_from_u64_def ts_wf_def not_less
        split: if_splits sum.splits option.splits prod.splits)
  note nx = next_ts_from_reserved_batch_Some [OF n]
  from nx(1) have "current st \<le> ts" "m \<le> ts" by simp_all
  with local_min_next_Inr [OF m] show "min_ts \<le> ts" "max_committed st < ts" "current st \<le> ts"
    by order+
  from nx st' wf fl show "ts < upper_bound st" "st' = st\<lparr>current := ts + 1\<rparr>"
    "unat (ts + 1) = unat ts + 1" "ts_wf ts" "\<not> refresh_floor st" by simp_all
qed

lemma try_assign_other:
  assumes "try_assign_from_reserved_batch st min_ts = (r, st')" "\<And>ts. r \<noteq> Inr (Some ts)"
  shows "st' = st \<or> (\<exists>c. st' = st\<lparr>current := c\<rparr> \<and> current st < c \<and> c \<le> upper_bound st)"
proof (cases "st' = st")
  case False
  with assms obtain m ts n where
    n: "next_ts_from_reserved_batch (current st) (upper_bound st) m = Some (ts, n)"
    and st': "st' = st\<lparr>current := n\<rparr>"
    by (auto simp: try_assign_from_reserved_batch_def
        split: if_splits sum.splits option.splits prod.splits)
  note nx = next_ts_from_reserved_batch_Some [OF n]
  have "current st < n" using nx(1,4) by (simp add: word_less_nat_alt max_def word_le_nat_alt split: if_splits)
  with nx st' show ?thesis by blast
qed simp

text \<open>The assignability test answers exactly whether the assignment would find a candidate.\<close>

lemma try_assignable_iff:
  "try_assignable_from_reserved_batch st min_ts = Inr False \<longleftrightarrow>
   try_assign_from_reserved_batch st min_ts = (Inr None, st)"
  by (auto simp: try_assignable_from_reserved_batch_def try_assign_from_reserved_batch_def
      reserved_batch_can_satisfy_local_floor_def split: sum.splits option.splits if_splits)

section \<open>What a node may rely on\<close>

text \<open>
  The contract of \<open>TimestampOracle\<close> inside one node: assignments respect the
  caller's floor and the committed floor, and the state remembers a bound below
  which nothing is assigned again.  An oracle answers a sequence of calls; the
  clients' lemmas are about the timestamps issued along such a sequence.
\<close>

datatype 'c oracle_call = Assign 'c timestamp | Observe timestamp

primrec oracle_run ::
  "('c \<Rightarrow> 'st \<Rightarrow> timestamp \<Rightarrow> ('e + timestamp option) \<times> 'st) \<Rightarrow> ('st \<Rightarrow> timestamp \<Rightarrow> 'st) \<Rightarrow>
   'c oracle_call list \<Rightarrow> 'st \<Rightarrow> timestamp list \<times> 'st" where
  "oracle_run assign observe [] st = ([], st)"
| "oracle_run assign observe (c # cs) st =
     (case c of
        Observe ts \<Rightarrow> oracle_run assign observe cs (observe st ts)
      | Assign x min_ts \<Rightarrow>
          (case assign x st min_ts of
             (Inr (Some ts), st') \<Rightarrow>
               (let (issued, st'') = oracle_run assign observe cs st' in (ts # issued, st''))
           | (_, st') \<Rightarrow> oracle_run assign observe cs st'))"

locale node_oracle =
  fixes assign :: "'c \<Rightarrow> 'st \<Rightarrow> timestamp \<Rightarrow> ('e + timestamp option) \<times> 'st"
    and observe :: "'st \<Rightarrow> timestamp \<Rightarrow> 'st"
    and committed :: "'st \<Rightarrow> timestamp"
    and next_free :: "'st \<Rightarrow> nat"
  assumes assign_Some: "assign x st min_ts = (Inr (Some ts), st') \<Longrightarrow>
      min_ts \<le> ts \<and> committed st < ts \<and> next_free st \<le> unat ts \<and> unat ts < next_free st'"
    and assign_committed: "assign x st min_ts = (r, st') \<Longrightarrow> committed st' = committed st"
    and assign_next_free: "assign x st min_ts = (r, st') \<Longrightarrow> next_free st \<le> next_free st'"
    and observe_committed: "committed (observe st ts) = max (committed st) ts"
    and observe_next_free: "next_free (observe st ts) = next_free st"
begin

lemma run_bounds:
  "oracle_run assign observe cs st = (issued, st') \<Longrightarrow>
     (\<forall>ts \<in> set issued. next_free st \<le> unat ts \<and> committed st < ts) \<and> sorted_wrt (<) issued"
proof (induction cs arbitrary: st issued st')
  case (Cons c cs)
  show ?case
  proof (cases c)
    case (Observe ts)
    with Cons.prems Cons.IH [of "observe st ts" issued st'] show ?thesis
      by (auto simp: observe_committed observe_next_free)
  next
    case (Assign x min_ts)
    obtain r st1 where a: "assign x st min_ts = (r, st1)" by (cases "assign x st min_ts")
    show ?thesis
    proof (cases "\<exists>ts. r = Inr (Some ts)")
      case True
      then obtain ts where r: "r = Inr (Some ts)" by blast
      obtain issued1 st2 where run: "oracle_run assign observe cs st1 = (issued1, st2)"
        by (cases "oracle_run assign observe cs st1")
      with Cons.prems a r Assign have issued: "issued = ts # issued1" by simp
      from a r have law: "committed st < ts" "next_free st \<le> unat ts" "unat ts < next_free st1"
        using assign_Some by blast+
      have "next_free st \<le> unat t" "committed st < t" "ts < t" if t: "t \<in> set issued1" for t
      proof -
        from Cons.IH [OF run] t have "next_free st1 \<le> unat t" "committed st1 < t" by blast+
        with law assign_committed [OF a] assign_next_free [OF a]
        show "next_free st \<le> unat t" "committed st < t" "ts < t"
          by (simp_all add: word_less_nat_alt)
      qed
      with law Cons.IH [OF run] issued show ?thesis by simp
    next
      case False
      with Cons.prems a Assign have "oracle_run assign observe cs st1 = (issued, st')"
        by (cases r) (auto split: option.splits)
      from Cons.IH [OF this] assign_committed [OF a] assign_next_free [OF a] show ?thesis
        by auto
    qed
  qed
qed simp

lemma issued_increasing:
  "sorted_wrt (<) (fst (oracle_run assign observe cs st))"
  using run_bounds [of cs st] by (cases "oracle_run assign observe cs st") auto

lemma issued_above_observed:
  "\<forall>ts \<in> set (fst (oracle_run assign observe cs (observe st observed))). observed < ts"
proof -
  obtain issued st' where run: "oracle_run assign observe cs (observe st observed) = (issued, st')"
    by (cases "oracle_run assign observe cs (observe st observed)")
  from run_bounds [OF run] show ?thesis by (auto simp: run observe_committed)
qed

end

interpretation batch_oracle:
  node_oracle "\<lambda>_ :: unit. try_assign_from_reserved_batch" observe_committed_ts
    max_committed "\<lambda>st. unat (current st)"
proof unfold_locales
  fix st min_ts ts st'
  assume "try_assign_from_reserved_batch st min_ts = (Inr (Some ts), st')"
  note a = try_assign_Some [OF this]
  then show "min_ts \<le> ts \<and> max_committed st < ts \<and> unat (current st) \<le> unat ts \<and>
      unat ts < unat (current st')"
    by (simp add: word_le_nat_alt)
next
  fix st min_ts r st'
  assume a: "try_assign_from_reserved_batch st min_ts = (r, st')"
  have "max_committed st' = max_committed st \<and> current st \<le> current st'"
  proof (cases "\<exists>ts. r = Inr (Some ts)")
    case True
    then obtain ts where "r = Inr (Some ts)" ..
    with a have "try_assign_from_reserved_batch st min_ts = (Inr (Some ts), st')" by simp
    note b = try_assign_Some [OF this]
    from b(3,5,6) show ?thesis by (simp add: word_le_nat_alt)
  next
    case False
    with try_assign_other [OF a] show ?thesis by (auto simp: order_less_imp_le)
  qed
  then show "max_committed st' = max_committed st" "unat (current st) \<le> unat (current st')"
    by (simp_all add: word_le_nat_alt)
qed (auto simp: observe_committed_ts_def max_def)

lemma local_try_next_Some:
  assumes "local_try_next_ts_at_or_after sys st min_ts = (r, st')"
  shows "(\<exists>ts. r = Inr (Some ts) \<and> min_ts \<le> ts \<and> local_max_committed st < ts \<and>
            last_assigned st < ts \<and> st' = st\<lparr>last_assigned := ts\<rparr>) \<or>
         ((\<nexists>ts. r = Inr (Some ts)) \<and> st' = st)"
proof (cases sys; cases "ts_succ (last_assigned st)"; cases "ts_succ (local_max_committed st)")
  fix s a c
  assume ok: "sys = Inr s" "ts_succ (last_assigned st) = Inr a" "ts_succ (local_max_committed st) = Inr c"
  from ts_succ_Inr(2) ok have "last_assigned st < a" "local_max_committed st < c" by blast+
  with ok assms show ?thesis
    by (auto simp: local_try_next_ts_at_or_after_def Let_def less_max_iff_disj le_max_iff_disj)
qed (use assms in \<open>auto simp: local_try_next_ts_at_or_after_def\<close>)

interpretation local_oracle:
  node_oracle local_try_next_ts_at_or_after local_observe_committed_ts
    local_max_committed "\<lambda>st. unat (last_assigned st) + 1"
proof unfold_locales
  fix x st min_ts ts st'
  assume "local_try_next_ts_at_or_after x st min_ts = (Inr (Some ts), st')"
  from local_try_next_Some [OF this]
  show "min_ts \<le> ts \<and> local_max_committed st < ts \<and> unat (last_assigned st) + 1 \<le> unat ts \<and>
      unat ts < unat (last_assigned st') + 1"
    by (auto simp: word_less_nat_alt)
next
  fix x st min_ts r st'
  assume "local_try_next_ts_at_or_after x st min_ts = (r, st')"
  from local_try_next_Some [OF this]
  show "local_max_committed st' = local_max_committed st"
    "unat (last_assigned st) + 1 \<le> unat (last_assigned st') + 1"
    by (auto simp: word_less_nat_alt)
qed (auto simp: local_observe_committed_ts_def max_def)

text \<open>The blocking call of the local oracle is the non-blocking one.\<close>

lemma local_next_try_next:
  "local_try_next_ts_at_or_after sys st min_ts =
     (map_sum id Some (fst (local_next_ts_at_or_after sys st min_ts)),
      snd (local_next_ts_at_or_after sys st min_ts))"
  by (simp add: local_try_next_ts_at_or_after_def local_next_ts_at_or_after_def Let_def split: sum.splits)

section \<open>Reserving\<close>

text \<open>Whatever the bucket answers, a reserved range starts at the floor and has the batch size.\<close>

lemma reserve_batch_Inr:
  assumes "reserve_batch_at_or_above kv batch_size min_next w = (Inr (lower, upper), w')"
  shows "min_next \<le> lower" "unat upper = unat lower + unat batch_size"
proof -
  from cas_retry_Inr [OF assms [unfolded reserve_batch_at_or_above_def]]
  obtain entry where "reserve_compute batch_size min_next entry = Inl (Inr (lower, upper)) \<or>
      (\<exists>bytes revn. reserve_compute batch_size min_next entry = Inr (bytes, revn, lower, upper))" by blast
  then obtain cur where "lower = batch_lower_bound cur min_next" "checked_add lower batch_size = Some upper"
    by (auto simp: reserve_compute_def Let_def split: option.splits)
  then show "min_next \<le> lower" "unat upper = unat lower + unat batch_size"
    by (simp_all add: batch_lower_bound_def checked_add_Some)
qed

lemma plan_reservation_cases:
  assumes "plan_reservation st min_ts floor_ts = (r, st')"
  shows "st' = refresh_committed_floor st floor_ts"
    and "\<And>m epoch. r = Inr (Some (m, epoch)) \<Longrightarrow>
           local_min_next_from_floor min_ts (max_committed st') = Inr m \<and> epoch = reservation_epoch st'"
  using assms by (auto simp: plan_reservation_def Let_def split: sum.splits if_splits)

lemma refresh_committed_floor_simps [simp]:
  "max_committed (refresh_committed_floor st f) = max (max_committed st) f"
  "current (refresh_committed_floor st f) = current st"
  "upper_bound (refresh_committed_floor st f) = upper_bound st"
  "refresh_floor (refresh_committed_floor st f) = False"
  "reservation_epoch (refresh_committed_floor st f) = reservation_epoch st"
  by (auto simp: refresh_committed_floor_def max_def)

lemma try_assign_from:
  assumes "\<not> refresh_floor st" "local_min_next_from_floor min_ts (max_committed st) = Inr m"
    "max (current st) m < upper_bound st" "max (current st) m \<le> ts_max"
  shows "try_assign_from_reserved_batch st min_ts =
    (Inr (Some (max (current st) m)), st\<lparr>current := max (current st) m + 1\<rparr>)"
  using assms
  by (simp add: try_assign_from_reserved_batch_def next_ts_from_reserved_batch_def Let_def
      ts_from_u64_def not_less)

lemma next_ts_at_or_after_step:
  assumes "try_assign_from_reserved_batch (fst w) min_ts = (Inr (Some ts), st)"
  shows "next_ts_at_or_after kv batch_size min_ts w = Some (Inr ts, (st, snd w))"
  by (subst next_ts_at_or_after.simps) (simp add: assms)

section \<open>The call returns\<close>

text \<open>
  A quiet world: while the call awaits the bucket, no other task of the node
  touches the oracle's state.
\<close>

definition tso_quiet :: "'s tso_world kv_store \<Rightarrow> bool" where
  "tso_quiet kv \<longleftrightarrow>
     (\<forall>k w. fst (snd (kv_entry_op kv k w)) = fst w) \<and>
     (\<forall>k b revn w. fst (snd (kv_update_op kv k b revn w)) = fst w)"

lemma reserve_batch_available:
  fixes kv :: "'s tso_world kv_store" and view :: "'s \<Rightarrow> kv_view"
  assumes laws: "kv_laws (view \<circ> snd) kv" and avail: "kv_available (view \<circ> snd) (up \<circ> snd) kv"
    and quiet: "tso_quiet kv" and up: "up s"
    and counter: "view s tso_counter_key = Some e" "from_be_bytes (ke_value e) = Some c"
    and upper: "checked_add (max c m) batch_size = Some u"
  shows "\<exists>s'. reserve_batch_at_or_above kv batch_size m (st, s) = (Inr (max c m, u), (st, s'))"
proof -
  let ?comp = "reserve_compute batch_size m"
  have comp: "?comp (Some e) = Inr (to_be_bytes u, ke_revision e, max c m, u)"
    by (simp add: reserve_compute_def counter upper Let_def batch_lower_bound_def)
  from kv_entry_available [OF laws avail, of "(st, s)" tso_counter_key] up counter
  obtain w1 where w1: "kv_entry_op kv tso_counter_key (st, s) = (Inr (Some e), w1)"
    "view (snd w1) = view s" "up (snd w1)" by auto
  from kv_update_available [OF laws avail, of w1 tso_counter_key e "to_be_bytes u"] w1 counter
  obtain x w2 where w2: "kv_update_op kv tso_counter_key (to_be_bytes u) (ke_revision e) w1 = (Inr x, w2)"
    by auto
  from quiet w1(1) w2 have "fst w2 = st" unfolding tso_quiet_def by (metis fst_conv snd_conv)
  moreover have "reserve_batch_at_or_above kv batch_size m (st, s) = (Inr (max c m, u), w2)"
    using w1 w2 comp unfolding reserve_batch_at_or_above_def
    by (simp add: numeral_eq_Suc)
  ultimately show ?thesis by (cases w2) auto
qed

lemma ensure_reserved_batch_available:
  fixes kv :: "'s tso_world kv_store" and view :: "'s \<Rightarrow> kv_view"
  assumes laws: "kv_laws (view \<circ> snd) kv" and avail: "kv_available (view \<circ> snd) (up \<circ> snd) kv"
    and quiet: "tso_quiet kv" and up: "up s"
    and counter: "view s tso_counter_key = Some e" "from_be_bytes (ke_value e) = Some c"
    and floor_ts: "committed_floor_of (view s tso_max_committed_key) = Inr f"
    and m: "local_min_next_from_floor min_ts (max (max_committed st) f) = Inr m"
    and upper: "checked_add (max c m) batch_size = Some u" and pos: "batch_size \<noteq> 0"
    and need: "try_assign_from_reserved_batch st min_ts = (Inr None, st)"
  shows "\<exists>st' s'. ensure_reserved_batch_at_or_above kv batch_size min_ts (st, s) = Some (Inr (), (st', s')) \<and>
    \<not> refresh_floor st' \<and> max_committed st' = max (max_committed st) f \<and>
    max (current st') m < upper_bound st' \<and>
    (current st' = current st \<and> upper_bound st' = upper_bound st \<or> current st' = max c m)"
proof -
  from kv_entry_available [OF laws avail, of "(st, s)" tso_max_committed_key] up
  obtain w1 where w1: "kv_entry_op kv tso_max_committed_key (st, s) =
      (Inr (view s tso_max_committed_key), w1)" "view (snd w1) = view s" "up (snd w1)" by auto
  from quiet w1(1) have st1: "fst w1 = st" unfolding tso_quiet_def by (metis fst_conv snd_conv)
  have floor_call: "max_committed_ts kv (st, s) = (Inr f, w1)"
    by (simp add: max_committed_ts_def w1 floor_ts)
  define st' where "st' = refresh_committed_floor st f"
  have assignable: "try_assignable_from_reserved_batch st min_ts = Inr False"
    using need by (simp add: try_assignable_iff)
  show ?thesis
  proof (cases "reserved_batch_can_satisfy_local_floor (current st) (upper_bound st) m")
    case True
    then have "plan_reservation st min_ts f = (Inr None, st')"
      using m by (simp add: plan_reservation_def Let_def st'_def)
    then have "ensure_reserved_batch_at_or_above kv batch_size min_ts (st, s) = Some (Inr (), (st', snd w1))"
      by (subst ensure_reserved_batch_at_or_above.simps) (simp add: assignable floor_call st1)
    moreover have "max (current st') m < upper_bound st'"
      using True by (auto simp: reserved_batch_can_satisfy_local_floor_def st'_def
          next_ts_from_reserved_batch_def Let_def split: if_splits)
    ultimately show ?thesis by (simp add: st'_def)
  next
    case False
    then have plan: "plan_reservation st min_ts f = (Inr (Some (m, reservation_epoch st')), st')"
      using m by (simp add: plan_reservation_def Let_def st'_def)
    from reserve_batch_available [OF laws avail quiet w1(3), of e c m batch_size u st'] counter upper w1(2)
    obtain s' where res: "reserve_batch_at_or_above kv batch_size m (st', snd w1) =
        (Inr (max c m, u), (st', s'))" by auto
    have "ensure_reserved_batch_at_or_above kv batch_size min_ts (st, s) =
        Some (Inr (), (st'\<lparr>current := max c m, upper_bound := u\<rparr>, s'))"
      by (subst ensure_reserved_batch_at_or_above.simps)
         (simp add: assignable floor_call st1 plan res install_reservation_def)
    moreover have "max (max c m) m < u"
      using checked_add_gt [OF upper pos] by (simp add: max_def split: if_splits)
    ultimately show ?thesis by (simp add: st'_def)
  qed
qed

section \<open>Advancing the shared floor\<close>

definition shared_floor :: "kv_view \<Rightarrow> u64 option" where
  "shared_floor v = Option.bind (v tso_max_committed_key) (\<lambda>e. from_be_bytes (ke_value e))"

lemma shared_floor_written:
  "kv_written v tso_max_committed_key (to_be_bytes ts) oper v' \<Longrightarrow> shared_floor v' = Some ts"
  by (auto simp: kv_written_def shared_floor_def)

lemma advance_attempts_raises:
  assumes laws: "kv_laws view kv" and "advance_attempts n kv ts w = (r, w')"
  shows "(r = Inr () \<longrightarrow> (\<exists>v. shared_floor (view w') = Some v \<and> ts \<le> v)) \<and>
    (\<forall>v. shared_floor (view w) = Some v \<longrightarrow>
         (\<exists>v'. shared_floor (view w') = Some v' \<and> v \<le> v'))"
  using assms(2)
proof (induction n arbitrary: w)
  case (Suc n)
  obtain ro w1 where ent: "kv_entry_op kv tso_max_committed_key w = (ro, w1)"
    by (cases "kv_entry_op kv tso_max_committed_key w")
  with laws have v1: "view w1 = view w" and ro: "\<And>e. ro = Inr e \<Longrightarrow> e = view w tso_max_committed_key"
    unfolding kv_laws_def by blast+
  show ?case
  proof (cases ro)
    case (Inl e)
    with Suc.prems ent v1 show ?thesis by auto
  next
    case (Inr eo)
    note eo = ro [OF Inr]
    show ?thesis
    proof (cases eo)
      case None
      obtain rc w2 where cr: "kv_create_op kv tso_max_committed_key (to_be_bytes ts) w1 = (rc, w2)"
        by (cases "kv_create_op kv tso_max_committed_key (to_be_bytes ts) w1")
      have floor: "shared_floor (view w) = None" using eo None by (simp add: shared_floor_def)
      show ?thesis
      proof (cases rc)
        case (Inr x)
        with laws cr have "kv_written (view w1) tso_max_committed_key (to_be_bytes ts) KvPut (view w2)"
          unfolding kv_laws_def by (metis is_ok_simps(1))
        with shared_floor_written Suc.prems ent \<open>ro = Inr eo\<close> None cr Inr floor show ?thesis by auto
      next
        case (Inl e)
        with Suc.prems ent \<open>ro = Inr eo\<close> None cr have "advance_attempts n kv ts w2 = (r, w')" by simp
        from Suc.IH [OF this] floor show ?thesis by simp
      qed
    next
      case (Some e)
      show ?thesis
      proof (cases "from_be_bytes (ke_value e) :: u64 option")
        case None
        with Suc.prems ent Inr Some v1 show ?thesis by auto
      next
        case cur: (Some cur)
        have floor: "shared_floor (view w) = Some cur" using eo [symmetric] Some cur by (simp add: shared_floor_def)
        show ?thesis
        proof (cases "cur \<ge> ts")
          case True
          with Suc.prems ent Inr Some cur v1 floor show ?thesis by auto
        next
          case False
          obtain ru w2 where up: "kv_update_op kv tso_max_committed_key (to_be_bytes ts) (ke_revision e) w1 = (ru, w2)"
            by (cases "kv_update_op kv tso_max_committed_key (to_be_bytes ts) (ke_revision e) w1")
          from laws up have "kv_written (view w1) tso_max_committed_key (to_be_bytes ts) KvPut (view w2) \<or>
              view w2 = view w1 \<and> \<not> is_ok ru" unfolding kv_laws_def by blast
          then have fl2: "shared_floor (view w2) = Some ts \<or> shared_floor (view w2) = Some cur \<and> \<not> is_ok ru"
            using shared_floor_written floor v1 by auto
          show ?thesis
          proof (cases ru)
            case (Inr x)
            with Suc.prems ent \<open>ro = Inr eo\<close> Some cur False up fl2 floor show ?thesis by auto
          next
            case (Inl x)
            with Suc.prems ent \<open>ro = Inr eo\<close> Some cur False up have "advance_attempts n kv ts w2 = (r, w')"
              by simp
            from Suc.IH [OF this] fl2 floor False show ?thesis by (auto simp: not_le)
          qed
        qed
      qed
    qed
  qed
qed auto

section \<open>Properties\<close>



text \<open>
  A node's batch oracle issues strictly increasing timestamps along any
  sequence of assignments and observed commits, and every timestamp issued after
  a commit was observed is above it.
\<close>

lemma batch_oracle_monotone:
  "sorted_wrt (<) (fst (oracle_run (\<lambda>_ :: unit. try_assign_from_reserved_batch)
      observe_committed_ts cs st)) \<and>
   (\<forall>ts \<in> set (fst (oracle_run (\<lambda>_ :: unit. try_assign_from_reserved_batch)
      observe_committed_ts cs (observe_committed_ts st observed))). observed < ts)"
  using batch_oracle.issued_increasing batch_oracle.issued_above_observed by blast

text \<open>
  The single-node oracle issues strictly increasing timestamps, each above
  every commit observed before it, whatever the system clock answers.
\<close>

lemma local_oracle_monotone:
  "sorted_wrt (<) (fst (oracle_run local_try_next_ts_at_or_after local_observe_committed_ts cs st)) \<and>
   (\<forall>ts \<in> set (fst (oracle_run local_try_next_ts_at_or_after local_observe_committed_ts cs
      (local_observe_committed_ts st observed))). observed < ts)"
  using local_oracle.issued_increasing local_oracle.issued_above_observed by blast

text \<open>
  C28. With the bucket's revision laws, \<open>advance_committed_ts\<close> never lowers the
  shared committed floor, and when it reports success the floor is at or above the
  committed timestamp.
\<close>

theorem advance_committed_ts_raises:
  fixes kv :: "'s tso_world kv_store" and view :: "'s \<Rightarrow> kv_view"
  assumes laws: "kv_laws (view \<circ> snd) kv"
    and adv: "advance_committed_ts kv ts w = (r, w')"
  shows "(r = Inr () \<longrightarrow> (\<exists>v. shared_floor (view (snd w')) = Some v \<and> ts \<le> v)) \<and>
    (\<forall>v. shared_floor (view (snd w)) = Some v \<longrightarrow>
         (\<exists>v'. shared_floor (view (snd w')) = Some v' \<and> v \<le> v'))"
  using advance_attempts_raises [OF laws, of 10 ts "(observe_committed_ts (fst w) ts, snd w)" r w'] adv
  by (simp add: advance_committed_ts_def)

theorem advance_committed_ts_raises_witness:
  "\<exists>v. shared_floor (mem_view (snd (snd (advance_committed_ts (lift_kv mem_kv) 42
      (batch_state_new, ([], 0)))))) = Some v \<and> 42 \<le> v"
proof -
  let ?w = "snd (advance_committed_ts (lift_kv mem_kv) 42 (batch_state_new, ([], 0)))"
  have "advance_committed_ts (lift_kv mem_kv) 42 (batch_state_new, ([], 0)) = (Inr (), ?w)"
    by (simp add: advance_committed_ts_def numeral_eq_Suc lift_kv_def mem_kv_def mem_live_def
        mem_view_def mem_put_def Let_def)
  from advance_committed_ts_raises [OF lift_kv_laws [OF mem_kv_laws] this] show ?thesis by blast
qed

end
