(* ===== verification/TsoCluster.thy ===== *)
theory TsoCluster
  imports TimestampOracle
begin

text \<open>
  Many nodes with a batch oracle each, over one bucket.  The calls of
  \<open>TimestampOracle\<close> are cut at their awaits: every step below is what one task
  does between two awaits, or one operation of the bucket, and steps of all nodes
  interleave freely.  A node's own tasks interleave too: timestamps are assigned,
  commits observed and the reservation discarded at any point of a reservation
  that is in flight.  Nodes crash and reconnect, and the rest of the cluster uses
  the bucket under other keys.

  The theorem is the promise of the \<open>TimestampOracle\<close> trait: no two calls, on any
  node, ever return the same timestamp, and each node's timestamps increase.
\<close>

section \<open>State\<close>

text \<open>Where the holder of \<open>reservation_lock\<close> stands in \<open>ensure_reserved_batch_at_or_above\<close>.\<close>

datatype reservation =
    Idle
  | ReadFloor timestamp
  | HaveFloor timestamp timestamp
  | ReadCounter timestamp u64 u64 nat
  | HaveEntry timestamp u64 u64 nat "kv_entry option"
  | Reserved timestamp u64 u64 u64

record tso_node =
  node_state :: batch_state
  node_res :: reservation

record 's tso_cluster =
  bucket :: 's
  nodes :: "nat \<Rightarrow> tso_node"
  issued :: "(nat \<times> timestamp) list"

definition tso_node_new :: tso_node where
  "tso_node_new = \<lparr>node_state = batch_state_new, node_res = Idle\<rparr>"

definition set_node :: "'s tso_cluster \<Rightarrow> nat \<Rightarrow> batch_state \<Rightarrow> reservation \<Rightarrow> 's tso_cluster" where
  "set_node c n st res = c\<lparr>nodes := (nodes c)(n := \<lparr>node_state = st, node_res = res\<rparr>)\<rparr>"

section \<open>Steps\<close>

text \<open>What follows each await.\<close>

definition after_floor :: "timestamp \<Rightarrow> kv_error + kv_entry option \<Rightarrow> reservation" where
  "after_floor min_ts r =
     (case r of
        Inl _ \<Rightarrow> Idle
      | Inr entry \<Rightarrow>
          (case committed_floor_of entry of Inl _ \<Rightarrow> Idle | Inr f \<Rightarrow> HaveFloor min_ts f))"

definition after_plan :: "timestamp \<Rightarrow> tso_error + (u64 \<times> u64) option \<Rightarrow> reservation" where
  "after_plan min_ts r =
     (case r of
        Inl _ \<Rightarrow> Idle
      | Inr None \<Rightarrow> Idle
      | Inr (Some (min_next, epoch)) \<Rightarrow> ReadCounter min_ts min_next epoch 10)"

definition loop_head :: "batch_state \<Rightarrow> timestamp \<Rightarrow> reservation" where
  "loop_head st min_ts =
     (case try_assignable_from_reserved_batch st min_ts of
        Inr False \<Rightarrow> ReadFloor min_ts
      | _ \<Rightarrow> Idle)"

inductive tso_step ::
  "('s \<Rightarrow> kv_view) \<Rightarrow> 's kv_store \<Rightarrow> u64 \<Rightarrow> 's tso_cluster \<Rightarrow> 's tso_cluster \<Rightarrow> bool"
  for view kv batch_size where
  assign: "try_assign_from_reserved_batch (node_state (nodes c n)) min_ts = (Inr (Some ts), st) \<Longrightarrow>
    tso_step view kv batch_size c
      ((set_node c n st (node_res (nodes c n)))\<lparr>issued := issued c @ [(n, ts)]\<rparr>)"
| no_assign: "try_assign_from_reserved_batch (node_state (nodes c n)) min_ts = (r, st) \<Longrightarrow>
    \<forall>ts. r \<noteq> Inr (Some ts) \<Longrightarrow>
    tso_step view kv batch_size c (set_node c n st (node_res (nodes c n)))"
| observe: "tso_step view kv batch_size c
    (set_node c n (observe_committed_ts (node_state (nodes c n)) ts) (node_res (nodes c n)))"
| discard: "tso_step view kv batch_size c
    (set_node c n (discard_reserved_batch (node_state (nodes c n))) (node_res (nodes c n)))"
| ensure: "node_res (nodes c n) = Idle \<Longrightarrow>
    tso_step view kv batch_size c
      (set_node c n (node_state (nodes c n)) (loop_head (node_state (nodes c n)) min_ts))"
| read_floor: "node_res (nodes c n) = ReadFloor min_ts \<Longrightarrow>
    kv_entry_op kv tso_max_committed_key (bucket c) = (r, s) \<Longrightarrow>
    tso_step view kv batch_size c
      ((set_node c n (node_state (nodes c n)) (after_floor min_ts r))\<lparr>bucket := s\<rparr>)"
| plan: "node_res (nodes c n) = HaveFloor min_ts f \<Longrightarrow>
    plan_reservation (node_state (nodes c n)) min_ts f = (r, st) \<Longrightarrow>
    tso_step view kv batch_size c (set_node c n st (after_plan min_ts r))"
| exhausted: "node_res (nodes c n) = ReadCounter min_ts min_next epoch 0 \<Longrightarrow>
    tso_step view kv batch_size c (set_node c n (node_state (nodes c n)) Idle)"
| read_counter: "node_res (nodes c n) = ReadCounter min_ts min_next epoch (Suc k) \<Longrightarrow>
    kv_entry_op kv tso_counter_key (bucket c) = (r, s) \<Longrightarrow>
    tso_step view kv batch_size c
      ((set_node c n (node_state (nodes c n))
          (case r of Inl _ \<Rightarrow> Idle | Inr e \<Rightarrow> HaveEntry min_ts min_next epoch k e))\<lparr>bucket := s\<rparr>)"
| no_swap: "node_res (nodes c n) = HaveEntry min_ts min_next epoch k e \<Longrightarrow>
    reserve_compute batch_size min_next e = Inl r \<Longrightarrow>
    tso_step view kv batch_size c (set_node c n (node_state (nodes c n)) Idle)"
| swap: "node_res (nodes c n) = HaveEntry min_ts min_next epoch k e \<Longrightarrow>
    reserve_compute batch_size min_next e = Inr (bytes, revn, lower, upper) \<Longrightarrow>
    kv_update_op kv tso_counter_key bytes revn (bucket c) = (r, s) \<Longrightarrow>
    tso_step view kv batch_size c
      ((set_node c n (node_state (nodes c n))
          (case r of Inr _ \<Rightarrow> Reserved min_ts epoch lower upper
                   | Inl _ \<Rightarrow> ReadCounter min_ts min_next epoch k))\<lparr>bucket := s\<rparr>)"
| install: "node_res (nodes c n) = Reserved min_ts epoch lower upper \<Longrightarrow>
    install_reservation (node_state (nodes c n)) epoch lower upper = Some st \<Longrightarrow>
    tso_step view kv batch_size c (set_node c n st Idle)"
| stale: "node_res (nodes c n) = Reserved min_ts epoch lower upper \<Longrightarrow>
    install_reservation (node_state (nodes c n)) epoch lower upper = None \<Longrightarrow>
    tso_step view kv batch_size c
      (set_node c n (node_state (nodes c n)) (loop_head (node_state (nodes c n)) min_ts))"
| connect: "tso_connect kv initial_ts (bucket c) = (st, s) \<Longrightarrow>
    tso_step view kv batch_size c ((set_node c n st Idle)\<lparr>bucket := s\<rparr>)"
| elsewhere: "view s tso_counter_key = view (bucket c) tso_counter_key \<Longrightarrow>
    tso_step view kv batch_size c (c\<lparr>bucket := s\<rparr>)"

inductive_cases tso_stepE: "tso_step view kv batch_size c c'"

text \<open>Nodes start unconnected, over a bucket that has no counter yet.\<close>

definition tso_init :: "('s \<Rightarrow> kv_view) \<Rightarrow> 's tso_cluster \<Rightarrow> bool" where
  "tso_init view c \<longleftrightarrow>
     view (bucket c) tso_counter_key = None \<and> (\<forall>n. nodes c n = tso_node_new) \<and> issued c = []"

inductive tso_reachable ::
  "('s \<Rightarrow> kv_view) \<Rightarrow> 's kv_store \<Rightarrow> u64 \<Rightarrow> 's tso_cluster \<Rightarrow> bool"
  for view kv batch_size where
  init: "tso_init view c \<Longrightarrow> tso_reachable view kv batch_size c"
| step: "tso_reachable view kv batch_size c \<Longrightarrow> tso_step view kv batch_size c c' \<Longrightarrow>
    tso_reachable view kv batch_size c'"

section \<open>Invariant\<close>

text \<open>The timestamps a node could still assign: its installed range, and one it has just reserved.\<close>

definition held :: "tso_node \<Rightarrow> timestamp set" where
  "held nd = {x. current (node_state nd) \<le> x \<and> x < upper_bound (node_state nd)}"

definition pending :: "tso_node \<Rightarrow> timestamp set" where
  "pending nd = (case node_res nd of Reserved _ _ l u \<Rightarrow> {x. l \<le> x \<and> x < u} | _ \<Rightarrow> {})"

definition owned :: "tso_node \<Rightarrow> timestamp set" where
  "owned nd = held nd \<union> pending nd"

text \<open>The counter is a live eight-byte value; a bucket without one has value zero.\<close>

definition counter_ok :: "kv_entry option \<Rightarrow> bool" where
  "counter_ok eo \<longleftrightarrow> (case eo of None \<Rightarrow> True
     | Some e \<Rightarrow> ke_operation e = KvPut \<and> (\<exists>v :: u64. from_be_bytes (ke_value e) = Some v))"

definition counter_value :: "kv_entry option \<Rightarrow> nat" where
  "counter_value eo = (case eo of None \<Rightarrow> 0
     | Some e \<Rightarrow> (case from_be_bytes (ke_value e) of None \<Rightarrow> 0 | Some (v :: u64) \<Rightarrow> unat v))"

text \<open>An entry a node has read is the counter's, or an older one with a smaller revision.\<close>

definition snapshot_ok :: "kv_entry option \<Rightarrow> tso_node \<Rightarrow> bool" where
  "snapshot_ok eo nd \<longleftrightarrow>
     (case node_res nd of
        HaveEntry _ _ _ _ (Some e) \<Rightarrow>
          (\<exists>cur. eo = Some cur \<and> (ke_revision e < ke_revision cur \<or> e = cur))
      | _ \<Rightarrow> True)"

definition tso_inv :: "kv_entry option \<Rightarrow> (nat \<Rightarrow> tso_node) \<Rightarrow> (nat \<times> timestamp) list \<Rightarrow> bool" where
  "tso_inv eo nds iss \<longleftrightarrow>
     counter_ok eo \<and>
     (\<forall>n. snapshot_ok eo (nds n)) \<and>
     (\<forall>n. \<forall>x \<in> owned (nds n). unat x < counter_value eo) \<and>
     (\<forall>n n'. n \<noteq> n' \<longrightarrow> owned (nds n) \<inter> owned (nds n') = {}) \<and>
     (\<forall>n. \<forall>x \<in> held (nds n). \<forall>y \<in> pending (nds n). x < y) \<and>
     (\<forall>(n, t) \<in> set iss. unat t < counter_value eo \<and>
        (\<forall>n'. t \<notin> owned (nds n')) \<and> (\<forall>x \<in> owned (nds n). t < x)) \<and>
     distinct (map snd iss) \<and>
     sorted_wrt (\<lambda>(n, t) (n', t'). n = n' \<longrightarrow> t < t') iss"

lemma tso_invI:
  assumes "counter_ok eo" "\<And>n. snapshot_ok eo (nds n)"
    "\<And>n x. x \<in> owned (nds n) \<Longrightarrow> unat x < counter_value eo"
    "\<And>n n' x. n \<noteq> n' \<Longrightarrow> x \<in> owned (nds n) \<Longrightarrow> x \<notin> owned (nds n')"
    "\<And>n x y. x \<in> held (nds n) \<Longrightarrow> y \<in> pending (nds n) \<Longrightarrow> x < y"
    "\<And>n t. (n, t) \<in> set iss \<Longrightarrow> unat t < counter_value eo"
    "\<And>n t n'. (n, t) \<in> set iss \<Longrightarrow> t \<notin> owned (nds n')"
    "\<And>n t x. (n, t) \<in> set iss \<Longrightarrow> x \<in> owned (nds n) \<Longrightarrow> t < x"
    "distinct (map snd iss)" "sorted_wrt (\<lambda>(n, t) (n', t'). n = n' \<longrightarrow> t < t') iss"
  shows "tso_inv eo nds iss"
  unfolding tso_inv_def using assms by (intro conjI allI ballI impI) blast+

lemma tso_invD:
  assumes "tso_inv eo nds iss"
  shows "counter_ok eo" "snapshot_ok eo (nds n)"
    "x \<in> owned (nds n) \<Longrightarrow> unat x < counter_value eo"
    "n \<noteq> n' \<Longrightarrow> x \<in> owned (nds n) \<Longrightarrow> x \<notin> owned (nds n')"
    "x \<in> held (nds n) \<Longrightarrow> y \<in> pending (nds n) \<Longrightarrow> x < y"
    "(n, t) \<in> set iss \<Longrightarrow> unat t < counter_value eo"
    "(n, t) \<in> set iss \<Longrightarrow> t \<notin> owned (nds n')"
    "(n, t) \<in> set iss \<Longrightarrow> x \<in> owned (nds n) \<Longrightarrow> t < x"
    "distinct (map snd iss)" "sorted_wrt (\<lambda>(n, t) (n', t'). n = n' \<longrightarrow> t < t') iss"
  using assms unfolding tso_inv_def by blast+

text \<open>A node may give up timestamps, or move a reserved range into place.\<close>

lemma tso_inv_shrink:
  assumes inv: "tso_inv eo nds iss" and sub: "owned nd \<subseteq> owned (nds n)"
    and order: "\<And>x y. x \<in> held nd \<Longrightarrow> y \<in> pending nd \<Longrightarrow> x < y" and snap: "snapshot_ok eo nd"
  shows "tso_inv eo (nds(n := nd)) iss"
proof (rule tso_invI)
  note D = tso_invD [OF inv]
  show "counter_ok eo" "distinct (map snd iss)"
    "sorted_wrt (\<lambda>(n, t) (n', t'). n = n' \<longrightarrow> t < t') iss" using D by blast+
  show "snapshot_ok eo ((nds(n := nd)) k)" for k using snap D(2) by simp
  have mono: "x \<in> owned (nds k)" if "x \<in> owned ((nds(n := nd)) k)" for x k
    using that sub by (auto split: if_splits)
  show "unat x < counter_value eo" if "x \<in> owned ((nds(n := nd)) k)" for x k
    using mono [OF that] D(3) by blast
  show "x \<notin> owned ((nds(n := nd)) k')" if "k \<noteq> k'" "x \<in> owned ((nds(n := nd)) k)" for k k' x
    using mono that D(4) by blast
  show "x < y" if "x \<in> held ((nds(n := nd)) k)" "y \<in> pending ((nds(n := nd)) k)" for k x y
    using that order D(5) by (auto split: if_splits)
  show "unat t < counter_value eo" if "(k, t) \<in> set iss" for k t using D(6) that by blast
  show "t \<notin> owned ((nds(n := nd)) k')" if "(k, t) \<in> set iss" for k t k'
    using D(7) that mono by blast
  show "t < x" if "(k, t) \<in> set iss" "x \<in> owned ((nds(n := nd)) k)" for k t x
    using D(8) that mono by blast
qed

text \<open>The counter may move up.\<close>

lemma tso_inv_counter:
  assumes inv: "tso_inv eo nds iss" and "counter_ok eo'" "counter_value eo \<le> counter_value eo'"
    and "\<And>n. snapshot_ok eo' (nds n)"
  shows "tso_inv eo' nds iss"
proof (rule tso_invI)
  note D = tso_invD [OF inv]
  show "unat x < counter_value eo'" if "x \<in> owned (nds k)" for x k
    using D(3) [OF that] assms(3) by simp
  show "unat t < counter_value eo'" if "(k, t) \<in> set iss" for k t using D(6) [OF that] assms(3) by simp
qed (use assms tso_invD [OF inv] in blast)+

text \<open>A fresh range above the counter belongs to nobody.\<close>

lemma tso_inv_reserve:
  assumes inv: "tso_inv eo nds iss" and new: "\<And>x. x \<in> pending nd \<Longrightarrow> counter_value eo \<le> unat x"
    and held: "held nd \<subseteq> held (nds n)" and cnt: "counter_ok eo'" "counter_value eo \<le> counter_value eo'"
    and upper: "\<And>x. x \<in> pending nd \<Longrightarrow> unat x < counter_value eo'"
    and snap: "\<And>k. snapshot_ok eo' ((nds(n := nd)) k)"
  shows "tso_inv eo' (nds(n := nd)) iss"
proof (rule tso_invI)
  note D = tso_invD [OF inv]
  show "counter_ok eo'" "distinct (map snd iss)" "snapshot_ok eo' ((nds(n := nd)) k)"
    "sorted_wrt (\<lambda>(n, t) (n', t'). n = n' \<longrightarrow> t < t') iss" for k
    using cnt snap D by blast+
  have parts: "x \<in> owned (nds k) \<or> k = n \<and> x \<in> pending nd" if "x \<in> owned ((nds(n := nd)) k)" for x k
    using that held by (auto simp: owned_def split: if_splits)
  have low: "unat x < counter_value eo" if "x \<in> owned (nds k)" for x k using D(3) that by blast
  show "unat x < counter_value eo'" if "x \<in> owned ((nds(n := nd)) k)" for x k
    using parts [OF that] low upper cnt(2) by force
  show "x \<notin> owned ((nds(n := nd)) k')" if ne: "k \<noteq> k'" and x: "x \<in> owned ((nds(n := nd)) k)" for k k' x
  proof
    assume x': "x \<in> owned ((nds(n := nd)) k')"
    from parts [OF x] parts [OF x'] show False
      using D(4) [OF ne] low new ne by (metis leD)
  qed
  show "x < y" if "x \<in> held ((nds(n := nd)) k)" "y \<in> pending ((nds(n := nd)) k)" for k x y
  proof (cases "k = n")
    case True
    with that held have x: "x \<in> owned (nds n)" and y: "y \<in> pending nd" by (auto simp: owned_def)
    from low [OF x] new [OF y] show ?thesis by (simp add: word_less_nat_alt)
  next
    case False
    with that D(5) show ?thesis by simp
  qed
  show "unat t < counter_value eo'" if "(k, t) \<in> set iss" for k t using D(6) [OF that] cnt(2) by simp
  show "t \<notin> owned ((nds(n := nd)) k')" if "(k, t) \<in> set iss" for k t k'
    using D(6,7) that parts new by (metis leD)
  show "t < x" if t: "(k, t) \<in> set iss" and x: "x \<in> owned ((nds(n := nd)) k)" for k t x
    using parts [OF x]
  proof
    assume "x \<in> owned (nds k)"
    with D(8) t show ?thesis by blast
  next
    assume "k = n \<and> x \<in> pending nd"
    with D(6) [OF t] new [of x] show ?thesis by (simp add: word_less_nat_alt)
  qed
qed

text \<open>Assigning the first timestamp of the installed range.\<close>

lemma tso_inv_assign:
  assumes inv: "tso_inv eo nds iss" and ts: "ts \<in> held (nds n)"
    and held: "held nd \<subseteq> {x \<in> held (nds n). ts < x}" and pend: "pending nd = pending (nds n)"
    and snap: "snapshot_ok eo nd"
  shows "tso_inv eo (nds(n := nd)) (iss @ [(n, ts)])"
proof (rule tso_invI)
  note D = tso_invD [OF inv]
  have own: "ts \<in> owned (nds n)" using ts by (simp add: owned_def)
  have sub: "owned nd \<subseteq> owned (nds n)" and above: "\<And>x. x \<in> owned nd \<Longrightarrow> ts < x"
    using held pend D(5) [OF ts] by (auto simp: owned_def)
  have order: "x < y" if "x \<in> held nd" "y \<in> pending nd" for x y
    using that held pend D(5) by blast
  note E = tso_invD [OF tso_inv_shrink [OF inv sub order snap]]
  show "counter_ok eo" "snapshot_ok eo ((nds(n := nd)) k)" for k using E by blast+
  show "unat x < counter_value eo" if "x \<in> owned ((nds(n := nd)) k)" for x k using E(3) that by blast
  show "x \<notin> owned ((nds(n := nd)) k')" if "k \<noteq> k'" "x \<in> owned ((nds(n := nd)) k)" for k k' x
    using E(4) that by blast
  show "x < y" if "x \<in> held ((nds(n := nd)) k)" "y \<in> pending ((nds(n := nd)) k)" for k x y
    using E(5) that by blast
  have split: "(k, t) \<in> set iss \<or> k = n \<and> t = ts" if "(k, t) \<in> set (iss @ [(n, ts)])" for k t
    using that by auto
  show "unat t < counter_value eo" if "(k, t) \<in> set (iss @ [(n, ts)])" for k t
    using split [OF that] D(3) [OF own] E(6) by blast
  show "t \<notin> owned ((nds(n := nd)) k')" if "(k, t) \<in> set (iss @ [(n, ts)])" for k t k'
    using split [OF that] E(7) above D(4) own by (metis fun_upd_apply order.irrefl)
  show "t < x" if "(k, t) \<in> set (iss @ [(n, ts)])" "x \<in> owned ((nds(n := nd)) k)" for k t x
    using split [OF that(1)] that(2) E(8) above by auto
  show "distinct (map snd (iss @ [(n, ts)]))" using D(9) D(7) own by auto
  show "sorted_wrt (\<lambda>(n, t) (n', t'). n = n' \<longrightarrow> t < t') (iss @ [(n, ts)])"
    using D(10) D(8) own by (auto simp: sorted_wrt_append)
qed

section \<open>Every step keeps the invariant\<close>

definition cluster_inv :: "('s \<Rightarrow> kv_view) \<Rightarrow> 's tso_cluster \<Rightarrow> bool" where
  "cluster_inv view c \<longleftrightarrow> tso_inv (view (bucket c) tso_counter_key) (nodes c) (issued c)"

lemma set_node_simps [simp]:
  "bucket (set_node c n st res) = bucket c"
  "issued (set_node c n st res) = issued c"
  "nodes (set_node c n st res) = (nodes c)(n := \<lparr>node_state = st, node_res = res\<rparr>)"
  by (simp_all add: set_node_def)

lemma pending_simps [simp]:
  "pending \<lparr>node_state = st, node_res = Idle\<rparr> = {}"
  "pending \<lparr>node_state = st, node_res = ReadFloor m\<rparr> = {}"
  "pending \<lparr>node_state = st, node_res = HaveFloor m f\<rparr> = {}"
  "pending \<lparr>node_state = st, node_res = ReadCounter m mn ep k\<rparr> = {}"
  "pending \<lparr>node_state = st, node_res = HaveEntry m mn ep k e\<rparr> = {}"
  "pending \<lparr>node_state = st, node_res = Reserved m ep l u\<rparr> = {x. l \<le> x \<and> x < u}"
  by (simp_all add: pending_def)

lemma snapshot_simps [simp]:
  "snapshot_ok eo \<lparr>node_state = st, node_res = Idle\<rparr>"
  "snapshot_ok eo \<lparr>node_state = st, node_res = ReadFloor m\<rparr>"
  "snapshot_ok eo \<lparr>node_state = st, node_res = HaveFloor m f\<rparr>"
  "snapshot_ok eo \<lparr>node_state = st, node_res = ReadCounter m mn ep k\<rparr>"
  "snapshot_ok eo \<lparr>node_state = st, node_res = Reserved m ep l u\<rparr>"
  "snapshot_ok eo \<lparr>node_state = st, node_res = HaveEntry m mn ep k eo\<rparr>"
  by (simp_all add: snapshot_ok_def split: option.splits)

lemma held_same [simp]: "held \<lparr>node_state = node_state nd, node_res = res\<rparr> = held nd"
  by (simp add: held_def)

lemma pending_same [simp]: "pending \<lparr>node_state = st, node_res = node_res nd\<rparr> = pending nd"
  by (simp add: pending_def)

lemma snapshot_same [simp]: "snapshot_ok eo \<lparr>node_state = st, node_res = node_res nd\<rparr> = snapshot_ok eo nd"
  by (simp add: snapshot_ok_def)

text \<open>A change of the node's state that keeps or narrows its range.\<close>

lemma tso_inv_state:
  assumes inv: "tso_inv eo nds iss"
    and "\<And>x. current st \<le> x \<Longrightarrow> x < upper_bound st \<Longrightarrow> x \<in> held (nds n)"
  shows "tso_inv eo (nds(n := \<lparr>node_state = st, node_res = node_res (nds n)\<rparr>)) iss"
proof -
  have "held \<lparr>node_state = st, node_res = node_res (nds n)\<rparr> \<subseteq> held (nds n)"
    using assms(2) by (auto simp: held_def)
  then show ?thesis
    using tso_invD [OF inv] by (intro tso_inv_shrink [OF inv]) (auto simp: owned_def)
qed

text \<open>A move of the reservation to a place where it owns nothing.\<close>

lemma tso_inv_move:
  assumes inv: "tso_inv eo nds iss" and "pending \<lparr>node_state = node_state (nds n), node_res = res\<rparr> = {}"
    and "snapshot_ok eo \<lparr>node_state = node_state (nds n), node_res = res\<rparr>"
  shows "tso_inv eo (nds(n := \<lparr>node_state = node_state (nds n), node_res = res\<rparr>)) iss"
  using assms by (intro tso_inv_shrink [OF inv]) (auto simp: owned_def)

lemma tso_inv_move_state:
  assumes inv: "tso_inv eo nds iss" and "current st = current (node_state (nds n))"
    "upper_bound st = upper_bound (node_state (nds n))"
    and "pending \<lparr>node_state = st, node_res = res\<rparr> = {}" "snapshot_ok eo \<lparr>node_state = st, node_res = res\<rparr>"
  shows "tso_inv eo (nds(n := \<lparr>node_state = st, node_res = res\<rparr>)) iss"
  using assms by (intro tso_inv_shrink [OF inv]) (auto simp: owned_def held_def)

lemma reservation_places:
  "pending \<lparr>node_state = st, node_res = loop_head st' m\<rparr> = {}"
  "snapshot_ok eo \<lparr>node_state = st, node_res = loop_head st' m\<rparr>"
  "pending \<lparr>node_state = st, node_res = after_floor m r\<rparr> = {}"
  "snapshot_ok eo \<lparr>node_state = st, node_res = after_floor m r\<rparr>"
  "pending \<lparr>node_state = st, node_res = after_plan m p\<rparr> = {}"
  "snapshot_ok eo \<lparr>node_state = st, node_res = after_plan m p\<rparr>"
  by (auto simp: loop_head_def after_floor_def after_plan_def split: sum.splits bool.splits option.splits)

lemma counter_after_swap:
  assumes "counter_ok (view k)" "kv_written view k (to_be_bytes (u :: u64)) KvPut view'"
  shows "counter_ok (view' k)" "counter_value (view' k) = unat u"
    "\<exists>e. view' k = Some e \<and> (\<forall>e0. view k = Some e0 \<longrightarrow> ke_revision e0 < ke_revision e)"
  using assms(2) by (auto simp: kv_written_def counter_ok_def counter_value_def)

lemma snapshot_after_write:
  assumes "snapshot_ok eo nd" "eo' = Some e" "\<forall>e0. eo = Some e0 \<longrightarrow> ke_revision e0 < ke_revision e"
  shows "snapshot_ok eo' nd"
  using assms by (auto simp: snapshot_ok_def split: reservation.splits option.splits)

lemma swap_keeps_inv:
  assumes laws: "kv_laws view kv" and inv: "cluster_inv view c"
    and res: "node_res (nodes c n) = HaveEntry min_ts min_next epoch k e"
    and comp: "reserve_compute batch_size min_next e = Inr (bytes, revn, lower, upper)"
    and upd: "kv_update_op kv tso_counter_key bytes revn (bucket c) = (r, s)"
  shows "cluster_inv view ((set_node c n (node_state (nodes c n))
          (case r of Inr _ \<Rightarrow> Reserved min_ts epoch lower upper
                   | Inl _ \<Rightarrow> ReadCounter min_ts min_next epoch k))\<lparr>bucket := s\<rparr>)"
proof -
  let ?eo = "view (bucket c) tso_counter_key" and ?eo' = "view s tso_counter_key"
  note I = inv [unfolded cluster_inv_def]
  from comp obtain en cur where en: "e = Some en" "from_be_bytes (ke_value en) = Some cur"
    "revn = ke_revision en" "bytes = to_be_bytes upper" "lower = max cur min_next"
    "checked_add lower batch_size = Some upper"
    by (auto simp: reserve_compute_def batch_lower_bound_def Let_def split: option.splits)
  from laws upd have cases: "((\<exists>e. ?eo = Some e \<and> ke_revision e = revn) \<and>
      kv_written (view (bucket c)) tso_counter_key bytes KvPut (view s)) \<or> (view s = view (bucket c) \<and> \<not> is_ok r)"
    unfolding kv_laws_def by blast
  then show ?thesis
  proof
    assume "view s = view (bucket c) \<and> \<not> is_ok r"
    then show ?thesis
      using tso_inv_move [OF I] by (cases r) (simp_all add: cluster_inv_def)
  next
    assume w: "(\<exists>e. ?eo = Some e \<and> ke_revision e = revn) \<and>
      kv_written (view (bucket c)) tso_counter_key bytes KvPut (view s)"
    then obtain e0 where e0: "?eo = Some e0" "ke_revision e0 = revn" by blast
    with tso_invD(2) [OF I, of n] res en have "en = e0" by (auto simp: snapshot_ok_def)
    with e0 en have val: "counter_value ?eo = unat cur" by (simp add: counter_value_def)
    have "kv_written (view (bucket c)) tso_counter_key (to_be_bytes upper) KvPut (view s)"
      using w en(4) by simp
    note after = counter_after_swap [OF tso_invD(1) [OF I] this]
    have up: "unat upper = unat lower + unat batch_size" using checked_add_Some en(6) by blast
    have low: "unat cur \<le> unat lower" using en(5) by (simp add: word_le_nat_alt [symmetric])
    have snaps: "snapshot_ok ?eo' (nodes c k)" for k
      using after(3) tso_invD(2) [OF I, of k] snapshot_after_write by blast
    have cnt: "counter_ok ?eo'" "counter_value ?eo \<le> counter_value ?eo'"
      using after val up low by simp_all
    show ?thesis
    proof (cases r)
      case (Inl x)
      from tso_inv_move [OF tso_inv_counter [OF I cnt snaps]] Inl show ?thesis
        by (simp add: cluster_inv_def)
    next
      case (Inr x)
      have "tso_inv ?eo' ((nodes c)(n := \<lparr>node_state = node_state (nodes c n),
          node_res = Reserved min_ts epoch lower upper\<rparr>)) (issued c)"
        by (rule tso_inv_reserve [OF I])
           (use val low cnt after(2) snaps in \<open>auto simp: word_less_nat_alt word_le_nat_alt\<close>)
      with Inr show ?thesis by (simp add: cluster_inv_def)
    qed
  qed
qed

lemma connect_keeps_inv:
  assumes laws: "kv_laws view kv" and inv: "cluster_inv view c"
    and conn: "tso_connect kv initial_ts (bucket c) = (st, s)"
  shows "cluster_inv view ((set_node c n st Idle)\<lparr>bucket := s\<rparr>)"
proof -
  let ?eo = "view (bucket c) tso_counter_key" and ?eo' = "view s tso_counter_key"
  note I = inv [unfolded cluster_inv_def]
  obtain r where cr: "kv_create_op kv tso_counter_key (to_be_bytes initial_ts) (bucket c) = (r, s)"
    and st: "st = batch_state_new"
    using conn by (cases "kv_create_op kv tso_counter_key (to_be_bytes initial_ts) (bucket c)")
      (auto simp: tso_connect_def)
  have gone: "tso_inv eo ((nodes c)(n := \<lparr>node_state = st, node_res = Idle\<rparr>)) (issued c)"
    if "tso_inv eo (nodes c) (issued c)" for eo
    by (rule tso_inv_shrink [OF that]) (auto simp: st owned_def held_def batch_state_new_def)
  from laws cr have "(\<not> kv_live (view (bucket c)) tso_counter_key \<and>
      kv_written (view (bucket c)) tso_counter_key (to_be_bytes initial_ts) KvPut (view s)) \<or>
      view s = view (bucket c)"
    unfolding kv_laws_def by blast
  then show ?thesis
  proof
    assume "view s = view (bucket c)"
    with gone [OF I] show ?thesis by (simp add: cluster_inv_def)
  next
    assume w: "\<not> kv_live (view (bucket c)) tso_counter_key \<and>
      kv_written (view (bucket c)) tso_counter_key (to_be_bytes initial_ts) KvPut (view s)"
    with tso_invD(1) [OF I] have none: "?eo = None"
      by (auto simp: counter_ok_def kv_live_def split: option.splits)
    note after = counter_after_swap [OF tso_invD(1) [OF I] conjunct2 [OF w]]
    have "tso_inv ?eo' (nodes c) (issued c)"
    proof (rule tso_inv_counter [OF I after(1)])
      show "counter_value ?eo \<le> counter_value ?eo'" by (simp add: none counter_value_def)
      show "snapshot_ok ?eo' (nodes c k)" for k
        using after(3) tso_invD(2) [OF I, of k] snapshot_after_write by blast
    qed
    from gone [OF this] show ?thesis by (simp add: cluster_inv_def)
  qed
qed

lemma kv_entry_view:
  "kv_laws view kv \<Longrightarrow> kv_entry_op kv k w = (r, w') \<Longrightarrow> view w' = view w \<and> (\<forall>e. r = Inr e \<longrightarrow> e = view w k)"
  unfolding kv_laws_def by blast

lemma tso_step_inv:
  assumes "tso_step view kv batch_size c c'" and laws: "kv_laws view kv" and inv: "cluster_inv view c"
  shows "cluster_inv view c'"
  using assms(1)
proof cases
  note I = inv [unfolded cluster_inv_def]
  case (assign n min_ts ts st)
  note a = try_assign_Some [OF assign(2)]
  have "tso_inv (view (bucket c) tso_counter_key)
      ((nodes c)(n := \<lparr>node_state = st, node_res = node_res (nodes c n)\<rparr>)) (issued c @ [(n, ts)])"
    by (rule tso_inv_assign [OF I])
       (use a tso_invD(2) [OF I, of n] in \<open>auto simp: held_def word_le_nat_alt word_less_nat_alt\<close>)
  with assign(1) show ?thesis by (simp add: cluster_inv_def)
next
  note I = inv [unfolded cluster_inv_def]
  case (no_assign n min_ts r st)
  have "st = node_state (nodes c n) \<or> (\<exists>cu. st = (node_state (nodes c n))\<lparr>current := cu\<rparr> \<and>
      current (node_state (nodes c n)) < cu \<and> cu \<le> upper_bound (node_state (nodes c n)))"
    using try_assign_other [OF no_assign(2)] no_assign(3) by blast
  then have "x \<in> held (nodes c n)" if "current st \<le> x" "x < upper_bound st" for x
    using that by (auto simp: held_def)
  from tso_inv_state [OF I this] no_assign(1) show ?thesis by (simp add: cluster_inv_def)
next
  note I = inv [unfolded cluster_inv_def]
  case (observe n ts)
  show ?thesis unfolding observe cluster_inv_def
    by simp (rule tso_inv_state [OF I], auto simp: held_def observe_committed_ts_def split: if_splits)
next
  note I = inv [unfolded cluster_inv_def]
  case (discard n)
  show ?thesis unfolding discard cluster_inv_def
    by simp (rule tso_inv_state [OF I],
      auto simp: discard_reserved_batch_def discard_batch_state_for_leadership_change_def)
next
  note I = inv [unfolded cluster_inv_def]
  case (ensure n min_ts)
  then show ?thesis using tso_inv_move [OF I] by (simp add: cluster_inv_def reservation_places)
next
  note I = inv [unfolded cluster_inv_def]
  case (read_floor n min_ts r s)
  with kv_entry_view [OF laws read_floor(3)] tso_inv_move [OF I] show ?thesis
    by (simp add: cluster_inv_def reservation_places)
next
  note I = inv [unfolded cluster_inv_def]
  case (plan n min_ts f r st)
  have "st = refresh_committed_floor (node_state (nodes c n)) f"
    using plan_reservation_cases(1) [OF plan(3)] .
  with plan(1) tso_inv_move_state [OF I] show ?thesis by (simp add: cluster_inv_def reservation_places)
next
  note I = inv [unfolded cluster_inv_def]
  case (exhausted n min_ts min_next epoch)
  then show ?thesis using tso_inv_move [OF I] by (simp add: cluster_inv_def)
next
  note I = inv [unfolded cluster_inv_def]
  case (read_counter n min_ts min_next epoch k r s)
  with kv_entry_view [OF laws read_counter(3)] tso_inv_move [OF I] show ?thesis
    by (cases r) (simp_all add: cluster_inv_def)
next
  note I = inv [unfolded cluster_inv_def]
  case (no_swap n min_ts min_next epoch k e r)
  then show ?thesis using tso_inv_move [OF I] by (simp add: cluster_inv_def)
next
  case (swap n min_ts min_next epoch k e bytes revn lower upper r s)
  then show ?thesis using swap_keeps_inv [OF laws inv swap(2,3,4)] by simp
next
  note I = inv [unfolded cluster_inv_def]
  case (install n min_ts epoch lower upper st)
  have "tso_inv (view (bucket c) tso_counter_key)
      ((nodes c)(n := \<lparr>node_state = st, node_res = Idle\<rparr>)) (issued c)"
    using install(2,3) by (intro tso_inv_shrink [OF I])
      (auto simp: owned_def held_def pending_def install_reservation_def split: if_splits)
  with install(1) show ?thesis by (simp add: cluster_inv_def)
next
  note I = inv [unfolded cluster_inv_def]
  case (stale n min_ts epoch lower upper)
  then show ?thesis using tso_inv_move [OF I] by (simp add: cluster_inv_def reservation_places)
next
  case (connect initial_ts st s n)
  then show ?thesis using connect_keeps_inv [OF laws inv connect(2)] by simp
next
  case (elsewhere s)
  with inv show ?thesis by (simp add: cluster_inv_def)
qed

lemma tso_reachable_inv:
  assumes "tso_reachable view kv batch_size c" "kv_laws view kv" shows "cluster_inv view c"
  using assms(1)
proof induction
  case (init c)
  then show ?case
    by (auto simp: tso_init_def cluster_inv_def tso_inv_def counter_ok_def snapshot_ok_def
        owned_def held_def pending_def tso_node_new_def batch_state_new_def)
next
  case (step c c')
  then show ?case using tso_step_inv assms(2) by blast
qed

section \<open>Properties\<close>

text \<open>
  C1. In every reachable state of the cluster, over any bucket that keeps its
  revision laws, all timestamps issued so far by all nodes are different, and the
  timestamps of each node were issued in increasing order.
\<close>

theorem tso_timestamps_unique:
  assumes "kv_laws view kv" "tso_reachable view kv batch_size c"
  shows "distinct (map snd (issued c)) \<and>
         sorted_wrt (\<lambda>(n, t) (n', t'). n = n' \<longrightarrow> t < t') (issued c)"
  using tso_reachable_inv [OF assms(2,1)] by (simp add: cluster_inv_def tso_inv_def)

text \<open>A run of one node: connect, reserve 1000 timestamps from 100, assign two.\<close>

lemma tso_run_connects:
  "\<exists>c. tso_reachable mem_view mem_kv 1000 c \<and> issued c = [] \<and> nodes c 0 = tso_node_new \<and>
     bucket c = ([(tso_counter_key, \<lparr>ke_value = to_be_bytes (100 :: u64), ke_revision = 1,
        ke_operation = KvPut\<rparr>)], 1)"
proof -
  have "tso_reachable mem_view mem_kv 1000
      \<lparr>bucket = ([], 0), nodes = \<lambda>_. tso_node_new, issued = []\<rparr>"
    by (rule tso_reachable.init) (simp add: tso_init_def mem_view_def)
  from tso_reachable.step [OF this tso_step.connect [where n = 0 and initial_ts = 100]]
  show ?thesis
    by (auto simp: tso_connect_def mem_kv_def mem_live_def mem_view_def mem_put_def Let_def
        tso_node_new_def intro!: exI)
qed

lemma tso_run_reserves:
  "\<exists>c. tso_reachable mem_view mem_kv 1000 c \<and> issued c = [] \<and>
     node_state (nodes c 0) = batch_state_new\<lparr>current := 100, upper_bound := 1100\<rparr>"
proof -
  let ?e = "\<lparr>ke_value = to_be_bytes (100 :: u64), ke_revision = 1, ke_operation = KvPut\<rparr>"
  note step = tso_reachable.step
  note defs = batch_state_new_def tso_node_new_def mem_view_def mem_kv_def local_min_next_from_floor_def
    ts_succ_def succ_opt_def ts_min_def ts_max_def reserved_batch_can_satisfy_local_floor_def
    next_ts_from_reserved_batch_def Let_def tso_max_committed_key_def tso_counter_key_def
  from tso_run_connects obtain c0 where c0: "tso_reachable mem_view mem_kv 1000 c0" "issued c0 = []"
    "nodes c0 0 = tso_node_new" "bucket c0 = ([(tso_counter_key, ?e)], 1)" by blast
  obtain c1 where c1: "tso_reachable mem_view mem_kv 1000 c1" "issued c1 = []"
    "nodes c1 0 = \<lparr>node_state = batch_state_new, node_res = ReadFloor 0\<rparr>"
    "bucket c1 = ([(tso_counter_key, ?e)], 1)"
  proof
    show "tso_reachable mem_view mem_kv 1000
        (set_node c0 0 (node_state (nodes c0 0)) (loop_head (node_state (nodes c0 0)) 0))"
      by (rule step [OF c0(1) tso_step.ensure]) (simp add: c0 tso_node_new_def)
  qed (simp_all add: c0 loop_head_def try_assignable_from_reserved_batch_def defs)
  obtain c2 where c2: "tso_reachable mem_view mem_kv 1000 c2" "issued c2 = []"
    "nodes c2 0 = \<lparr>node_state = batch_state_new, node_res = HaveFloor 0 0\<rparr>"
    "bucket c2 = ([(tso_counter_key, ?e)], 1)"
  proof
    show "tso_reachable mem_view mem_kv 1000
        ((set_node c1 0 (node_state (nodes c1 0)) (after_floor 0 (Inr None)))\<lparr>bucket := bucket c1\<rparr>)"
      by (rule step [OF c1(1) tso_step.read_floor]) (simp_all add: c1 defs)
  qed (simp_all add: c1 after_floor_def committed_floor_of_def defs)
  obtain c3 where c3: "tso_reachable mem_view mem_kv 1000 c3" "issued c3 = []"
    "nodes c3 0 = \<lparr>node_state = batch_state_new, node_res = ReadCounter 0 1 0 10\<rparr>"
    "bucket c3 = ([(tso_counter_key, ?e)], 1)"
  proof
    show "tso_reachable mem_view mem_kv 1000 (set_node c2 0 batch_state_new (after_plan 0 (Inr (Some (1, 0)))))"
    proof (rule step [OF c2(1) tso_step.plan])
      show "node_res (nodes c2 0) = HaveFloor 0 0" by (simp add: c2)
      have "refresh_committed_floor batch_state_new 0 = batch_state_new"
        by (simp add: refresh_committed_floor_def batch_state_new_def ts_min_def)
      then show "plan_reservation (node_state (nodes c2 0)) 0 0 = (Inr (Some (1, 0)), batch_state_new)"
        by (simp add: c2 plan_reservation_def defs)
    qed
  qed (simp_all add: c2 after_plan_def)
  obtain c4 where c4: "tso_reachable mem_view mem_kv 1000 c4" "issued c4 = []"
    "nodes c4 0 = \<lparr>node_state = batch_state_new, node_res = HaveEntry 0 1 0 9 (Some ?e)\<rparr>"
    "bucket c4 = ([(tso_counter_key, ?e)], 1)"
  proof
    show "tso_reachable mem_view mem_kv 1000
        ((set_node c3 0 (node_state (nodes c3 0))
          (case (Inr (Some ?e) :: kv_error + kv_entry option) of Inl _ \<Rightarrow> Idle | Inr e \<Rightarrow> HaveEntry 0 1 0 9 e))\<lparr>bucket := bucket c3\<rparr>)"
      by (rule step [OF c3(1) tso_step.read_counter]) (simp_all add: c3 mem_kv_def mem_view_def)
  qed (simp_all add: c3)
  obtain c5 where c5: "tso_reachable mem_view mem_kv 1000 c5" "issued c5 = []"
    "nodes c5 0 = \<lparr>node_state = batch_state_new, node_res = Reserved 0 0 100 1100\<rparr>"
  proof
    let ?b = "((tso_counter_key, \<lparr>ke_value = to_be_bytes (1100 :: u64), ke_revision = 2,
        ke_operation = KvPut\<rparr>) # fst (bucket c4), 2 :: u64)"
    show "tso_reachable mem_view mem_kv 1000
        ((set_node c4 0 (node_state (nodes c4 0))
          (case (Inr 2 :: kv_error + u64) of Inr _ \<Rightarrow> Reserved 0 0 100 1100 | Inl _ \<Rightarrow> ReadCounter 0 1 0 9))
          \<lparr>bucket := ?b\<rparr>)"
    proof (rule step [OF c4(1) tso_step.swap])
      show "node_res (nodes c4 0) = HaveEntry 0 1 0 9 (Some ?e)" by (simp add: c4)
      show "reserve_compute 1000 1 (Some ?e) = Inr (to_be_bytes (1100 :: u64), 1, 100, 1100)"
        by (simp add: reserve_compute_def batch_lower_bound_def checked_add_def)
      show "kv_update_op mem_kv tso_counter_key (to_be_bytes (1100 :: u64)) 1 (bucket c4) = (Inr 2, ?b)"
        by (simp add: c4 mem_kv_def mem_view_def mem_put_def Let_def)
    qed
  qed (simp_all add: c4)
  show ?thesis
  proof (intro exI conjI)
    show "tso_reachable mem_view mem_kv 1000
        (set_node c5 0 (batch_state_new\<lparr>current := 100, upper_bound := 1100\<rparr>) Idle)"
    proof (rule step [OF c5(1) tso_step.install])
      show "node_res (nodes c5 0) = Reserved 0 0 100 1100" by (simp add: c5)
      show "install_reservation (node_state (nodes c5 0)) 0 100 1100 =
          Some (batch_state_new\<lparr>current := 100, upper_bound := 1100\<rparr>)"
        by (simp add: c5 install_reservation_def batch_state_new_def)
    qed
  qed (simp_all add: c5)
qed

theorem tso_timestamps_unique_witness:
  "\<exists>c. tso_reachable mem_view mem_kv 1000 c \<and> map snd (issued c) = [100, 101] \<and>
       distinct (map snd (issued c))"
proof -
  note assign_defs = try_assign_from_reserved_batch_def local_min_next_from_floor_def ts_succ_def
    succ_opt_def ts_max_def ts_min_def next_ts_from_reserved_batch_def Let_def ts_from_u64_def
    batch_state_new_def
  from tso_run_reserves obtain c where c: "tso_reachable mem_view mem_kv 1000 c" "issued c = []"
    "node_state (nodes c 0) = batch_state_new\<lparr>current := 100, upper_bound := 1100\<rparr>" by blast
  let ?c1 = "(set_node c 0 (batch_state_new\<lparr>current := 101, upper_bound := 1100\<rparr>)
      (node_res (nodes c 0)))\<lparr>issued := issued c @ [(0, 100)]\<rparr>"
  have c1: "tso_reachable mem_view mem_kv 1000 ?c1"
    by (rule tso_reachable.step [OF c(1) tso_step.assign [where min_ts = 0]])
       (simp add: c assign_defs)
  let ?c2 = "(set_node ?c1 0 (batch_state_new\<lparr>current := 102, upper_bound := 1100\<rparr>)
      (node_res (nodes ?c1 0)))\<lparr>issued := issued ?c1 @ [(0, 101)]\<rparr>"
  have c2: "tso_reachable mem_view mem_kv 1000 ?c2"
    by (rule tso_reachable.step [OF c1 tso_step.assign [where min_ts = 0]])
       (simp add: c assign_defs)
  from tso_timestamps_unique [OF mem_kv_laws c2] c(2) c2 show ?thesis by (intro exI [of _ ?c2]) simp
qed

end
