(* ===== verification/TableNumbers.thy ===== *)
theory TableNumbers
  imports KeyValueStore
begin

text \<open>
  Table numbers, from \<open>crates/value/src/table_name.rs\<close>, and their cluster-wide
  allocation, from \<open>crates/database/src/table_number_allocator.rs\<close>.  Allocation is
  the compare-and-swap loop of \<open>KeyValueStore\<close>; as for timestamps, a second model
  cuts the loop at its awaits and lets any number of callers interleave.
\<close>

section \<open>Table numbers\<close>

type_synonym table_number = u32

datatype table_number_error =
    TableNumberZero
  | TableNumberOverflow
  | TableNumberReadFailed
  | TableNumberMissing
  | TableNumberInvalid
  | TableNumberExhausted

definition table_number_try_from :: "u32 \<Rightarrow> table_number_error + table_number" where
  "table_number_try_from v = (if v > 0 then Inr v else Inl TableNumberZero)"

definition table_number_increment :: "table_number \<Rightarrow> table_number_error + table_number" where
  "table_number_increment n =
     (case checked_add n 1 of None \<Rightarrow> Inl TableNumberOverflow | Some m \<Rightarrow> Inr m)"

definition num_reserved_system_table_numbers :: u32 where
  "num_reserved_system_table_numbers = 10000"

definition first_user_table_number :: "table_number_error + table_number" where
  "first_user_table_number =
     (case table_number_try_from num_reserved_system_table_numbers of
        Inl e \<Rightarrow> Inl e | Inr n \<Rightarrow> table_number_increment n)"

section \<open>Allocation\<close>

definition local_next_user_table_number :: "table_number \<Rightarrow> table_number_error + table_number" where
  "local_next_user_table_number local_floor = Inr local_floor"

definition user_table_number_counter_key :: string where
  "user_table_number_counter_key = ''user_table_number_counter''"

definition table_number_connect ::
  "'w kv_store \<Rightarrow> 'w \<Rightarrow> (table_number_error + unit) \<times> 'w" where
  "table_number_connect kv w =
     (case first_user_table_number of
        Inl e \<Rightarrow> (Inl e, w)
      | Inr initial \<Rightarrow>
          (Inr (), snd (kv_create_op kv user_table_number_counter_key (to_be_bytes initial) w)))"

definition allocate_compute ::
  "table_number \<Rightarrow> kv_entry option \<Rightarrow> (table_number_error + u32) + u8 list \<times> u64 \<times> u32" where
  "allocate_compute local_floor entry =
     (case entry of
        None \<Rightarrow> Inl (Inl TableNumberMissing)
      | Some e \<Rightarrow>
          (case from_be_bytes (ke_value e) of
             None \<Rightarrow> Inl (Inl TableNumberInvalid)
           | Some counter \<Rightarrow>
               let candidate = max counter local_floor in
               (case checked_add candidate 1 of
                  None \<Rightarrow> Inl (Inl TableNumberOverflow)
                | Some next \<Rightarrow> Inr (to_be_bytes next, ke_revision e, candidate))))"

definition next_user_table_number ::
  "'w kv_store \<Rightarrow> table_number \<Rightarrow> 'w \<Rightarrow> (table_number_error + table_number) \<times> 'w" where
  "next_user_table_number kv local_floor w =
     (case cas_retry 10 kv user_table_number_counter_key TableNumberReadFailed TableNumberExhausted
             (\<lambda>_. None) (\<lambda>_. allocate_compute local_floor) w of
        (Inl e, w1) \<Rightarrow> (Inl e, w1)
      | (Inr candidate, w1) \<Rightarrow> (table_number_try_from candidate, w1))"

section \<open>Interleaved callers\<close>

text \<open>
  A caller is between calls or holds the entry it read for its floor.  A failed
  swap sends it back to the read; giving up after ten attempts is never reading
  again.
\<close>

record 's alloc_cluster =
  alloc_bucket :: 's
  alloc_pc :: "nat \<Rightarrow> (table_number \<times> kv_entry option) option"
  allocated :: "table_number list"

inductive alloc_step :: "('s \<Rightarrow> kv_view) \<Rightarrow> 's kv_store \<Rightarrow> 's alloc_cluster \<Rightarrow> 's alloc_cluster \<Rightarrow> bool"
  for view kv where
  connect: "table_number_connect kv (alloc_bucket c) = (r, s) \<Longrightarrow>
    alloc_step view kv c (c\<lparr>alloc_bucket := s\<rparr>)"
| read: "kv_entry_op kv user_table_number_counter_key (alloc_bucket c) = (Inr e, s) \<Longrightarrow>
    alloc_step view kv c
      (c\<lparr>alloc_bucket := s, alloc_pc := (alloc_pc c)(n := Some (local_floor, e))\<rparr>)"
| swap: "alloc_pc c n = Some (local_floor, e) \<Longrightarrow>
    allocate_compute local_floor e = Inr (bytes, revn, candidate) \<Longrightarrow>
    kv_update_op kv user_table_number_counter_key bytes revn (alloc_bucket c) = (r, s) \<Longrightarrow>
    alloc_step view kv c
      (c\<lparr>alloc_bucket := s, alloc_pc := (alloc_pc c)(n := None),
         allocated := (case r of Inr _ \<Rightarrow> allocated c @ [candidate] | Inl _ \<Rightarrow> allocated c)\<rparr>)"
| give_up: "alloc_step view kv c (c\<lparr>alloc_pc := (alloc_pc c)(n := None)\<rparr>)"
| elsewhere: "view s user_table_number_counter_key = view (alloc_bucket c) user_table_number_counter_key \<Longrightarrow>
    alloc_step view kv c (c\<lparr>alloc_bucket := s\<rparr>)"

inductive alloc_reachable :: "('s \<Rightarrow> kv_view) \<Rightarrow> 's kv_store \<Rightarrow> 's alloc_cluster \<Rightarrow> bool"
  for view kv where
  init: "view (alloc_bucket c) user_table_number_counter_key = None \<Longrightarrow>
    alloc_pc c = (\<lambda>_. None) \<Longrightarrow> allocated c = [] \<Longrightarrow> alloc_reachable view kv c"
| step: "alloc_reachable view kv c \<Longrightarrow> alloc_step view kv c c' \<Longrightarrow> alloc_reachable view kv c'"

definition alloc_counter :: "kv_entry option \<Rightarrow> nat" where
  "alloc_counter eo = (case eo of None \<Rightarrow> 0
     | Some e \<Rightarrow> (case from_be_bytes (ke_value e) of None \<Rightarrow> 0 | Some (v :: u32) \<Rightarrow> unat v))"

definition alloc_inv ::
  "kv_entry option \<Rightarrow> (nat \<Rightarrow> (table_number \<times> kv_entry option) option) \<Rightarrow> table_number list \<Rightarrow> bool" where
  "alloc_inv eo pc iss \<longleftrightarrow>
     (\<forall>e. eo = Some e \<longrightarrow> ke_operation e = KvPut \<and> 10001 \<le> alloc_counter eo) \<and>
     (\<forall>n f e. pc n = Some (f, Some e) \<longrightarrow>
        (\<exists>cur. eo = Some cur \<and> (ke_revision e < ke_revision cur \<or> e = cur))) \<and>
     (\<forall>t \<in> set iss. 10001 \<le> unat t \<and> unat t < alloc_counter eo) \<and> distinct iss"

lemma alloc_inv_snapshots:
  assumes "alloc_inv eo pc iss" "eo' = Some e'" "\<forall>e. eo = Some e \<longrightarrow> ke_revision e < ke_revision e'"
    "pc n = Some (f, Some e)"
  shows "\<exists>cur. eo' = Some cur \<and> (ke_revision e < ke_revision cur \<or> e = cur)"
proof -
  from assms(1,4) obtain cur where cur: "eo = Some cur" "ke_revision e < ke_revision cur \<or> e = cur"
    unfolding alloc_inv_def by blast
  with assms(3) have "ke_revision cur < ke_revision e'" by blast
  with cur(2) have "ke_revision e < ke_revision e'" by auto
  with assms(2) show ?thesis by blast
qed

lemma first_user_table_number_value: "first_user_table_number = Inr 10001"
  by (simp add: first_user_table_number_def table_number_try_from_def table_number_increment_def
      num_reserved_system_table_numbers_def checked_add_def)

lemma allocate_compute_Inr:
  assumes "allocate_compute f eo = Inr (bytes, revn, t)"
  obtains e c and nx :: u32 where "eo = Some e" "from_be_bytes (ke_value e) = Some c" "revn = ke_revision e"
    "t = max c f" "bytes = to_be_bytes nx" "unat nx = unat t + 1"
proof -
  from assms obtain e c nx where *: "eo = Some e" "from_be_bytes (ke_value e) = Some c"
    "checked_add (max c f) 1 = Some nx" "bytes = to_be_bytes nx" "revn = ke_revision e" "t = max c f"
    by (auto simp: allocate_compute_def Let_def split: option.splits)
  from checked_add_Some [OF *(3)] * show thesis by (intro that) simp_all
qed

lemma alloc_counter_write:
  assumes "kv_written v k (to_be_bytes (x :: u32)) KvPut v'"
  obtains e where "v' k = Some e" "ke_operation e = KvPut" "alloc_counter (v' k) = unat x"
    "\<forall>e0. v k = Some e0 \<longrightarrow> ke_revision e0 < ke_revision e"
  using assms by (auto simp: kv_written_def alloc_counter_def)

lemma alloc_swap_inv:
  assumes laws: "kv_laws view kv" and inv: "alloc_inv (view s key) pc iss"
    and key: "key = user_table_number_counter_key"
    and pc: "pc n = Some (f, eo)" and comp: "allocate_compute f eo = Inr (bytes, revn, t)"
    and upd: "kv_update_op kv key bytes revn s = (r, s')"
  shows "alloc_inv (view s' key) (pc(n := None)) (case r of Inr _ \<Rightarrow> iss @ [t] | Inl _ \<Rightarrow> iss)"
proof -
  from comp obtain e c and nx :: u32 where e: "eo = Some e" "from_be_bytes (ke_value e) = Some c"
    "revn = ke_revision e" "t = max c f" "bytes = to_be_bytes nx" "unat nx = unat t + 1"
    by (rule allocate_compute_Inr)
  from laws upd have "((\<exists>e. view s key = Some e \<and> ke_revision e = revn) \<and>
      kv_written (view s) key bytes KvPut (view s')) \<or> (view s' = view s \<and> \<not> is_ok r)"
    unfolding kv_laws_def by blast
  then show ?thesis
  proof
    assume "view s' = view s \<and> \<not> is_ok r"
    with inv show ?thesis by (cases r) (auto simp: alloc_inv_def)
  next
    assume w: "(\<exists>e. view s key = Some e \<and> ke_revision e = revn) \<and>
      kv_written (view s) key bytes KvPut (view s')"
    then obtain e0 where e0: "view s key = Some e0" "ke_revision e0 = revn" by blast
    from inv pc e(1) obtain cur where "view s key = Some cur" "ke_revision e < ke_revision cur \<or> e = cur"
      unfolding alloc_inv_def by blast
    with e0 e(3) have "e0 = e" by auto
    with e0 e have cnt: "alloc_counter (view s key) = unat c" by (simp add: alloc_counter_def)
    with inv e0 have low: "10001 \<le> unat c" by (auto simp: alloc_inv_def)
    have ct: "unat c \<le> unat t" using e(4) by (simp add: word_le_nat_alt [symmetric])
    from w e(5) have "kv_written (view s) key (to_be_bytes nx) KvPut (view s')" by simp
    then obtain e1 where e1: "view s' key = Some e1" "ke_operation e1 = KvPut"
      "alloc_counter (view s' key) = unat nx" "\<forall>e0. view s key = Some e0 \<longrightarrow> ke_revision e0 < ke_revision e1"
      by (rule alloc_counter_write)
    have old: "10001 \<le> unat x \<and> unat x < unat t" if "x \<in> set iss" for x
      using that inv cnt ct unfolding alloc_inv_def by fastforce
    have fresh: "t \<notin> set iss" using old by blast
    have snaps: "\<forall>k f e. (pc(n := None)) k = Some (f, Some e) \<longrightarrow>
        (\<exists>cur. view s' key = Some cur \<and> (ke_revision e < ke_revision cur \<or> e = cur))"
      using alloc_inv_snapshots [OF inv e1(1,4)] by auto
    have dist: "distinct iss" using inv by (simp add: alloc_inv_def)
    have bounds: "\<forall>x \<in> set (iss @ [t]). 10001 \<le> unat x \<and> unat x < alloc_counter (view s' key)"
      using old e1(3) e(6) low ct by fastforce
    have cur: "\<forall>e. view s' key = Some e \<longrightarrow> ke_operation e = KvPut \<and> 10001 \<le> alloc_counter (view s' key)"
      using e1 e(6) low ct by simp
    show ?thesis
    proof (cases r)
      case (Inl x)
      show ?thesis unfolding alloc_inv_def Inl using cur snaps bounds dist by simp
    next
      case (Inr x)
      show ?thesis unfolding alloc_inv_def Inr using cur snaps bounds dist fresh by simp
    qed
  qed
qed

lemma alloc_connect_inv:
  assumes laws: "kv_laws view kv" and inv: "alloc_inv (view s key) pc iss"
    and key: "key = user_table_number_counter_key"
    and conn: "table_number_connect kv s = (r, s')"
  shows "alloc_inv (view s' key) pc iss"
proof -
  obtain x where cr: "kv_create_op kv key (to_be_bytes (10001 :: u32)) s = (x, s')"
    using conn by (cases "kv_create_op kv key (to_be_bytes (10001 :: u32)) s")
      (auto simp: table_number_connect_def first_user_table_number_value key)
  from laws cr have "(\<not> kv_live (view s) key \<and> kv_written (view s) key (to_be_bytes (10001 :: u32)) KvPut (view s'))
      \<or> view s' = view s" unfolding kv_laws_def by blast
  then show ?thesis
  proof
    assume w: "\<not> kv_live (view s) key \<and> kv_written (view s) key (to_be_bytes (10001 :: u32)) KvPut (view s')"
    then have none: "view s key = None"
      using inv by (cases "view s key") (auto simp: alloc_inv_def kv_live_def)
    from conjunct2 [OF w] obtain e1 where e1: "view s' key = Some e1" "ke_operation e1 = KvPut"
      "alloc_counter (view s' key) = unat (10001 :: u32)" by (rule alloc_counter_write)
    from inv none have "\<forall>n f e. pc n \<noteq> Some (f, Some e)" "iss = []"
      by (auto simp: alloc_inv_def alloc_counter_def)
    with e1 show ?thesis by (auto simp: alloc_inv_def)
  qed (use inv in simp)
qed

lemma alloc_step_inv:
  assumes "alloc_step view kv c c'" and laws: "kv_laws view kv"
    and inv: "alloc_inv (view (alloc_bucket c) user_table_number_counter_key) (alloc_pc c) (allocated c)"
  shows "alloc_inv (view (alloc_bucket c') user_table_number_counter_key) (alloc_pc c') (allocated c')"
  using assms(1)
proof cases
  case (connect r s)
  then show ?thesis using alloc_connect_inv [OF laws inv refl] by simp
next
  case (read e s n local_floor)
  with laws have "view s = view (alloc_bucket c)" "e = view (alloc_bucket c) user_table_number_counter_key"
    unfolding kv_laws_def by blast+
  with read inv show ?thesis by (auto simp: alloc_inv_def)
next
  case (swap n local_floor e bytes revn candidate r s)
  then show ?thesis using alloc_swap_inv [OF laws inv refl swap(2,3,4)] by simp
next
  case (give_up n)
  with inv show ?thesis by (auto simp: alloc_inv_def)
next
  case (elsewhere s)
  with inv show ?thesis by simp
qed

section \<open>Properties\<close>

text \<open>
  C18. Whatever the interleaving of allocators, over a bucket that keeps its
  revision laws, no user table number is handed out twice, and every number is
  above the 10000 reserved for system tables.
\<close>

theorem table_numbers_unique:
  assumes "kv_laws view kv" "alloc_reachable view kv c"
  shows "distinct (allocated c) \<and> (\<forall>t \<in> set (allocated c). 10000 < t)"
proof -
  from assms(2) have "alloc_inv (view (alloc_bucket c) user_table_number_counter_key) (alloc_pc c) (allocated c)"
  proof induction
    case (init c)
    then show ?case by (simp add: alloc_inv_def)
  next
    case (step c c')
    then show ?case using alloc_step_inv assms(1) by blast
  qed
  then show ?thesis by (auto simp: alloc_inv_def word_less_nat_alt)
qed

theorem table_numbers_unique_witness:
  "\<exists>c. alloc_reachable mem_view mem_kv c \<and> allocated c = [10001] \<and> distinct (allocated c)"
proof -
  let ?e = "\<lparr>ke_value = to_be_bytes (10001 :: u32), ke_revision = 1, ke_operation = KvPut\<rparr>"
  let ?k = user_table_number_counter_key
  let ?c0 = "\<lparr>alloc_bucket = ([], 0), alloc_pc = \<lambda>_. None, allocated = []\<rparr>"
  have c0: "alloc_reachable mem_view mem_kv ?c0"
    by (rule alloc_reachable.init) (simp_all add: mem_view_def)
  have "table_number_connect mem_kv ([], 0) = (Inr (), ([(?k, ?e)], 1))"
    by (simp add: table_number_connect_def first_user_table_number_value mem_kv_def mem_live_def
        mem_view_def mem_put_def Let_def)
  then have c1: "alloc_reachable mem_view mem_kv (?c0\<lparr>alloc_bucket := ([(?k, ?e)], 1)\<rparr>)"
    by (intro alloc_reachable.step [OF c0] alloc_step.connect) simp
  have "kv_entry_op mem_kv ?k ([(?k, ?e)], 1) = (Inr (Some ?e), ([(?k, ?e)], 1))"
    by (simp add: mem_kv_def mem_view_def)
  then have c2: "alloc_reachable mem_view mem_kv
      (?c0\<lparr>alloc_bucket := ([(?k, ?e)], 1), alloc_pc := (\<lambda>_. None)(0 := Some (1, Some ?e))\<rparr>)"
    using alloc_reachable.step [OF c1 alloc_step.read [where n = 0 and local_floor = 1]] by simp
  let ?b = "((?k, \<lparr>ke_value = to_be_bytes (10002 :: u32), ke_revision = 2, ke_operation = KvPut\<rparr>) # [(?k, ?e)], 2)"
  have "allocate_compute 1 (Some ?e) = Inr (to_be_bytes (10002 :: u32), 1, 10001)"
    by (simp add: allocate_compute_def checked_add_def)
  moreover have "kv_update_op mem_kv ?k (to_be_bytes (10002 :: u32)) 1 ([(?k, ?e)], 1) = (Inr 2, ?b)"
    by (simp add: mem_kv_def mem_view_def mem_put_def Let_def)
  ultimately have "alloc_reachable mem_view mem_kv
      (?c0\<lparr>alloc_bucket := ?b, alloc_pc := (\<lambda>_. None)(0 := Some (1, Some ?e), 0 := None), allocated := [10001]\<rparr>)"
    using alloc_reachable.step [OF c2 alloc_step.swap [where n = 0 and r = "Inr 2"]] by simp
  then obtain c where c: "alloc_reachable mem_view mem_kv c" "allocated c = [10001]" by fastforce
  from table_numbers_unique [OF mem_kv_laws c(1)] c show ?thesis by blast
qed

text \<open>
  A call that succeeds returns a number at or above the caller's floor,
  whatever the bucket does.
\<close>

lemma table_number_at_floor:
  assumes "next_user_table_number kv local_floor w = (Inr t, w')"
  shows "local_floor \<le> t \<and> 0 < t"
proof -
  from assms obtain w1 where c: "cas_retry 10 kv user_table_number_counter_key TableNumberReadFailed
      TableNumberExhausted (\<lambda>_. None) (\<lambda>_. allocate_compute local_floor) w = (Inr t, w1)" and "0 < t"
    by (auto simp: next_user_table_number_def table_number_try_from_def split: prod.splits sum.splits if_splits)
  from cas_retry_Inr [OF c] obtain eo where "allocate_compute local_floor eo = Inl (Inr t) \<or>
      (\<exists>b r. allocate_compute local_floor eo = Inr (b, r, t))" by blast
  then have "local_floor \<le> t"
    by (auto simp: allocate_compute_def Let_def split: option.splits)
  with \<open>0 < t\<close> show ?thesis by simp
qed

end
