(* ===== verification/Identifiers.thy ===== *)
theory Identifiers
  imports Prelude
begin

text \<open>
  Text handling shared by the configuration parsers, and the identifier and
  field name checks of \<open>crates/convex/sync_types/src/identifier.rs\<close>.  A Rust
  \<open>str\<close> is the list of its UTF-8 bytes.  \<open>trim\<close> removes ASCII white space, which is
  what it does on the ASCII configuration strings it is used on.
\<close>

section \<open>Splitting, trimming, numbers\<close>

fun split_on :: "char \<Rightarrow> string \<Rightarrow> string list" where
  "split_on d [] = [[]]"
| "split_on d (c # cs) =
     (if c = d then [] # split_on d cs
      else case split_on d cs of [] \<Rightarrow> [[c]] | p # ps \<Rightarrow> (c # p) # ps)"

fun split_once :: "char \<Rightarrow> string \<Rightarrow> (string \<times> string) option" where
  "split_once d [] = None"
| "split_once d (c # cs) =
     (if c = d then Some ([], cs)
      else map_option (\<lambda>(a, b). (c # a, b)) (split_once d cs))"

definition is_whitespace :: "char \<Rightarrow> bool" where
  "is_whitespace c \<longleftrightarrow> of_char c = (32 :: nat) \<or> (9 \<le> (of_char c :: nat) \<and> (of_char c :: nat) \<le> 13)"

definition trim :: "string \<Rightarrow> string" where
  "trim s = rev (dropWhile is_whitespace (rev (dropWhile is_whitespace s)))"

definition is_digit :: "char \<Rightarrow> bool" where
  "is_digit c \<longleftrightarrow> 48 \<le> (of_char c :: nat) \<and> (of_char c :: nat) \<le> 57"

definition digits_value :: "string \<Rightarrow> nat" where
  "digits_value s = foldl (\<lambda>a c. a * 10 + (of_char c - 48)) 0 s"

text \<open>\<open>str::parse::<u32>\<close>: an optional plus sign, then decimal digits within range.\<close>

definition parse_u32 :: "string \<Rightarrow> u32 option" where
  "parse_u32 s =
     (let ds = (if s \<noteq> [] \<and> hd s = CHR ''+'' then tl s else s) in
      if ds \<noteq> [] \<and> list_all is_digit ds \<and> digits_value ds < 2 ^ 32
      then Some (word_of_nat (digits_value ds)) else None)"

section \<open>Identifiers\<close>

datatype ident_error =
    IdentEmpty
  | IdentFirstChar char
  | IdentChar char
  | IdentTooLong nat
  | IdentUnderscores

definition max_identifier_len :: nat where
  "max_identifier_len = 64"

definition is_ascii_alphabetic :: "char \<Rightarrow> bool" where
  "is_ascii_alphabetic c \<longleftrightarrow>
     65 \<le> (of_char c :: nat) \<and> (of_char c :: nat) \<le> 90 \<or>
     97 \<le> (of_char c :: nat) \<and> (of_char c :: nat) \<le> 122"

definition is_ascii_alphanumeric :: "char \<Rightarrow> bool" where
  "is_ascii_alphanumeric c \<longleftrightarrow> is_ascii_alphabetic c \<or> is_digit c"

definition is_ident_char :: "char \<Rightarrow> bool" where
  "is_ident_char c \<longleftrightarrow> is_ascii_alphanumeric c \<or> c = CHR ''_''"

definition check_valid_identifier :: "string \<Rightarrow> ident_error + unit" where
  "check_valid_identifier s =
     (case s of
        [] \<Rightarrow> Inl IdentEmpty
      | c # cs \<Rightarrow>
          if \<not> (is_ascii_alphabetic c \<or> c = CHR ''_'') then Inl (IdentFirstChar c)
          else case find (\<lambda>c. \<not> is_ident_char c) cs of
                 Some b \<Rightarrow> Inl (IdentChar b)
               | None \<Rightarrow>
                   if length s > max_identifier_len then Inl (IdentTooLong (length s))
                   else if list_all (\<lambda>c. c = CHR ''_'') s then Inl IdentUnderscores
                   else Inr ())"

definition is_valid_identifier :: "string \<Rightarrow> bool" where
  "is_valid_identifier s = is_ok (check_valid_identifier s)"

section \<open>Field names\<close>

datatype field_name_error = FieldDollar | FieldChar char | FieldTooLong nat

definition max_field_name_length :: nat where
  "max_field_name_length = 1024"

definition is_ascii :: "char \<Rightarrow> bool" where
  "is_ascii c \<longleftrightarrow> (of_char c :: nat) < 128"

definition is_ascii_control :: "char \<Rightarrow> bool" where
  "is_ascii_control c \<longleftrightarrow> (of_char c :: nat) < 32 \<or> (of_char c :: nat) = 127"

definition bad_field_byte :: "char \<Rightarrow> bool" where
  "bad_field_byte c \<longleftrightarrow> \<not> is_ascii c \<or> is_ascii_control c"

text \<open>The vectorised check: 16 bytes at a time, then the remainder.\<close>

function chunks_ok :: "string \<Rightarrow> bool" where
  "chunks_ok s =
     (if length s \<ge> 16
      then (if map bad_field_byte (take 16 s) \<noteq> replicate 16 False then False
            else chunks_ok (drop 16 s))
      else \<not> list_ex bad_field_byte s)"
  by auto
termination
  by (relation "measure length") auto

declare chunks_ok.simps [simp del]

definition starts_with_dollar :: "string \<Rightarrow> bool" where
  "starts_with_dollar s = (case s of c # _ \<Rightarrow> c = CHR ''$'' | [] \<Rightarrow> False)"

definition is_valid_field_name :: "string \<Rightarrow> bool" where
  "is_valid_field_name s =
     (if starts_with_dollar s then False
      else if length s > max_field_name_length then False
      else chunks_ok s)"

definition check_valid_field_name_slow :: "string \<Rightarrow> field_name_error + unit" where
  "check_valid_field_name_slow s =
     (if starts_with_dollar s then Inl FieldDollar
      else case find bad_field_byte s of
             Some c \<Rightarrow> Inl (FieldChar c)
           | None \<Rightarrow>
               if length s > max_field_name_length then Inl (FieldTooLong (length s)) else Inr ())"

definition check_valid_field_name :: "string \<Rightarrow> field_name_error + unit" where
  "check_valid_field_name s =
     (if is_valid_field_name s then Inr () else check_valid_field_name_slow s)"

section \<open>Facts about text\<close>

lemma split_on_not_Nil [simp]: "split_on d s \<noteq> []"
  by (induction s) (auto split: list.splits)

lemma split_on_append:
  "d \<notin> set a \<Longrightarrow> split_on d (a @ d # b) = a # split_on d b"
  by (induction a) (auto split: list.splits)

lemma split_on_no_delim: "d \<notin> set a \<Longrightarrow> split_on d a = [a]"
  by (induction a) (auto split: list.splits)

text \<open>Splitting undoes joining.\<close>

fun join_with :: "char \<Rightarrow> string list \<Rightarrow> string" where
  "join_with d [] = []"
| "join_with d [p] = p"
| "join_with d (p # q # ps) = p @ d # join_with d (q # ps)"

lemma split_on_join:
  "ps \<noteq> [] \<Longrightarrow> \<forall>p \<in> set ps. d \<notin> set p \<Longrightarrow> split_on d (join_with d ps) = ps"
  by (induction d ps rule: join_with.induct) (auto simp: split_on_append split_on_no_delim)

lemma split_once_append: "d \<notin> set a \<Longrightarrow> split_once d (a @ d # b) = Some (a, b)"
  by (induction a) auto

lemma trim_id:
  assumes "s \<noteq> []" "\<not> is_whitespace (hd s)" "\<not> is_whitespace (last s)"
  shows "trim s = s"
proof -
  from assms have "dropWhile is_whitespace s = s" by (cases s) auto
  moreover from assms have "dropWhile is_whitespace (rev s) = rev s"
    by (cases s rule: rev_cases) auto
  ultimately show ?thesis by (simp add: trim_def)
qed

lemma trim_no_whitespace: "\<forall>c \<in> set s. \<not> is_whitespace c \<Longrightarrow> trim s = s"
  by (cases "s = []") (auto simp: trim_def [of "[]"] intro!: trim_id)

text \<open>Decimal notation, and that \<open>parse_u32\<close> reads it back.\<close>

fun decimal :: "nat \<Rightarrow> string" where
  "decimal n = (if n < 10 then [char_of (48 + n)] else decimal (n div 10) @ [char_of (48 + n mod 10)])"

declare decimal.simps [simp del]

lemma digit_char: "is_digit (char_of (48 + n mod 10))" "(of_char (char_of (48 + n mod 10) :: char) :: nat) = 48 + n mod 10"
  for n :: nat
proof -
  have "n mod 10 < 10" by simp
  then have "48 + n mod 10 < 58" by linarith
  then show "(of_char (char_of (48 + n mod 10) :: char) :: nat) = 48 + n mod 10" by simp
  then show "is_digit (char_of (48 + n mod 10))" using \<open>48 + n mod 10 < 58\<close> by (simp add: is_digit_def)
qed

lemma digits_value_append:
  "digits_value (a @ [c]) = digits_value a * 10 + (of_char c - 48)"
  by (simp add: digits_value_def)

lemma decimal_digits:
  "decimal n \<noteq> [] \<and> list_all is_digit (decimal n) \<and> digits_value (decimal n) = n"
proof (induction n rule: decimal.induct)
  case (1 n)
  show ?case
  proof (cases "n < 10")
    case True
    then have "n mod 10 = n" by simp
    with True digit_char [of n] show ?thesis
      by (subst (1 2 3) decimal.simps) (simp add: digits_value_def)
  next
    case False
    with "1.IH" [OF False] digit_char [of n] show ?thesis
      by (subst (1 2 3) decimal.simps) (simp add: digits_value_append)
  qed
qed

lemma parse_u32_decimal: "parse_u32 (decimal (unat w)) = Some w"
proof -
  note d = decimal_digits [of "unat w"]
  have "unat w < 2 ^ 32" using unsigned_less [of w] by simp
  moreover have "hd (decimal (unat w)) \<noteq> CHR ''+''"
    using d by (cases "decimal (unat w)") (auto simp: is_digit_def)
  ultimately show ?thesis using d by (simp add: parse_u32_def Let_def)
qed

lemma map_replicate_False: "map P xs = replicate (length xs) False \<longleftrightarrow> \<not> list_ex P xs"
  by (induction xs) auto

lemma digit_not_special:
  "is_digit c \<Longrightarrow> \<not> is_whitespace c \<and> c \<noteq> CHR '','' \<and> c \<noteq> CHR ''='' \<and> c \<noteq> CHR ''|''"
  by (auto simp: is_digit_def is_whitespace_def)

lemma ident_char_not_special:
  "is_ident_char c \<Longrightarrow> \<not> is_whitespace c \<and> c \<noteq> CHR '','' \<and> c \<noteq> CHR ''='' \<and> c \<noteq> CHR ''|''"
  by (auto simp: is_ident_char_def is_ascii_alphanumeric_def is_ascii_alphabetic_def is_digit_def
      is_whitespace_def)

text \<open>
  A string is accepted as an identifier exactly when it has 1 to 64
  characters, all letters, digits or underscores, does not start with a digit,
  and is not made of underscores only.
\<close>

lemma identifier_language:
  "is_valid_identifier s \<longleftrightarrow>
     s \<noteq> [] \<and> length s \<le> 64 \<and> list_all is_ident_char s \<and> \<not> is_digit (hd s) \<and>
     \<not> list_all (\<lambda>c. c = CHR ''_'') s"
proof (cases s)
  case Nil
  then show ?thesis by (simp add: is_valid_identifier_def check_valid_identifier_def)
next
  case (Cons c cs)
  have first: "is_ascii_alphabetic c \<or> c = CHR ''_'' \<longleftrightarrow> is_ident_char c \<and> \<not> is_digit c"
    by (auto simp: is_ident_char_def is_ascii_alphanumeric_def is_ascii_alphabetic_def is_digit_def)
  have rest: "find (\<lambda>c. \<not> is_ident_char c) cs = None \<longleftrightarrow> list_all is_ident_char cs"
    by (auto simp: find_None_iff list_all_iff)
  show ?thesis
    using first rest
    by (auto simp: Cons is_valid_identifier_def check_valid_identifier_def max_identifier_len_def
        split: option.splits)
qed

section \<open>Properties\<close>

text \<open>
  The chunked field name check accepts exactly the strings that the
  character-by-character check accepts, so \<open>check_valid_field_name\<close> gives the
  answer of the slow check on every string.
\<close>

lemma field_name_fast_path:
  "check_valid_field_name s = check_valid_field_name_slow s"
proof -
  have chunks: "chunks_ok s \<longleftrightarrow> \<not> list_ex bad_field_byte s" for s
  proof (induction s rule: chunks_ok.induct)
    case (1 s)
    show ?case
    proof (cases "length s \<ge> 16")
      case True
      have "map bad_field_byte (take 16 s) = replicate 16 False \<longleftrightarrow> \<not> list_ex bad_field_byte (take 16 s)"
        using map_replicate_False [of bad_field_byte "take 16 s"] True by simp
      moreover have "list_ex bad_field_byte s \<longleftrightarrow>
          list_ex bad_field_byte (take 16 s) \<or> list_ex bad_field_byte (drop 16 s)"
        by (metis append_take_drop_id list_ex_append)
      ultimately show ?thesis using 1 True by (subst chunks_ok.simps) auto
    next
      case False
      then show ?thesis by (subst chunks_ok.simps) simp
    qed
  qed
  have "find bad_field_byte s = None \<longleftrightarrow> \<not> list_ex bad_field_byte s"
    by (auto simp: find_None_iff list_ex_iff)
  then show ?thesis
    by (auto simp: check_valid_field_name_def is_valid_field_name_def chunks
        check_valid_field_name_slow_def split: option.splits)
qed

end
