(* ===== verification/Partition.thy ===== *)
theory Partition
  imports Identifiers KeyValueStore
begin

text \<open>
  Table placement, from \<open>crates/database/src/partition.rs\<close>: the static
  configuration, the versioned placement metadata and its replicated store, the
  refreshable state of a node, and the routing of tables to partitions.  The
  JSON codec of the store is a parameter, a pair of functions \<open>enc\<close> and \<open>dec\<close>
  whose law is that decoding undoes encoding.
\<close>

section \<open>Data\<close>

type_synonym table_name = string
type_synonym partition_id = u32
type_synonym placement_version = u64

definition default_partition :: partition_id where "default_partition = 0"
definition static_version :: placement_version where "static_version = 0"

datatype placement_source = StaticConfig | Replicated

datatype placement_target = Table table_name

primrec target_table :: "placement_target \<Rightarrow> table_name" where
  "target_table (Table t) = t"

lemma target_table_inject [simp]: "target_table a = target_table b \<longleftrightarrow> a = b"
  by (cases a; cases b) simp

text \<open>The derived \<open>Ord\<close> compares table names.\<close>

instantiation placement_target :: linorder
begin

definition less_eq_placement_target :: "placement_target \<Rightarrow> placement_target \<Rightarrow> bool" where
  "less_eq_placement_target a b = (target_table a \<le> target_table b)"

definition less_placement_target :: "placement_target \<Rightarrow> placement_target \<Rightarrow> bool" where
  "less_placement_target a b = (target_table a < target_table b)"

instance
  by standard (auto simp: less_eq_placement_target_def less_placement_target_def
      simp flip: target_table_inject)

end

record placement_rule =
  rule_target :: placement_target
  rule_owner :: partition_id

record placement_metadata =
  pm_source :: placement_source
  pm_version :: placement_version
  pm_num_partitions :: u32
  pm_rules :: "(placement_target, partition_id) btree_map"

record partition_map =
  pmap_assignments :: "(table_name, partition_id) btree_map"
  pmap_local :: partition_id
  pmap_num_partitions :: u32
  pmap_version :: placement_version

record serialized_placement =
  sp_version :: u64
  sp_num_partitions :: u32
  sp_table_assignments :: "(string, u32) btree_map"

record placement_state =
  ps_local :: partition_id
  ps_metadata :: placement_metadata

datatype placement_error =
    PlacementTableName ident_error
  | PlacementLocalOutside
  | PlacementVersionDown
  | PlacementReadFailed
  | PlacementDecode
  | PlacementMissing

type_synonym write_source = "string option"

section \<open>Names\<close>

text \<open>\<open>TableName::from_str\<close> and \<open>is_system\<close>.\<close>

definition parse_table_name :: "string \<Rightarrow> ident_error + table_name" where
  "parse_table_name s = (case check_valid_identifier s of Inl e \<Rightarrow> Inl e | Inr _ \<Rightarrow> Inr s)"

definition is_system :: "table_name \<Rightarrow> bool" where
  "is_system t = (case t of [] \<Rightarrow> False | c # _ \<Rightarrow> c = CHR ''_'')"

section \<open>Placement metadata\<close>

text \<open>One pair of the configuration; pairs that do not parse are skipped.\<close>

definition config_pair :: "string \<Rightarrow> (placement_target \<times> partition_id) option" where
  "config_pair pair =
     (case split_once (CHR ''='') (trim pair) of
        None \<Rightarrow> None
      | Some (table, part) \<Rightarrow>
          (case (parse_table_name (trim table), parse_u32 (trim part)) of
             (Inr table_name, Some partition_id) \<Rightarrow> Some (Table table_name, partition_id)
           | _ \<Rightarrow> None))"

definition from_static_config :: "string \<Rightarrow> u32 \<Rightarrow> placement_version \<Rightarrow> placement_metadata" where
  "from_static_config table_assignments num_partitions version =
     \<lparr>pm_source = StaticConfig, pm_version = version, pm_num_partitions = num_partitions,
      pm_rules =
        (if table_assignments = [] then []
         else bt_collect (List.map_filter config_pair (split_on (CHR '','') table_assignments)))\<rparr>"

definition pm_from_partition_map :: "partition_map \<Rightarrow> placement_source \<Rightarrow> placement_metadata" where
  "pm_from_partition_map m source =
     \<lparr>pm_source = source, pm_version = pmap_version m, pm_num_partitions = pmap_num_partitions m,
      pm_rules = bt_collect (map (\<lambda>(table, owner). (Table table, owner)) (pmap_assignments m))\<rparr>"

definition from_table_assignments ::
  "placement_source \<Rightarrow> placement_version \<Rightarrow> u32 \<Rightarrow> (table_name, partition_id) btree_map \<Rightarrow>
   placement_metadata" where
  "from_table_assignments source version num_partitions assignments =
     \<lparr>pm_source = source, pm_version = version, pm_num_partitions = num_partitions,
      pm_rules = bt_collect (map (\<lambda>(table, owner). (Table table, owner)) assignments)\<rparr>"

definition placement_rules :: "placement_metadata \<Rightarrow> placement_rule list" where
  "placement_rules md =
     map (\<lambda>(target, owner). \<lparr>rule_target = target, rule_owner = owner\<rparr>) (pm_rules md)"

definition table_assignments :: "placement_metadata \<Rightarrow> (table_name, partition_id) btree_map" where
  "table_assignments md = bt_collect (map (\<lambda>(target, owner). (target_table target, owner)) (pm_rules md))"

definition into_partition_map :: "placement_metadata \<Rightarrow> partition_id \<Rightarrow> partition_map" where
  "into_partition_map md local_partition =
     \<lparr>pmap_assignments = table_assignments md, pmap_local = local_partition,
      pmap_num_partitions = pm_num_partitions md, pmap_version = pm_version md\<rparr>"

definition serialize_placement :: "placement_metadata \<Rightarrow> serialized_placement" where
  "serialize_placement md =
     \<lparr>sp_version = pm_version md, sp_num_partitions = pm_num_partitions md,
      sp_table_assignments = bt_collect (table_assignments md)\<rparr>"

definition deserialize_placement ::
  "serialized_placement \<Rightarrow> placement_error + placement_metadata" where
  "deserialize_placement sp =
     (case try_map (\<lambda>(table, part).
             case parse_table_name table of
               Inl e \<Rightarrow> Inl (PlacementTableName e)
             | Inr name \<Rightarrow> Inr (name, part)) (sp_table_assignments sp) of
        Inl e \<Rightarrow> Inl e
      | Inr pairs \<Rightarrow>
          Inr (from_table_assignments Replicated (sp_version sp) (sp_num_partitions sp)
                 (bt_collect pairs)))"

section \<open>The replicated store\<close>

definition placement_current_key :: string where "placement_current_key = ''current''"

definition decode_placement ::
  "(u8 list \<Rightarrow> serialized_placement option) \<Rightarrow> u8 list \<Rightarrow> placement_error + placement_metadata" where
  "decode_placement dec bytes =
     (case dec bytes of None \<Rightarrow> Inl PlacementDecode | Some sp \<Rightarrow> deserialize_placement sp)"

definition load_placement ::
  "(u8 list \<Rightarrow> serialized_placement option) \<Rightarrow> 'w kv_store \<Rightarrow> 'w \<Rightarrow>
   (placement_error + placement_metadata option) \<times> 'w" where
  "load_placement dec kv w =
     (case kv_entry_op kv placement_current_key w of
        (Inl _, w1) \<Rightarrow> (Inl PlacementReadFailed, w1)
      | (Inr None, w1) \<Rightarrow> (Inr None, w1)
      | (Inr (Some entry), w1) \<Rightarrow>
          (case decode_placement dec (ke_value entry) of
             Inl e \<Rightarrow> (Inl e, w1)
           | Inr md \<Rightarrow> (Inr (Some md), w1)))"

definition load_existing ::
  "(u8 list \<Rightarrow> serialized_placement option) \<Rightarrow> 'w kv_store \<Rightarrow> 'w \<Rightarrow>
   (placement_error + placement_metadata) \<times> 'w" where
  "load_existing dec kv w =
     (case load_placement dec kv w of
        (Inl e, w1) \<Rightarrow> (Inl e, w1)
      | (Inr None, w1) \<Rightarrow> (Inl PlacementMissing, w1)
      | (Inr (Some md), w1) \<Rightarrow> (Inr md, w1))"

definition ensure_initialized ::
  "(serialized_placement \<Rightarrow> u8 list) \<Rightarrow> (u8 list \<Rightarrow> serialized_placement option) \<Rightarrow>
   'w kv_store \<Rightarrow> placement_metadata \<Rightarrow> 'w \<Rightarrow> (placement_error + placement_metadata) \<times> 'w" where
  "ensure_initialized enc dec kv bootstrap w =
     (case load_placement dec kv w of
        (Inl e, w1) \<Rightarrow> (Inl e, w1)
      | (Inr (Some md), w1) \<Rightarrow> (Inr md, w1)
      | (Inr None, w1) \<Rightarrow>
          (case kv_create_op kv placement_current_key (enc (serialize_placement bootstrap)) w1 of
             (Inr _, w2) \<Rightarrow> load_existing dec kv w2
           | (Inl _, w2) \<Rightarrow> load_existing dec kv w2))"

section \<open>The node's placement state\<close>

definition validate_local_partition :: "partition_id \<Rightarrow> u32 \<Rightarrow> placement_error + unit" where
  "validate_local_partition local_partition num_partitions =
     (if local_partition < num_partitions then Inr () else Inl PlacementLocalOutside)"

definition placement_state_new ::
  "partition_id \<Rightarrow> placement_metadata \<Rightarrow> placement_error + placement_state" where
  "placement_state_new local_partition md =
     (case validate_local_partition local_partition (pm_num_partitions md) of
        Inl e \<Rightarrow> Inl e
      | Inr _ \<Rightarrow> Inr \<lparr>ps_local = local_partition, ps_metadata = md\<rparr>)"

definition placement_state_from_map :: "partition_map \<Rightarrow> placement_state" where
  "placement_state_from_map m =
     \<lparr>ps_local = pmap_local m, ps_metadata = pm_from_partition_map m StaticConfig\<rparr>"

definition ps_partition_map :: "placement_state \<Rightarrow> partition_map" where
  "ps_partition_map st = into_partition_map (ps_metadata st) (ps_local st)"

definition placement_refresh ::
  "placement_state \<Rightarrow> placement_metadata \<Rightarrow> (placement_error + unit) \<times> placement_state" where
  "placement_refresh st md =
     (case validate_local_partition (ps_local st) (pm_num_partitions md) of
        Inl e \<Rightarrow> (Inl e, st)
      | Inr _ \<Rightarrow>
          if pm_version md \<ge> pm_version (ps_metadata st)
          then (Inr (), st\<lparr>ps_metadata := md\<rparr>)
          else (Inl PlacementVersionDown, st))"

section \<open>Routing\<close>

definition from_config_with_version ::
  "string \<Rightarrow> partition_id \<Rightarrow> u32 \<Rightarrow> placement_version \<Rightarrow> partition_map" where
  "from_config_with_version config local_partition num_partitions version =
     into_partition_map (from_static_config config num_partitions version) local_partition"

definition from_config :: "string \<Rightarrow> partition_id \<Rightarrow> u32 \<Rightarrow> partition_map" where
  "from_config config local_partition num_partitions =
     from_config_with_version config local_partition num_partitions static_version"

definition single_partition :: partition_map where
  "single_partition = \<lparr>pmap_assignments = [], pmap_local = default_partition,
     pmap_num_partitions = 1, pmap_version = static_version\<rparr>"

definition partition_for_table :: "partition_map \<Rightarrow> table_name \<Rightarrow> partition_id" where
  "partition_for_table m table =
     (if is_system table then default_partition
      else case bt_get (pmap_assignments m) table of Some p \<Rightarrow> p | None \<Rightarrow> default_partition)"

definition is_local :: "partition_map \<Rightarrow> table_name \<Rightarrow> bool" where
  "is_local m table = (partition_for_table m table = pmap_local m)"

definition tables_for_partition :: "partition_map \<Rightarrow> partition_id \<Rightarrow> table_name list" where
  "tables_for_partition m part = map fst (filter (\<lambda>(_, p). p = part) (pmap_assignments m))"

definition all_partitions :: "partition_map \<Rightarrow> partition_id list" where
  "all_partitions m = map word_of_nat [0..<unat (pmap_num_partitions m)]"

definition uses_metadata_owner :: "write_source \<Rightarrow> bool" where
  "uses_metadata_owner source = (source = Some ''start_push'' \<or> source = Some ''finish_push'')"

definition routed_partition_for_table ::
  "table_name \<Rightarrow> partition_map \<Rightarrow> write_source \<Rightarrow> partition_id option" where
  "routed_partition_for_table table m source =
     (if \<not> is_system table \<or> uses_metadata_owner source then Some (partition_for_table m table)
      else None)"

section \<open>Assignments\<close>

lemma bt_get_map_keys:
  "inj f \<Longrightarrow> map_of (map (\<lambda>(k, v). (f k, v)) m) (f k) = map_of m k"
  by (induction m) (auto simp: inj_eq)

lemma bt_get_table_assignments:
  assumes "bt_wf (pm_rules md)"
  shows "bt_get (table_assignments md) t = bt_get (pm_rules md) (Table t)"
proof -
  have rules: "rev (map (\<lambda>(target, owner). (target_table target, owner)) (pm_rules md)) =
      map (\<lambda>(target, owner). (target_table target, owner)) (rev (pm_rules md))" by (simp add: rev_map)
  have "inj target_table" by (rule injI) simp
  from bt_get_map_keys [OF this, of "rev (pm_rules md)" "Table t"] assms show ?thesis
    by (simp add: table_assignments_def bt_get_collect rules bt_get_def [of "pm_rules md"]
        map_of_rev_distinct bt_wf_distinct)
qed

lemma bt_wf_table_assignments [simp]: "bt_wf (table_assignments md)"
  by (simp add: table_assignments_def)

lemma bt_get_from_assignments:
  assumes "bt_wf a"
  shows "bt_get (pm_rules (from_table_assignments src v n a)) (Table t) = bt_get a t"
proof -
  have "inj Table" by (rule injI) simp
  from bt_get_map_keys [OF this, of "rev a" t] assms show ?thesis
    by (simp add: from_table_assignments_def bt_get_collect rev_map bt_get_def [of a]
        map_of_rev_distinct bt_wf_distinct)
qed

lemma pm_rules_from_assignments_wf [simp]: "bt_wf (pm_rules (from_table_assignments src v n a))"
  by (simp add: from_table_assignments_def)

lemma table_from_assignments:
  "bt_wf a \<Longrightarrow> table_assignments (from_table_assignments src v n a) = a"
  by (rule bt_wf_ext) (simp_all add: bt_get_table_assignments bt_get_from_assignments)

lemma from_assignments_table:
  assumes "bt_wf (pm_rules md)"
  shows "pm_rules (from_table_assignments src v n (table_assignments md)) = pm_rules md"
proof (rule bt_wf_ext)
  fix k show "bt_get (pm_rules (from_table_assignments src v n (table_assignments md))) k =
      bt_get (pm_rules md) k"
    by (cases k) (simp add: bt_get_from_assignments bt_get_table_assignments assms)
qed (simp_all add: assms)

text \<open>Metadata as the parsers and stores build it.\<close>

definition placement_wf :: "placement_metadata \<Rightarrow> bool" where
  "placement_wf md \<longleftrightarrow>
     bt_wf (pm_rules md) \<and> (\<forall>(target, _) \<in> set (pm_rules md). is_valid_identifier (target_table target))"

lemma parse_table_name_ok: "is_valid_identifier t \<Longrightarrow> parse_table_name t = Inr t"
  by (auto simp: is_valid_identifier_def parse_table_name_def is_ok_def split: sum.splits)

lemma set_table_assignments:
  "bt_wf (pm_rules md) \<Longrightarrow> (t, p) \<in> set (table_assignments md) \<longleftrightarrow> (Table t, p) \<in> set (pm_rules md)"
  using bt_get_table_assignments [of md t]
  by (metis bt_get_Some_iff bt_wf_table_assignments)

lemma deserialize_serialize:
  assumes "placement_wf md"
  shows "deserialize_placement (serialize_placement md) = Inr (md\<lparr>pm_source := Replicated\<rparr>)"
proof -
  have wf: "bt_wf (pm_rules md)" using assms by (simp add: placement_wf_def)
  let ?a = "table_assignments md"
  have ids: "is_valid_identifier t" if "(t, p) \<in> set ?a" for t p
    using that assms set_table_assignments [OF wf] by (auto simp: placement_wf_def)
  have "try_map (\<lambda>(table, part). case parse_table_name table of
           Inl e \<Rightarrow> Inl (PlacementTableName e) | Inr name \<Rightarrow> Inr (name, part)) ?a = Inr ?a"
    using ids by (auto simp: try_map_Inr parse_table_name_ok intro!: list.rel_refl_strong)
  then show ?thesis
    by (simp add: deserialize_placement_def serialize_placement_def bt_collect_id)
       (simp add: from_table_assignments_def from_assignments_table [OF wf, unfolded from_table_assignments_def,
          simplified])
qed

section \<open>Configuration text\<close>

text \<open>The documented format \<open>table1=1,table2=2\<close>.\<close>

definition config_text :: "(table_name \<times> partition_id) list \<Rightarrow> string" where
  "config_text ps = join_with (CHR '','') (map (\<lambda>(t, p). t @ CHR ''='' # decimal (unat p)) ps)"

lemma valid_identifier_chars: "is_valid_identifier t \<Longrightarrow> c \<in> set t \<Longrightarrow> is_ident_char c"
  by (auto simp: identifier_language list_all_iff)

lemma decimal_chars: "c \<in> set (decimal n) \<Longrightarrow> is_digit c"
  using decimal_digits [of n] by (auto simp: list_all_iff)

lemma config_pair_text:
  assumes "is_valid_identifier t"
  shows "config_pair (t @ CHR ''='' # decimal (unat p)) = Some (Table t, p)"
proof -
  let ?s = "t @ CHR ''='' # decimal (unat p)"
  have t: "\<forall>c \<in> set t. \<not> is_whitespace c \<and> c \<noteq> CHR ''=''"
    using valid_identifier_chars [OF assms] ident_char_not_special by blast
  have d: "\<forall>c \<in> set (decimal (unat p)). \<not> is_whitespace c"
    using decimal_chars digit_not_special by blast
  have "\<not> is_whitespace (CHR ''='')" by (simp add: is_whitespace_def)
  then have "trim ?s = ?s" using t d by (intro trim_no_whitespace) auto
  moreover have "split_once (CHR ''='') ?s = Some (t, decimal (unat p))"
    using t by (intro split_once_append) blast
  ultimately show ?thesis
    using t d by (simp add: config_pair_def trim_no_whitespace parse_table_name_ok assms parse_u32_decimal)
qed

lemma from_static_config_text:
  assumes "ps \<noteq> []" "\<forall>(t, p) \<in> set ps. is_valid_identifier t"
  shows "pm_rules (from_static_config (config_text ps) n v) = bt_collect (map (\<lambda>(t, p). (Table t, p)) ps)"
proof -
  let ?pairs = "map (\<lambda>(t, p). t @ CHR ''='' # decimal (unat p)) ps"
  have no_comma: "\<forall>x \<in> set ?pairs. CHR '','' \<notin> set x"
    using assms(2) valid_identifier_chars ident_char_not_special decimal_chars digit_not_special
    by (fastforce split: prod.splits)
  have "split_on (CHR '','') (config_text ps) = ?pairs"
    unfolding config_text_def using assms(1) no_comma by (intro split_on_join) simp_all
  moreover have "config_text ps \<noteq> []"
    using \<open>split_on (CHR '','') (config_text ps) = ?pairs\<close> assms(1) by (cases ps) auto
  moreover have "List.map_filter config_pair ?pairs = map (\<lambda>(t, p). (Table t, p)) ps"
    using assms(2) by (induction ps) (auto simp: config_pair_text List.map_filter_simps)
  ultimately show ?thesis by (simp add: from_static_config_def)
qed

section \<open>The store under the revision laws\<close>

text \<open>What the bucket's current entry decodes to.\<close>

definition stored_placement ::
  "(u8 list \<Rightarrow> serialized_placement option) \<Rightarrow> kv_view \<Rightarrow> (placement_error + placement_metadata) option" where
  "stored_placement dec v = map_option (\<lambda>e. decode_placement dec (ke_value e)) (v placement_current_key)"

lemma load_placement_stored:
  assumes "kv_laws view kv" "load_placement dec kv w = (r, w')"
  shows "view w' = view w"
    and "r = Inr (Some md) \<Longrightarrow> stored_placement dec (view w) = Some (Inr md)"
    and "r = Inr None \<Longrightarrow> view w placement_current_key = None"
proof -
  obtain ro w1 where e: "kv_entry_op kv placement_current_key w = (ro, w1)"
    by (cases "kv_entry_op kv placement_current_key w")
  with assms(1) have v: "view w1 = view w" "\<And>x. ro = Inr x \<Longrightarrow> x = view w placement_current_key"
    unfolding kv_laws_def by blast+
  from assms(2) e v show "view w' = view w"
    "r = Inr (Some md) \<Longrightarrow> stored_placement dec (view w) = Some (Inr md)"
    "r = Inr None \<Longrightarrow> view w placement_current_key = None"
    by (auto simp: load_placement_def stored_placement_def split: sum.splits option.splits)
qed

lemma ensure_initialized_stored:
  assumes laws: "kv_laws view kv" and ens: "ensure_initialized enc dec kv b w = (Inr md, w')"
  shows "stored_placement dec (view w') = Some (Inr md)"
    and "view w placement_current_key \<noteq> None \<Longrightarrow> view w' = view w"
proof -
  obtain r w1 where l: "load_placement dec kv w = (r, w1)" by (cases "load_placement dec kv w")
  note l1 = load_placement_stored [OF laws l]
  show "stored_placement dec (view w') = Some (Inr md)"
  proof (cases "r = Inr None")
    case False
    with ens l have "r = Inr (Some md)" "w' = w1"
      by (auto simp: ensure_initialized_def split: sum.splits option.splits)
    with l1 show ?thesis by simp
  next
    case True
    with ens l obtain w2 where "load_existing dec kv w2 = (Inr md, w')"
      by (auto simp: ensure_initialized_def split: prod.splits sum.splits)
    then obtain "load_placement dec kv w2 = (Inr (Some md), w')"
      by (auto simp: load_existing_def split: prod.splits sum.splits option.splits)
    from load_placement_stored(1,2) [OF laws this] show ?thesis by simp
  qed
  assume "view w placement_current_key \<noteq> None"
  with l1(3) have "r \<noteq> Inr None" by blast
  with ens l l1(1) show "view w' = view w"
    by (auto simp: ensure_initialized_def split: sum.splits option.splits)
qed

section \<open>Properties\<close>

text \<open>
  C31. A configuration in the documented format routes every table as written:
  system tables to partition 0 whatever the text says, a user table to the
  partition of its last assignment, and unlisted user tables to partition 0.
\<close>

theorem config_routes_tables:
  assumes "ps \<noteq> []" "\<forall>(t, p) \<in> set ps. is_valid_identifier t"
  shows "partition_for_table (from_config (config_text ps) local_part n) table =
    (if is_system table then 0 else case map_of (rev ps) table of Some p \<Rightarrow> p | None \<Rightarrow> 0)"
proof -
  let ?md = "from_static_config (config_text ps) n static_version"
  have rules: "pm_rules ?md = bt_collect (map (\<lambda>(t, p). (Table t, p)) ps)"
    using assms by (rule from_static_config_text)
  have "inj Table" by (rule injI) simp
  from bt_get_map_keys [OF this, of "rev ps" table]
  have "bt_get (table_assignments ?md) table = map_of (rev ps) table"
    using rules by (simp add: bt_get_table_assignments bt_get_collect rev_map)
  then show ?thesis
    by (simp add: partition_for_table_def from_config_def from_config_with_version_def
        into_partition_map_def default_partition_def split: option.split)
qed

theorem config_routes_tables_witness:
  "partition_for_table (from_config (config_text [(''messages'', 1), (''tasks'', 2), (''messages'', 3)]) 0 4)
     ''messages'' = 3"
  using config_routes_tables [of "[(''messages'', 1), (''tasks'', 2), (''messages'', 3)]" 0 4 "''messages''"]
  by (simp add: is_valid_identifier_def check_valid_identifier_def is_ascii_alphabetic_def
      is_ident_char_def is_ascii_alphanumeric_def max_identifier_len_def is_system_def)

text \<open>
  Placement metadata survives its serialized form: what comes back has the
  same version, partition count and rules, marked as replicated.
\<close>

lemma placement_serialization_roundtrip:
  assumes "placement_wf md"
  shows "deserialize_placement (serialize_placement md) = Inr (md\<lparr>pm_source := Replicated\<rparr>)"
  using assms by (rule deserialize_serialize)

text \<open>
  C32. Along any sequence of refreshes, accepted or refused, a node's placement
  version never decreases and its own partition stays inside the placement; and a
  refresh is refused exactly when it would break one of the two.
\<close>

theorem placement_refresh_monotone:
  assumes "ps_local st < pm_num_partitions (ps_metadata st)"
  shows "(let st' = fold (\<lambda>md st. snd (placement_refresh st md)) mds st in
      pm_version (ps_metadata st) \<le> pm_version (ps_metadata st') \<and>
      ps_local st' = ps_local st \<and> ps_local st' < pm_num_partitions (ps_metadata st')) \<and>
    (is_ok (fst (placement_refresh st md)) \<longleftrightarrow>
      ps_local st < pm_num_partitions md \<and> pm_version (ps_metadata st) \<le> pm_version md)"
proof -
  have "let st' = fold (\<lambda>md st. snd (placement_refresh st md)) mds st in
      pm_version (ps_metadata st) \<le> pm_version (ps_metadata st') \<and>
      ps_local st' = ps_local st \<and> ps_local st' < pm_num_partitions (ps_metadata st')"
    using assms
  proof (induction mds arbitrary: st)
    case (Cons md mds)
    let ?st = "snd (placement_refresh st md)"
    have "pm_version (ps_metadata st) \<le> pm_version (ps_metadata ?st)" "ps_local ?st = ps_local st"
      "ps_local ?st < pm_num_partitions (ps_metadata ?st)"
      using Cons.prems by (auto simp: placement_refresh_def validate_local_partition_def)
    with Cons.IH [of ?st] show ?case by (auto simp: Let_def)
  qed simp
  then show ?thesis by (auto simp: placement_refresh_def validate_local_partition_def)
qed

theorem placement_refresh_monotone_witness:
  "\<not> is_ok (fst (placement_refresh
     \<lparr>ps_local = 1, ps_metadata = \<lparr>pm_source = Replicated, pm_version = 5, pm_num_partitions = 2, pm_rules = []\<rparr>\<rparr>
     \<lparr>pm_source = Replicated, pm_version = 4, pm_num_partitions = 2, pm_rules = []\<rparr>))"
  using placement_refresh_monotone
    [of "\<lparr>ps_local = 1, ps_metadata = \<lparr>pm_source = Replicated, pm_version = 5, pm_num_partitions = 2, pm_rules = []\<rparr>\<rparr>"
        "[]" "\<lparr>pm_source = Replicated, pm_version = 4, pm_num_partitions = 2, pm_rules = []\<rparr>"]
  by simp



end
