(* ===== verification/AnyhowErrors.thy ===== *)
theory AnyhowErrors
  imports Timestamps
begin

text \<open>
  The errors that travel through the two-phase commit code.  Only what the code
  inspects is kept: the messages, and two markers along the chain.
\<close>

text \<open>
  An \<open>anyhow::Error\<close> is its chain of messages, outermost context first, with
  what the protocol looks for along the chain: whether it is an OCC error, and a
  \<open>PrepareTimestampTooLow\<close> (the proposed and the required timestamp).
\<close>

record anyhow_error =
  err_chain :: "string list"
  err_is_occ :: bool
  err_too_low :: "(timestamp \<times> timestamp) option"

definition anyhow :: "string \<Rightarrow> anyhow_error" where
  "anyhow msg = \<lparr>err_chain = [msg], err_is_occ = False, err_too_low = None\<rparr>"

definition with_context :: "string \<Rightarrow> anyhow_error \<Rightarrow> anyhow_error" where
  "with_context ctx e = e\<lparr>err_chain := ctx # err_chain e\<rparr>"

text \<open>\<open>to_string()\<close> shows the outermost message, \<open>{:#}\<close> the whole chain.\<close>

fun join_chain :: "string list \<Rightarrow> string" where
  "join_chain [] = []"
| "join_chain [m] = m"
| "join_chain (m # ms) = m @ '': '' @ join_chain ms"

definition err_to_string :: "anyhow_error \<Rightarrow> string" where
  "err_to_string e = (case err_chain e of [] \<Rightarrow> [] | m # _ \<Rightarrow> m)"

definition err_format :: "anyhow_error \<Rightarrow> string" where
  "err_format e = join_chain (err_chain e)"

definition prepare_timestamp_too_low :: "anyhow_error \<Rightarrow> (timestamp \<times> timestamp) option" where
  "prepare_timestamp_too_low e = err_too_low e"

text \<open>The operator \<open>?\<close>: continue with the value, or return the error.\<close>

definition and_then :: "'e + 'a \<Rightarrow> ('a \<Rightarrow> 'e + 'b) \<Rightarrow> 'e + 'b" where
  "and_then r f = (case r of Inl e \<Rightarrow> Inl e | Inr x \<Rightarrow> f x)"

lemma and_then_simps [simp]: "and_then (Inl e) f = Inl e" "and_then (Inr x) f = f x"
  by (simp_all add: and_then_def)

lemma and_then_Inr: "and_then r f = Inr y \<longleftrightarrow> (\<exists>x. r = Inr x \<and> f x = Inr y)"
  by (cases r) simp_all

text \<open>\<open>ErrorMetadata::system_occ\<close> and \<open>user_occ\<close>: errors that tell the caller to retry the transaction.\<close>

definition occ_error :: "string \<Rightarrow> anyhow_error" where
  "occ_error msg = (anyhow msg)\<lparr>err_is_occ := True\<rparr>"

definition lift_ts :: "ts_error + 'a \<Rightarrow> anyhow_error + 'a" where
  "lift_ts r = (case r of Inl _ \<Rightarrow> Inl (anyhow ''timestamp out of range'') | Inr x \<Rightarrow> Inr x)"

lemma lift_ts_Inr [simp]: "lift_ts r = Inr x \<longleftrightarrow> r = Inr x"
  by (cases r) (simp_all add: lift_ts_def)

end
