(* ===== verification/Decisions.thy ===== *)
theory Decisions
  imports Partition AnyhowErrors KeyValueStore
begin

text \<open>
  The data of two-phase commit, from \<open>crates/database/src/two_phase.rs\<close>: the
  decision record of a transaction, the intents that participants stage, the
  redo entries they persist, and the address book of the cluster.

  The clock is an argument: \<open>now\<close> is the value of \<open>now_unix_millis()\<close>, computed
  from a \<open>SystemTime\<close> as its signed distance from the epoch in nanoseconds.
  SHA-256 followed by hex encoding is the parameter \<open>sha_hex\<close>.  A
  \<open>Duration\<close> is its number of nanoseconds.
\<close>

section \<open>Time\<close>

definition now_unix_millis :: "int \<Rightarrow> u64" where
  "now_unix_millis nanos_since_epoch =
     (if nanos_since_epoch < 0 then 0
      else let ms = nat nanos_since_epoch div 1000000 in
           if ms < 2 ^ 64 then word_of_nat ms else - 1)"

definition from_millis :: "u64 \<Rightarrow> nat" where
  "from_millis ms = unat ms * 1000000"

section \<open>Redo entries\<close>

record two_phase_redo_entry =
  re_transaction_id :: string
  re_prepare_ts :: u64
  re_partition_id :: u32
  re_participants :: "u32 list"
  re_prepared_at :: "u64 option"
  re_write_source :: write_source
  re_participant_transaction_hex :: string

text \<open>
  \<open>encode_hex\<close> stands for the protobuf encoding of the participant's transaction
  in hex; it fails when the transaction has no protobuf form.
\<close>

definition redo_new_with_participants ::
  "('tx \<Rightarrow> anyhow_error + string) \<Rightarrow> u64 \<Rightarrow> string \<Rightarrow> timestamp \<Rightarrow> partition_id \<Rightarrow> partition_id list \<Rightarrow>
   'tx \<Rightarrow> write_source \<Rightarrow> anyhow_error + two_phase_redo_entry" where
  "redo_new_with_participants encode_hex now transaction_id prepare_ts partition_id participants tx write_source =
     (case encode_hex tx of
        Inl e \<Rightarrow> Inl e
      | Inr hex \<Rightarrow>
          Inr \<lparr>re_transaction_id = transaction_id, re_prepare_ts = prepare_ts,
               re_partition_id = partition_id, re_participants = participants,
               re_prepared_at = Some now, re_write_source = write_source,
               re_participant_transaction_hex = hex\<rparr>)"

definition redo_new ::
  "('tx \<Rightarrow> anyhow_error + string) \<Rightarrow> u64 \<Rightarrow> string \<Rightarrow> timestamp \<Rightarrow> partition_id \<Rightarrow>
   'tx \<Rightarrow> write_source \<Rightarrow> anyhow_error + two_phase_redo_entry" where
  "redo_new encode_hex now transaction_id prepare_ts partition_id tx write_source =
     redo_new_with_participants encode_hex now transaction_id prepare_ts partition_id [partition_id] tx write_source"

definition redo_prepare_ts :: "two_phase_redo_entry \<Rightarrow> ts_error + timestamp" where
  "redo_prepare_ts entry = ts_from_u64 (re_prepare_ts entry)"

definition redo_participants :: "two_phase_redo_entry \<Rightarrow> partition_id list" where
  "redo_participants entry =
     (if re_participants entry = [] then [re_partition_id entry] else re_participants entry)"

definition prepare_age :: "u64 \<Rightarrow> two_phase_redo_entry \<Rightarrow> nat option" where
  "prepare_age now entry =
     map_option (\<lambda>prepared_at. from_millis (saturating_sub now prepared_at)) (re_prepared_at entry)"

definition prepare_timed_out :: "u64 \<Rightarrow> nat \<Rightarrow> two_phase_redo_entry \<Rightarrow> bool" where
  "prepare_timed_out now timeout entry =
     (case prepare_age now entry of None \<Rightarrow> False | Some age \<Rightarrow> age \<ge> timeout)"

definition as_bytes :: "string \<Rightarrow> u8 list" where
  "as_bytes s = map (\<lambda>c. word_of_nat (of_char c)) s"

definition participant_transaction_digest :: "(u8 list \<Rightarrow> string) \<Rightarrow> two_phase_redo_entry \<Rightarrow> string" where
  "participant_transaction_digest sha_hex entry =
     sha_hex (to_be_bytes (re_partition_id entry) @ to_be_bytes (re_prepare_ts entry) @
              as_bytes (re_participant_transaction_hex entry))"

section \<open>Participant intents and digests\<close>

record participant_intent =
  pi_partition_id :: u32
  pi_prepare_ts :: u64
  pi_digest :: string

definition from_redo_entry :: "(u8 list \<Rightarrow> string) \<Rightarrow> two_phase_redo_entry \<Rightarrow> participant_intent" where
  "from_redo_entry sha_hex entry =
     \<lparr>pi_partition_id = re_partition_id entry, pi_prepare_ts = re_prepare_ts entry,
      pi_digest = participant_transaction_digest sha_hex entry\<rparr>"

text \<open>\<open>sort_unstable\<close> then \<open>dedup\<close>.\<close>

definition sort_dedup :: "'a::linorder list \<Rightarrow> 'a list" where
  "sort_dedup xs = remdups_adj (sort xs)"

definition from_staging_record ::
  "(u8 list \<Rightarrow> string) \<Rightarrow> u32 list \<Rightarrow> participant_intent list \<Rightarrow> string" where
  "from_staging_record sha_hex participants intents =
     sha_hex (concat (map to_be_bytes (sort_dedup participants)) @ [0xFF] @
              concat (map (\<lambda>i. to_be_bytes (pi_partition_id i) @ to_be_bytes (pi_prepare_ts i) @
                                as_bytes (pi_digest i))
                          (sort_key pi_partition_id intents)))"

section \<open>Decisions\<close>

datatype two_phase_decision =
    Staging (commit_ts: u64) (participants: "u32 list") (staging_intents: "participant_intent list")
      (staging_digest: string) (staged_at: "u64 option") (resolved_participants: "u32 list")
      (fully_resolved_at: "u64 option")
  | Committed (commit_ts: u64) (participants: "u32 list") (resolved_participants: "u32 list")
      (fully_resolved_at: "u64 option")
  | RolledBack (rollback_reason: string) (participants: "u32 list") (resolved_participants: "u32 list")
      (fully_resolved_at: "u64 option")

definition staging ::
  "(u8 list \<Rightarrow> string) \<Rightarrow> u64 \<Rightarrow> u64 \<Rightarrow> u32 list \<Rightarrow> participant_intent list \<Rightarrow> two_phase_decision" where
  "staging sha_hex now ts parts intents =
     (let parts' = sort_dedup (parts @ map pi_partition_id intents);
          intents' = sort_key pi_partition_id intents
      in Staging ts parts' intents' (from_staging_record sha_hex parts' intents') (Some now) [] None)"

definition committed :: "u64 \<Rightarrow> u32 list \<Rightarrow> two_phase_decision" where
  "committed ts parts = Committed ts parts [] None"

definition rolled_back :: "string \<Rightarrow> u32 list \<Rightarrow> two_phase_decision" where
  "rolled_back reason parts = RolledBack reason parts [] None"

fun is_staging :: "two_phase_decision \<Rightarrow> bool" where
  "is_staging (Staging _ _ _ _ _ _ _) = True"
| "is_staging _ = False"

fun participant_intents :: "two_phase_decision \<Rightarrow> participant_intent list" where
  "participant_intents (Staging _ _ intents _ _ _ _) = intents"
| "participant_intents _ = []"

fun transaction_digest :: "two_phase_decision \<Rightarrow> string option" where
  "transaction_digest (Staging _ _ _ digest _ _ _) = Some digest"
| "transaction_digest _ = None"

text \<open>The two fields that \<open>mark_participant_resolved\<close> borrows mutably.\<close>

definition resolve_fields :: "u64 \<Rightarrow> partition_id \<Rightarrow> u32 list \<Rightarrow> u32 list \<times> u64 option \<Rightarrow> u32 list \<times> u64 option" where
  "resolve_fields now participant parts borrowed =
     (case borrowed of (resolved, full) \<Rightarrow>
        let resolved' = (if participant \<in> set resolved then resolved else sort_dedup (resolved @ [participant]));
            full' = (if full = None \<and> (\<forall>p \<in> set parts. p \<in> set resolved') then Some now else full)
        in (resolved', full'))"

fun mark_participant_resolved :: "u64 \<Rightarrow> partition_id \<Rightarrow> two_phase_decision \<Rightarrow> two_phase_decision" where
  "mark_participant_resolved now p (Staging ts parts intents digest since resolved full) =
     (case resolve_fields now p parts (resolved, full) of
        (resolved', full') \<Rightarrow> Staging ts parts intents digest since resolved' full')"
| "mark_participant_resolved now p (Committed ts parts resolved full) =
     (case resolve_fields now p parts (resolved, full) of
        (resolved', full') \<Rightarrow> Committed ts parts resolved' full')"
| "mark_participant_resolved now p (RolledBack reason parts resolved full) =
     (case resolve_fields now p parts (resolved, full) of
        (resolved', full') \<Rightarrow> RolledBack reason parts resolved' full')"

fun all_participants_staged :: "two_phase_decision \<Rightarrow> bool" where
  "all_participants_staged (Staging _ parts intents _ _ _ _) =
     list_all (\<lambda>p. list_ex (\<lambda>i. pi_partition_id i = p) intents) parts"
| "all_participants_staged _ = True"

fun committed_from_staging :: "two_phase_decision \<Rightarrow> two_phase_decision option" where
  "committed_from_staging (Staging ts parts intents digest since resolved full) =
     (if all_participants_staged (Staging ts parts intents digest since resolved full)
      then Some (Committed ts parts resolved full) else None)"
| "committed_from_staging _ = None"

fun staged_age :: "u64 \<Rightarrow> two_phase_decision \<Rightarrow> nat option" where
  "staged_age now (Staging _ _ _ _ (Some since) _ _) = Some (from_millis (saturating_sub now since))"
| "staged_age now _ = None"

text \<open>
  A conflicting proof leaves the participant list it may have extended behind;
  both callers drop the decision on that error.
\<close>

fun mark_participant_staged ::
  "(u8 list \<Rightarrow> string) \<Rightarrow> participant_intent \<Rightarrow> two_phase_decision \<Rightarrow> anyhow_error + two_phase_decision" where
  "mark_participant_staged sha_hex intent (Staging ts parts intents digest since resolved full) =
     (let parts' = (if pi_partition_id intent \<in> set parts then parts
                    else sort_dedup (parts @ [pi_partition_id intent])) in
      case find (\<lambda>existing. pi_partition_id existing = pi_partition_id intent) intents of
        Some existing \<Rightarrow>
          if existing = intent then Inr (Staging ts parts' intents digest since resolved full)
          else Inl (anyhow (''2PC staging proof for participant '' @ decimal (unat (pi_partition_id intent)) @
                            '' conflicts with the existing staged intent''))
      | None \<Rightarrow>
          let intents' = sort_key pi_partition_id (intents @ [intent]) in
          Inr (Staging ts parts' intents' (from_staging_record sha_hex parts' intents') since resolved full))"
| "mark_participant_staged sha_hex intent d = Inr d"

definition all_participants_resolved :: "two_phase_decision \<Rightarrow> bool" where
  "all_participants_resolved d = list_all (\<lambda>p. p \<in> set (resolved_participants d)) (participants d)"

definition fully_resolved_age :: "u64 \<Rightarrow> two_phase_decision \<Rightarrow> nat option" where
  "fully_resolved_age now d =
     map_option (\<lambda>resolved_at. from_millis (saturating_sub now resolved_at)) (fully_resolved_at d)"

definition ready_for_gc :: "u64 \<Rightarrow> nat \<Rightarrow> two_phase_decision \<Rightarrow> bool" where
  "ready_for_gc now grace d \<longleftrightarrow>
     all_participants_resolved d \<and>
     (case fully_resolved_age now d of None \<Rightarrow> False | Some age \<Rightarrow> age \<ge> grace)"

subsection \<open>What readers and subscriptions may see\<close>

datatype staged_read_policy =
    HidePendingParticipantProofs
  | RecoverStatusBeforeRead
  | VisibleCommittedDecision
  | HiddenRolledBackDecision

datatype staged_subscription_policy =
    SuppressUntilFinalDecision
  | EmitCommittedDelta
  | SuppressRolledBack

fun read_policy :: "two_phase_decision \<Rightarrow> staged_read_policy" where
  "read_policy (Staging ts parts intents digest since resolved full) =
     (if all_participants_staged (Staging ts parts intents digest since resolved full)
      then RecoverStatusBeforeRead else HidePendingParticipantProofs)"
| "read_policy (Committed _ _ _ _) = VisibleCommittedDecision"
| "read_policy (RolledBack _ _ _ _) = HiddenRolledBackDecision"

fun subscription_policy :: "two_phase_decision \<Rightarrow> staged_subscription_policy" where
  "subscription_policy (Staging _ _ _ _ _ _ _) = SuppressUntilFinalDecision"
| "subscription_policy (Committed _ _ _ _) = EmitCommittedDelta"
| "subscription_policy (RolledBack _ _ _ _) = SuppressRolledBack"

definition requires_status_recovery_before_read :: "two_phase_decision \<Rightarrow> bool" where
  "requires_status_recovery_before_read d \<longleftrightarrow> read_policy d = RecoverStatusBeforeRead"

definition staged_writes_visible_to_readers :: "two_phase_decision \<Rightarrow> bool" where
  "staged_writes_visible_to_readers d \<longleftrightarrow> read_policy d = VisibleCommittedDecision"

definition should_emit_subscription_invalidation :: "two_phase_decision \<Rightarrow> bool" where
  "should_emit_subscription_invalidation d \<longleftrightarrow> subscription_policy d = EmitCommittedDelta"

section \<open>The address book\<close>

type_synonym node_addresses = "(partition_id, string list) btree_map"

definition from_entries :: "(partition_id, string list) btree_map \<Rightarrow> node_addresses" where
  "from_entries addresses =
     bt_collect (List.map_filter
       (\<lambda>(part, addrs).
          let addrs' = filter (\<lambda>a. a \<noteq> []) (map trim addrs) in
          if addrs' \<noteq> [] then Some (part, addrs') else None) addresses)"

definition address_pair :: "string \<Rightarrow> (partition_id \<times> string list) option" where
  "address_pair pair =
     (case split_once (CHR ''='') (trim pair) of
        None \<Rightarrow> None
      | Some (ident, addr) \<Rightarrow>
          (case parse_u32 (trim ident) of
             None \<Rightarrow> None
           | Some partition_id \<Rightarrow>
               Some (partition_id, filter (\<lambda>a. a \<noteq> []) (map trim (split_on (CHR ''|'') addr)))))"

definition addresses_from_config :: "string \<Rightarrow> node_addresses" where
  "addresses_from_config config =
     from_entries
       (if config = [] then [] else bt_collect (List.map_filter address_pair (split_on (CHR '','') config)))"

definition address_for :: "node_addresses \<Rightarrow> partition_id \<Rightarrow> string option" where
  "address_for addresses part =
     (case bt_get addresses part of
        None \<Rightarrow> None
      | Some addrs \<Rightarrow> (case addrs of [] \<Rightarrow> None | a # _ \<Rightarrow> Some a))"

definition addresses_for :: "node_addresses \<Rightarrow> partition_id \<Rightarrow> string list option" where
  "addresses_for addresses part = bt_get addresses part"

definition known_partitions :: "node_addresses \<Rightarrow> partition_id list" where
  "known_partitions addresses = bt_keys addresses"

section \<open>Lemmas\<close>

lemma distinct_remdups_adj: "sorted xs \<Longrightarrow> distinct (remdups_adj xs)"
  by (induction xs rule: remdups_adj.induct) (auto simp: order_less_le)

lemma sort_dedup_eq: "sort_dedup xs = sorted_list_of_set (set xs)"
  by (rule sorted_distinct_set_unique)
    (simp_all add: sort_dedup_def sorted_remdups_adj distinct_remdups_adj)

lemma set_sort_dedup [simp]: "set (sort_dedup xs) = set xs"
  by (simp add: sort_dedup_eq)

lemma sort_dedup_cong: "set xs = set ys \<Longrightarrow> sort_dedup xs = sort_dedup ys"
  by (simp add: sort_dedup_eq)

lemma sort_dedup_id: "sort_dedup (sort_dedup xs) = sort_dedup xs"
  by (rule sort_dedup_cong) simp

text \<open>Intents with distinct partitions have one sorted order.\<close>

lemma sort_key_unique:
  assumes "set xs = set ys" "distinct (map f xs)" "distinct (map f ys)"
  shows "sort_key f xs = sort_key f ys"
proof (rule map_sorted_distinct_set_unique [of f])
  have "distinct (map f (sort_key f zs)) = distinct (map f zs)" for zs
    by (simp add: distinct_map)
  with assms show "distinct (map f (sort_key f xs))" "distinct (map f (sort_key f ys))"
    by simp_all
  from assms show "inj_on f (set (sort_key f xs) \<union> set (sort_key f ys))"
    by (simp add: distinct_map)
qed (use assms in simp_all)

lemma staging_canonical:
  assumes "set parts \<union> pi_partition_id ` set is = set parts' \<union> pi_partition_id ` set is'"
    "set is = set is'" "distinct (map pi_partition_id is)" "distinct (map pi_partition_id is')"
  shows "staging sha now ts parts is = staging sha now ts parts' is'"
proof -
  have "sort_dedup (parts @ map pi_partition_id is) = sort_dedup (parts' @ map pi_partition_id is')"
    by (rule sort_dedup_cong) (use assms(1) in simp)
  moreover have "sort_key pi_partition_id is = sort_key pi_partition_id is'"
    by (rule sort_key_unique) (use assms in simp_all)
  ultimately show ?thesis by (simp add: staging_def)
qed

lemma mark_participant_staged_staging:
  assumes "distinct (map pi_partition_id (is @ [i]))"
  shows "mark_participant_staged sha i (staging sha now ts parts is) = Inr (staging sha now ts parts (is @ [i]))"
proof -
  let ?p = "pi_partition_id"
  have "find (\<lambda>x. ?p x = ?p i) (sort_key ?p is) = None"
    using assms by (auto simp: find_None_iff image_iff)
  moreover have "sort_key ?p (sort_key ?p is @ [i]) = sort_key ?p (is @ [i])"
  proof (rule sort_key_unique)
    from assms have "inj_on ?p (set is)" "?p i \<notin> ?p ` set is" by (simp_all add: distinct_map)
    with assms show "distinct (map ?p (sort_key ?p is @ [i]))" by (simp add: distinct_map)
  qed (use assms in simp_all)
  moreover have "(if ?p i \<in> set (sort_dedup (parts @ map ?p is)) then sort_dedup (parts @ map ?p is)
      else sort_dedup (sort_dedup (parts @ map ?p is) @ [?p i])) = sort_dedup (parts @ map ?p (is @ [i]))"
    by (auto intro!: sort_dedup_cong)
  ultimately show ?thesis by (simp add: staging_def Let_def)
qed

lemma all_staged_staging:
  "all_participants_staged (staging sha now ts parts is) \<longleftrightarrow> set parts \<subseteq> pi_partition_id ` set is"
  unfolding staging_def Let_def all_participants_staged.simps list_all_iff list_ex_iff by force

text \<open>Staging one participant after the other, as the participants do.\<close>

fun stage_all ::
  "(u8 list \<Rightarrow> string) \<Rightarrow> participant_intent list \<Rightarrow> two_phase_decision \<Rightarrow> anyhow_error + two_phase_decision" where
  "stage_all sha [] d = Inr d"
| "stage_all sha (i # is) d =
     (case mark_participant_staged sha i d of Inl e \<Rightarrow> Inl e | Inr d' \<Rightarrow> stage_all sha is d')"

lemma stage_all_staging:
  "distinct (map pi_partition_id (is @ js)) \<Longrightarrow>
    stage_all sha js (staging sha now ts parts is) = Inr (staging sha now ts parts (is @ js))"
proof (induction js arbitrary: "is")
  case (Cons j js)
  then have "mark_participant_staged sha j (staging sha now ts parts is)
      = Inr (staging sha now ts parts (is @ [j]))"
    by (intro mark_participant_staged_staging) auto
  with Cons.IH [of "is @ [j]"] Cons.prems show ?case by simp
qed simp

subsection \<open>The order in which a decision record may change\<close>

text \<open>
  What every update of a record keeps: the timestamp and the participants of a
  commit, the reason and the participants of a rollback, and the timestamp of a
  staging record, which may only gain participants or become the commit it
  staged.  Resolutions are never taken back.
\<close>

fun decision_le :: "two_phase_decision \<Rightarrow> two_phase_decision \<Rightarrow> bool" where
  "decision_le (Committed ts ps r f) d' \<longleftrightarrow>
     (\<exists>r' f'. d' = Committed ts ps r' f' \<and> set r \<subseteq> set r' \<and> (f \<noteq> None \<longrightarrow> f' = f))"
| "decision_le (RolledBack reason ps r f) d' \<longleftrightarrow>
     (\<exists>r' f'. d' = RolledBack reason ps r' f' \<and> set r \<subseteq> set r' \<and> (f \<noteq> None \<longrightarrow> f' = f))"
| "decision_le (Staging ts ps is dg s r f) d' \<longleftrightarrow>
     (\<exists>ps' r' f'. ((\<exists>is' dg'. d' = Staging ts ps' is' dg' s r' f' \<and> set is \<subseteq> set is') \<or>
                   d' = Committed ts ps' r' f') \<and>
        set ps \<subseteq> set ps' \<and> set r \<subseteq> set r' \<and> (f \<noteq> None \<longrightarrow> f' = f))"

lemma decision_le_refl [simp]: "decision_le d d"
  by (cases d) auto

lemma decision_le_trans: "decision_le a b \<Longrightarrow> decision_le b c \<Longrightarrow> decision_le a c"
proof (cases a)
  case (Staging ts ps "is" dg s r f)
  assume ab: "decision_le a b" and bc: "decision_le b c"
  with Staging show ?thesis by (cases b) fastforce+
qed auto

lemma resolve_fields_le:
  "resolve_fields now p parts (r, f) = (r', f') \<Longrightarrow> set r' = insert p (set r) \<and> (f \<noteq> None \<longrightarrow> f' = f)"
  by (auto simp: resolve_fields_def Let_def split: if_splits)

lemma mark_participant_resolved_le: "decision_le d (mark_participant_resolved now p d)"
  by (cases d) (auto split: prod.split dest: resolve_fields_le)

lemma mark_participant_resolved_sets [simp]:
  "participants (mark_participant_resolved now p d) = participants d"
  "set (resolved_participants (mark_participant_resolved now p d)) = insert p (set (resolved_participants d))"
  by (cases d; auto split: prod.split dest: resolve_fields_le)+

lemma mark_participant_staged_le:
  "mark_participant_staged sha i d = Inr d' \<Longrightarrow> decision_le d d'"
  by (cases d) (auto simp: Let_def split: option.splits if_splits)

lemma committed_from_staging_le:
  "committed_from_staging d = Some d' \<Longrightarrow> decision_le d d' \<and> \<not> is_staging d'"
  by (cases d) (auto split: if_splits)

lemma decision_le_final:
  assumes "decision_le d d'" "\<not> is_staging d"
  shows "\<not> is_staging d'" "staged_writes_visible_to_readers d' = staged_writes_visible_to_readers d"
    "participants d' = participants d" "commit_ts d' = commit_ts d \<or> \<not> staged_writes_visible_to_readers d"
  using assms by (cases d; auto simp: staged_writes_visible_to_readers_def)+

subsection \<open>Address configurations\<close>

definition peer_ok :: "string \<Rightarrow> bool" where
  "peer_ok a \<longleftrightarrow> a \<noteq> [] \<and> (\<forall>c \<in> set a. \<not> is_whitespace c \<and> c \<noteq> CHR '','' \<and> c \<noteq> CHR ''|'')"

definition address_text :: "(partition_id \<times> string list) list \<Rightarrow> string" where
  "address_text ps =
     join_with (CHR '','') (map (\<lambda>(p, peers). decimal (unat p) @ CHR ''='' # join_with (CHR ''|'') peers) ps)"

lemma set_join_with: "set (join_with d xs) \<subseteq> insert d (\<Union> (set ` set xs))"
  by (induction d xs rule: join_with.induct) auto

lemma trim_peers: "\<forall>a \<in> set peers. peer_ok a \<Longrightarrow> filter (\<lambda>a. a \<noteq> []) (map trim peers) = peers"
  by (induction peers) (auto simp: peer_ok_def trim_no_whitespace)

lemma address_pair_text:
  assumes "peers \<noteq> []" "\<forall>a \<in> set peers. peer_ok a"
  shows "address_pair (decimal (unat p) @ CHR ''='' # join_with (CHR ''|'') peers) = Some (p, peers)"
    "CHR '','' \<notin> set (decimal (unat p) @ CHR ''='' # join_with (CHR ''|'') peers)"
proof -
  let ?s = "decimal (unat p) @ CHR ''='' # join_with (CHR ''|'') peers"
  have d: "\<not> is_whitespace c \<and> c \<noteq> CHR '','' \<and> c \<noteq> CHR ''=''" if "c \<in> set (decimal (unat p))" for c
    using that decimal_chars digit_not_special by blast
  have j: "\<not> is_whitespace c \<and> c \<noteq> CHR '',''" if "c \<in> set (join_with (CHR ''|'') peers)" for c
    using that set_join_with [of "CHR ''|''" peers] assms(2)
    by (auto simp: peer_ok_def is_whitespace_def)
  have "\<not> is_whitespace (CHR ''='')" by (simp add: is_whitespace_def)
  then have "trim ?s = ?s" using d j by (intro trim_no_whitespace) auto
  moreover have "split_once (CHR ''='') ?s = Some (decimal (unat p), join_with (CHR ''|'') peers)"
    using d by (intro split_once_append) blast
  moreover have "split_on (CHR ''|'') (join_with (CHR ''|'') peers) = peers"
    using assms by (intro split_on_join) (auto simp: peer_ok_def)
  ultimately show "address_pair ?s = Some (p, peers)"
    using d by (simp add: address_pair_def trim_no_whitespace parse_u32_decimal trim_peers [OF assms(2)])
  from d j show "CHR '','' \<notin> set ?s" by auto
qed

lemma map_filter_id: "\<forall>x \<in> set xs. f (g x) = Some (h x) \<Longrightarrow> List.map_filter f (map g xs) = map h xs"
  by (induction xs) (auto simp: List.map_filter_simps)

lemma addresses_from_config_text:
  assumes "ps \<noteq> []" "\<forall>(p, peers) \<in> set ps. peers \<noteq> [] \<and> (\<forall>a \<in> set peers. peer_ok a)"
  shows "addresses_from_config (address_text ps) = bt_collect ps"
proof -
  let ?g = "\<lambda>(p, peers). decimal (unat p) @ CHR ''='' # join_with (CHR ''|'') peers"
  have "CHR '','' \<notin> set (?g x)" if "x \<in> set ps" for x
  proof -
    obtain p peers where x: "x = (p, peers)" by (cases x)
    with that assms(2) have "peers \<noteq> []" "\<forall>a \<in> set peers. peer_ok a" by blast+
    then show ?thesis using address_pair_text(2) [of peers p] x by simp
  qed
  then have split: "split_on (CHR '','') (address_text ps) = map ?g ps"
    unfolding address_text_def using assms(1) by (intro split_on_join) auto
  then have ne: "address_text ps \<noteq> []" using assms(1) by (cases ps) auto
  have pairs: "List.map_filter address_pair (map ?g ps) = map (\<lambda>x. x) ps"
    using assms(2) by (intro map_filter_id) (auto simp: address_pair_text)
  have ok: "\<forall>(p, peers) \<in> set (bt_collect ps). peers \<noteq> [] \<and> (\<forall>a \<in> set peers. peer_ok a)"
    using assms(2) bt_get_Some_iff [OF bt_wf_collect, of ps]
    by (fastforce simp: bt_get_collect dest: map_of_SomeD)
  have "List.map_filter (\<lambda>(part, addrs).
          let addrs' = filter (\<lambda>a. a \<noteq> []) (map trim addrs) in
          if addrs' \<noteq> [] then Some (part, addrs') else None) (map (\<lambda>x. x) (bt_collect ps)) = map (\<lambda>x. x) (bt_collect ps)"
    using ok by (intro map_filter_id) (auto simp: trim_peers Let_def)
  then show ?thesis
    using split ne pairs by (simp add: addresses_from_config_def from_entries_def bt_collect_id)
qed

section \<open>Properties\<close>

text \<open>
  C21. Participants that record their intents in a staging record one after the
  other, in any order, build the very record (participants, intents and digest)
  that the coordinator builds from all of them at once; and the record commits
  exactly when every participant has an intent in it.
\<close>
theorem staging_incremental:
  assumes "distinct (map pi_partition_id is)" "distinct (map pi_partition_id js)" "set js = set is"
  shows "stage_all sha js (staging sha now ts parts []) = Inr (staging sha now ts parts is) \<and>
    (committed_from_staging (staging sha now ts parts is) \<noteq> None) =
      (set parts \<subseteq> pi_partition_id ` set is)"
proof (rule conjI)
  have "stage_all sha js (staging sha now ts parts []) = Inr (staging sha now ts parts js)"
    using stage_all_staging [of "[]" js] assms(2) by simp
  also have "staging sha now ts parts js = staging sha now ts parts is"
    by (rule staging_canonical) (use assms in auto)
  finally show "stage_all sha js (staging sha now ts parts []) = Inr (staging sha now ts parts is)" .
  have "(committed_from_staging d \<noteq> None) = all_participants_staged d" if "is_staging d" for d
    using that by (cases d) auto
  moreover have "is_staging (staging sha now ts parts is)" by (simp add: staging_def Let_def)
  ultimately show "(committed_from_staging (staging sha now ts parts is) \<noteq> None) =
      (set parts \<subseteq> pi_partition_id ` set is)"
    by (simp add: all_staged_staging)
qed

theorem staging_incremental_witness:
  "stage_all (\<lambda>_. ''d'')
     [\<lparr>pi_partition_id = 2, pi_prepare_ts = 7, pi_digest = ''b''\<rparr>,
      \<lparr>pi_partition_id = 1, pi_prepare_ts = 7, pi_digest = ''a''\<rparr>] (staging (\<lambda>_. ''d'') 5 7 [2, 1] []) =
   Inr (staging (\<lambda>_. ''d'') 5 7 [2, 1]
     [\<lparr>pi_partition_id = 1, pi_prepare_ts = 7, pi_digest = ''a''\<rparr>,
      \<lparr>pi_partition_id = 2, pi_prepare_ts = 7, pi_digest = ''b''\<rparr>])"
  by (rule staging_incremental [THEN conjunct1]) auto

text \<open>
  An address configuration in the documented format \<open>0=host:port|host:port,1=host:port\<close>
  gives every partition exactly the peers listed for it, in order, and the first
  of them as its address.
\<close>
lemma node_addresses_config:
  assumes "ps \<noteq> []" "distinct (map fst ps)"
    "\<forall>(p, peers) \<in> set ps. peers \<noteq> [] \<and> (\<forall>a \<in> set peers. peer_ok a)"
  shows "addresses_for (addresses_from_config (address_text ps)) p = map_of ps p \<and>
    address_for (addresses_from_config (address_text ps)) p = map_option hd (map_of ps p) \<and>
    set (known_partitions (addresses_from_config (address_text ps))) = fst ` set ps"
proof -
  let ?a = "addresses_from_config (address_text ps)"
  have get: "bt_get ?a q = map_of ps q" for q
    using addresses_from_config_text [OF assms(1,3)]
    by (simp add: bt_get_collect map_of_rev_distinct [OF assms(2)])
  moreover have "peers \<noteq> []" if "map_of ps p = Some peers" for peers
    using map_of_SomeD [OF that] assms(3) by blast
  moreover have "q \<in> set (bt_keys ?a) \<longleftrightarrow> q \<in> fst ` set ps" for q
  proof -
    have "q \<in> set (bt_keys ?a) \<longleftrightarrow> bt_get ?a q \<noteq> None"
      by (simp add: bt_get_def map_of_eq_None_iff)
    also have "\<dots> \<longleftrightarrow> q \<in> fst ` set ps" by (simp add: get map_of_eq_None_iff)
    finally show ?thesis .
  qed
  ultimately show ?thesis
    by (auto simp: addresses_for_def address_for_def known_partitions_def simp del: set_bt_keys
        split: option.splits list.splits)
qed

end
