(* ===== verification/DecisionCodec.thy ===== *)
theory DecisionCodec
  imports Decisions
begin

text \<open>
  One executable codec of decisions, the concrete instance that the witnesses
  give to the serialisation parameter of the shared decision log.  Numbers are
  their big-endian bytes; lists are marked element by element, so that every
  encoding can be read back from the front of a longer text.
\<close>

type_synonym 'a reader = "u8 list \<Rightarrow> ('a \<times> u8 list) option"

definition reads_back :: "('a \<Rightarrow> u8 list) \<Rightarrow> 'a reader \<Rightarrow> bool" where
  "reads_back put get \<longleftrightarrow> (\<forall>x rest. get (put x @ rest) = Some (x, rest))"

definition get_word :: "'w::len word reader" where
  "get_word bs =
     (let n = LENGTH('w) div 8 in
      map_option (\<lambda>w. (w, drop n bs)) (from_be_bytes (take n bs)))"

definition put_option :: "('a \<Rightarrow> u8 list) \<Rightarrow> 'a option \<Rightarrow> u8 list" where
  "put_option put xo = (case xo of None \<Rightarrow> [0] | Some x \<Rightarrow> 1 # put x)"

definition get_option :: "'a reader \<Rightarrow> 'a option reader" where
  "get_option get bs =
     (case bs of
        [] \<Rightarrow> None
      | b # bs' \<Rightarrow> if b = 0 then Some (None, bs') else map_option (\<lambda>(x, r). (Some x, r)) (get bs'))"

definition put_list :: "('a \<Rightarrow> u8 list) \<Rightarrow> 'a list \<Rightarrow> u8 list" where
  "put_list put xs = concat (map (\<lambda>x. 1 # put x) xs) @ [0]"

fun get_list_upto :: "nat \<Rightarrow> 'a reader \<Rightarrow> 'a list reader" where
  "get_list_upto 0 get bs = None"
| "get_list_upto (Suc n) get bs =
     (case bs of
        [] \<Rightarrow> None
      | b # bs' \<Rightarrow>
          if b = 0 then Some ([], bs')
          else (case get bs' of
                  None \<Rightarrow> None
                | Some (x, r) \<Rightarrow> map_option (\<lambda>(xs, r'). (x # xs, r')) (get_list_upto n get r)))"

definition get_list :: "'a reader \<Rightarrow> 'a list reader" where
  "get_list get bs = get_list_upto (length bs) get bs"

definition put_char :: "char \<Rightarrow> u8 list" where
  "put_char c = [word_of_nat (of_char c)]"

definition get_char :: "char reader" where
  "get_char bs = (case bs of [] \<Rightarrow> None | b # bs' \<Rightarrow> Some (char_of (unat b), bs'))"

definition put_pair :: "('a \<Rightarrow> u8 list) \<Rightarrow> ('b \<Rightarrow> u8 list) \<Rightarrow> 'a \<times> 'b \<Rightarrow> u8 list" where
  "put_pair pa pb p = pa (fst p) @ pb (snd p)"

definition get_pair :: "'a reader \<Rightarrow> 'b reader \<Rightarrow> ('a \<times> 'b) reader" where
  "get_pair ga gb bs =
     (case ga bs of
        None \<Rightarrow> None
      | Some (a, r) \<Rightarrow> map_option (\<lambda>(b, r'). ((a, b), r')) (gb r))"

lemma reads_back_word [simp]: "reads_back to_be_bytes (get_word :: u64 reader)"
  "reads_back to_be_bytes (get_word :: u32 reader)"
proof -
  have "length (to_be_bytes (x :: u64)) = 8" "length (to_be_bytes (y :: u32)) = 4" for x y
    by (simp_all add: to_be_bytes_def)
  then show "reads_back to_be_bytes (get_word :: u64 reader)" "reads_back to_be_bytes (get_word :: u32 reader)"
    by (auto simp: reads_back_def get_word_def Let_def)
qed

lemma reads_back_option [simp]: "reads_back put get \<Longrightarrow> reads_back (put_option put) (get_option get)"
  by (auto simp: reads_back_def put_option_def get_option_def split: option.split)

lemma reads_back_char [simp]: "reads_back put_char get_char"
  by (auto simp: reads_back_def put_char_def get_char_def unat_of_nat)

lemma reads_back_pair [simp]:
  "reads_back pa ga \<Longrightarrow> reads_back pb gb \<Longrightarrow> reads_back (put_pair pa pb) (get_pair ga gb)"
  by (auto simp: reads_back_def put_pair_def get_pair_def)

lemma get_list_upto_put:
  assumes "reads_back put get" "length xs < n"
  shows "get_list_upto n get (put_list put xs @ rest) = Some (xs, rest)"
  using assms(2)
proof (induction xs arbitrary: n)
  case Nil
  then show ?case by (cases n) (auto simp: put_list_def)
next
  case (Cons x xs)
  then obtain m where n: "n = Suc m" "length xs < m" by (cases n) auto
  have "get (put x @ put_list put xs @ rest) = Some (x, put_list put xs @ rest)"
    using assms(1) by (simp add: reads_back_def)
  with Cons.IH [OF n(2)] show ?case by (simp add: n(1) put_list_def)
qed

lemma reads_back_list [simp]:
  assumes "reads_back put get"
  shows "reads_back (put_list put) (get_list get)"
proof -
  have "length xs < length (put_list put xs @ rest)" for xs :: "'a list" and rest
    by (induction xs) (auto simp: put_list_def)
  then show ?thesis
    unfolding reads_back_def get_list_def using get_list_upto_put [OF assms] by blast
qed

type_synonym decision_parts =
  "u32 list \<times> u32 list \<times> u64 option \<times> u64 option \<times> string \<times> u64 option \<times> (u32 \<times> u64 \<times> string) list"

abbreviation put_string :: "string \<Rightarrow> u8 list" where
  "put_string \<equiv> put_list put_char"

abbreviation get_string :: "string reader" where
  "get_string \<equiv> get_list get_char"

definition put_parts :: "decision_parts \<Rightarrow> u8 list" where
  "put_parts =
     put_pair (put_list to_be_bytes) (put_pair (put_list to_be_bytes) (put_pair (put_option to_be_bytes)
       (put_pair (put_option to_be_bytes) (put_pair put_string (put_pair (put_option to_be_bytes)
         (put_list (put_pair to_be_bytes (put_pair to_be_bytes put_string))))))))"

definition get_parts :: "decision_parts reader" where
  "get_parts =
     get_pair (get_list get_word) (get_pair (get_list get_word) (get_pair (get_option get_word)
       (get_pair (get_option get_word) (get_pair get_string (get_pair (get_option get_word)
         (get_list (get_pair get_word (get_pair get_word get_string))))))))"

text \<open>
  A staging record has a timestamp and a marker in front of the text, a commit a
  timestamp, a rollback neither.
\<close>

definition decision_parts_of :: "two_phase_decision \<Rightarrow> decision_parts \<times> bool" where
  "decision_parts_of d =
     (case d of
        Staging ts ps is dg s r f \<Rightarrow>
          ((ps, r, f, Some ts, dg, s,
            map (\<lambda>i. (pi_partition_id i, pi_prepare_ts i, pi_digest i)) is), True)
      | Committed ts ps r f \<Rightarrow> ((ps, r, f, Some ts, [], None, []), False)
      | RolledBack reason ps r f \<Rightarrow> ((ps, r, f, None, reason, None, []), False))"

definition decision_of_parts :: "decision_parts \<Rightarrow> bool \<Rightarrow> two_phase_decision" where
  "decision_of_parts parts st =
     (case parts of (ps, r, f, tso, txt, s, is) \<Rightarrow>
        (case tso of
           None \<Rightarrow> RolledBack txt ps r f
         | Some ts \<Rightarrow>
             if st
             then Staging ts ps
                    (map (\<lambda>(p, pts, dg). \<lparr>pi_partition_id = p, pi_prepare_ts = pts, pi_digest = dg\<rparr>) is)
                    txt s r f
             else Committed ts ps r f))"

definition enc_decision :: "two_phase_decision \<Rightarrow> u8 list" where
  "enc_decision d =
     (case decision_parts_of d of (parts, st) \<Rightarrow> (if st then 1 else 0) # put_parts parts)"

definition dec_decision :: "u8 list \<Rightarrow> two_phase_decision option" where
  "dec_decision bs =
     (case bs of
        [] \<Rightarrow> None
      | b # bs' \<Rightarrow> map_option (\<lambda>(parts, _). decision_of_parts parts (b = 1)) (get_parts bs'))"

lemma reads_back_parts: "reads_back put_parts get_parts"
  by (simp add: put_parts_def get_parts_def)

lemma decision_of_parts_of:
  "decision_parts_of d = (parts, st) \<Longrightarrow> decision_of_parts parts st = d"
  by (auto simp: decision_parts_of_def decision_of_parts_def o_def intro!: map_idI
      split: two_phase_decision.splits)

lemma dec_enc_decision: "dec_decision (enc_decision d) = Some d \<and> enc_decision d \<noteq> []"
proof -
  obtain parts st where p: "decision_parts_of d = (parts, st)" by (cases "decision_parts_of d")
  have "get_parts (put_parts parts @ []) = Some (parts, [])"
    using reads_back_parts unfolding reads_back_def by blast
  then show ?thesis
    using p decision_of_parts_of [OF p] by (auto simp: enc_decision_def dec_decision_def)
qed

end
