(* ===== verification/DecisionLog.thy ===== *)
theory DecisionLog
  imports DecisionCodec
begin

text \<open>
  The decision log of two-phase commit, from \<open>crates/database/src/two_phase.rs\<close>:
  the trait \<open>TwoPhaseDecisionLog\<close> with its default \<open>write_decision\<close>, and its
  three implementations: the log that keeps nothing, the log in memory, and the
  log in the shared bucket, where every change of a record is a
  compare-and-swap loop.  JSON encoding and decoding of decisions are the
  parameters \<open>enc\<close> and \<open>dec\<close>; \<open>clock\<close> reads the system time from the world.

  The locale \<open>decision_log_contract\<close> is what the protocol relies on; the
  interpretations show that the shared log and the log in memory keep it.  Debug
  renderings of values and the renderings of bucket errors are left out of error
  messages.
\<close>

section \<open>The trait\<close>

datatype staging_recovery_result =
    RecMissing
  | RecPending two_phase_decision
  | RecCommitted two_phase_decision
  | RecAlreadyFinal two_phase_decision

record 'w decision_log =
  dl_write_if_absent :: "string \<Rightarrow> two_phase_decision \<Rightarrow> 'w \<Rightarrow> (anyhow_error + bool) \<times> 'w"
  dl_get :: "string \<Rightarrow> 'w \<Rightarrow> (anyhow_error + two_phase_decision option) \<times> 'w"
  dl_mark_resolved :: "string \<Rightarrow> partition_id \<Rightarrow> 'w \<Rightarrow> (anyhow_error + two_phase_decision option) \<times> 'w"
  dl_mark_staged :: "string \<Rightarrow> participant_intent \<Rightarrow> 'w \<Rightarrow> (anyhow_error + two_phase_decision option) \<times> 'w"
  dl_recover_staging :: "string \<Rightarrow> 'w \<Rightarrow> (anyhow_error + staging_recovery_result) \<times> 'w"
  dl_delete :: "string \<Rightarrow> 'w \<Rightarrow> (anyhow_error + unit) \<times> 'w"

text \<open>
  \<open>write_decision\<close>, the trait's default method.  \<open>who\<close> is the prefix of its
  messages: the coordinator's \<open>write_decision_record\<close> is the same code.
\<close>

definition write_decision_as ::
  "string \<Rightarrow> 'w decision_log \<Rightarrow> string \<Rightarrow> two_phase_decision \<Rightarrow> 'w \<Rightarrow> (anyhow_error + unit) \<times> 'w" where
  "write_decision_as who log t d w =
     (case dl_write_if_absent log t d w of
        (Inl e, w1) \<Rightarrow> (Inl e, w1)
      | (Inr True, w1) \<Rightarrow> (Inr (), w1)
      | (Inr False, w1) \<Rightarrow>
          (case dl_get log t w1 of
             (Inl e, w2) \<Rightarrow> (Inl e, w2)
           | (Inr None, w2) \<Rightarrow>
               (Inl (anyhow (who @ '': decision for '' @ t @ '' already existed but could not be read'')), w2)
           | (Inr (Some existing), w2) \<Rightarrow>
               if existing = d then (Inr (), w2)
               else (Inl (anyhow (who @ '': durable decision for '' @ t @ '' cannot be overwritten'')), w2)))"

definition write_decision ::
  "'w decision_log \<Rightarrow> string \<Rightarrow> two_phase_decision \<Rightarrow> 'w \<Rightarrow> (anyhow_error + unit) \<times> 'w" where
  "write_decision = write_decision_as ''2PC''"

section \<open>The log that keeps nothing\<close>

definition noop_decision_log :: "'w decision_log" where
  "noop_decision_log = \<lparr>
     dl_write_if_absent = (\<lambda>t d w. (Inr True, w)),
     dl_get = (\<lambda>t w. (Inr None, w)),
     dl_mark_resolved = (\<lambda>t p w. (Inr None, w)),
     dl_mark_staged = (\<lambda>t i w. (Inr None, w)),
     dl_recover_staging = (\<lambda>t w. (Inr RecMissing, w)),
     dl_delete = (\<lambda>t w. (Inr (), w))\<rparr>"

section \<open>The log in memory\<close>

record mem_log =
  ml_decisions :: "(string, two_phase_decision) btree_map"
  ml_clock :: int

definition mem_mark_resolved ::
  "string \<Rightarrow> partition_id \<Rightarrow> mem_log \<Rightarrow> (anyhow_error + two_phase_decision option) \<times> mem_log" where
  "mem_mark_resolved t p w =
     (case bt_get (ml_decisions w) t of
        None \<Rightarrow> (Inr None, w)
      | Some d \<Rightarrow>
          let d' = mark_participant_resolved (now_unix_millis (ml_clock w)) p d
          in (Inr (Some d'), w\<lparr>ml_decisions := bt_insert t d' (ml_decisions w)\<rparr>))"

definition mem_mark_staged ::
  "(u8 list \<Rightarrow> string) \<Rightarrow> string \<Rightarrow> participant_intent \<Rightarrow> mem_log \<Rightarrow>
   (anyhow_error + two_phase_decision option) \<times> mem_log" where
  "mem_mark_staged sha_hex t i w =
     (case bt_get (ml_decisions w) t of
        None \<Rightarrow> (Inr None, w)
      | Some d \<Rightarrow>
          (case mark_participant_staged sha_hex i d of
             Inl e \<Rightarrow> (Inl e, w)
           | Inr d' \<Rightarrow> (Inr (Some d'), w\<lparr>ml_decisions := bt_insert t d' (ml_decisions w)\<rparr>)))"

definition mem_recover_staging ::
  "string \<Rightarrow> mem_log \<Rightarrow> (anyhow_error + staging_recovery_result) \<times> mem_log" where
  "mem_recover_staging t w =
     (case bt_get (ml_decisions w) t of
        None \<Rightarrow> (Inr RecMissing, w)
      | Some d \<Rightarrow>
          if \<not> is_staging d then (Inr (RecAlreadyFinal d), w)
          else (case committed_from_staging d of
                  None \<Rightarrow> (Inr (RecPending d), w)
                | Some c \<Rightarrow> (Inr (RecCommitted c), w\<lparr>ml_decisions := bt_insert t c (ml_decisions w)\<rparr>)))"

definition mem_write_if_absent ::
  "string \<Rightarrow> two_phase_decision \<Rightarrow> mem_log \<Rightarrow> (anyhow_error + bool) \<times> mem_log" where
  "mem_write_if_absent t d w =
     (if bt_get (ml_decisions w) t \<noteq> None then (Inr False, w)
      else (Inr True, w\<lparr>ml_decisions := bt_insert t d (ml_decisions w)\<rparr>))"

definition mem_decision_log :: "(u8 list \<Rightarrow> string) \<Rightarrow> mem_log decision_log" where
  "mem_decision_log sha_hex = \<lparr>
     dl_write_if_absent = mem_write_if_absent,
     dl_get = (\<lambda>t w. (Inr (bt_get (ml_decisions w) t), w)),
     dl_mark_resolved = mem_mark_resolved,
     dl_mark_staged = mem_mark_staged sha_hex,
     dl_recover_staging = mem_recover_staging,
     dl_delete = (\<lambda>t w. (Inr (), w\<lparr>ml_decisions := bt_remove t (ml_decisions w)\<rparr>))\<rparr>"

section \<open>The log in the shared bucket\<close>

definition two_phase_kv_prefix :: string where
  "two_phase_kv_prefix = ''2pc_''"

definition two_phase_decision_key :: "string \<Rightarrow> string" where
  "two_phase_decision_key t = two_phase_kv_prefix @ t"

definition parse_nats_decision_entry ::
  "(u8 list \<Rightarrow> two_phase_decision option) \<Rightarrow> string \<Rightarrow> kv_operation \<Rightarrow> u8 list \<Rightarrow>
   anyhow_error + two_phase_decision option" where
  "parse_nats_decision_entry dec t oper value =
     (if oper \<noteq> KvPut \<or> value = [] then Inr None
      else case dec value of
             None \<Rightarrow> Inl (anyhow (''2PC: Failed to parse decision for '' @ t))
           | Some d \<Rightarrow> Inr (Some d))"

definition read_failed :: "string \<Rightarrow> anyhow_error" where
  "read_failed t = anyhow (''2PC: Failed to read decision for '' @ t)"

text \<open>The three bodies between the read and the write of the loops.\<close>

definition resolve_compute ::
  "(two_phase_decision \<Rightarrow> u8 list) \<Rightarrow> (u8 list \<Rightarrow> two_phase_decision option) \<Rightarrow> string \<Rightarrow> partition_id \<Rightarrow>
   u64 \<Rightarrow> kv_entry option \<Rightarrow>
   (anyhow_error + two_phase_decision option) + u8 list \<times> u64 \<times> two_phase_decision option" where
  "resolve_compute enc dec t p now eo =
     (case eo of
        None \<Rightarrow> Inl (Inr None)
      | Some entry \<Rightarrow>
          (case parse_nats_decision_entry dec t (ke_operation entry) (ke_value entry) of
             Inl e \<Rightarrow> Inl (Inl e)
           | Inr None \<Rightarrow> Inl (Inr None)
           | Inr (Some d) \<Rightarrow>
               let d' = mark_participant_resolved now p d
               in Inr (enc d', ke_revision entry, Some d')))"

definition stage_compute ::
  "(u8 list \<Rightarrow> string) \<Rightarrow> (two_phase_decision \<Rightarrow> u8 list) \<Rightarrow> (u8 list \<Rightarrow> two_phase_decision option) \<Rightarrow>
   string \<Rightarrow> participant_intent \<Rightarrow> kv_entry option \<Rightarrow>
   (anyhow_error + two_phase_decision option) + u8 list \<times> u64 \<times> two_phase_decision option" where
  "stage_compute sha_hex enc dec t i eo =
     (case eo of
        None \<Rightarrow> Inl (Inr None)
      | Some entry \<Rightarrow>
          (case parse_nats_decision_entry dec t (ke_operation entry) (ke_value entry) of
             Inl e \<Rightarrow> Inl (Inl e)
           | Inr None \<Rightarrow> Inl (Inr None)
           | Inr (Some d) \<Rightarrow>
               (case mark_participant_staged sha_hex i d of
                  Inl e \<Rightarrow> Inl (Inl e)
                | Inr d' \<Rightarrow> Inr (enc d', ke_revision entry, Some d'))))"

definition recover_compute ::
  "(two_phase_decision \<Rightarrow> u8 list) \<Rightarrow> (u8 list \<Rightarrow> two_phase_decision option) \<Rightarrow> string \<Rightarrow> kv_entry option \<Rightarrow>
   (anyhow_error + staging_recovery_result) + u8 list \<times> u64 \<times> staging_recovery_result" where
  "recover_compute enc dec t eo =
     (case eo of
        None \<Rightarrow> Inl (Inr RecMissing)
      | Some entry \<Rightarrow>
          (case parse_nats_decision_entry dec t (ke_operation entry) (ke_value entry) of
             Inl e \<Rightarrow> Inl (Inl e)
           | Inr None \<Rightarrow> Inl (Inr RecMissing)
           | Inr (Some d) \<Rightarrow>
               if \<not> is_staging d then Inl (Inr (RecAlreadyFinal d))
               else (case committed_from_staging d of
                       None \<Rightarrow> Inl (Inr (RecPending d))
                     | Some c \<Rightarrow> Inr (enc c, ke_revision entry, RecCommitted c))))"

definition partition_display :: "partition_id \<Rightarrow> string" where
  "partition_display p = ''partition-'' @ decimal (unat p)"

text \<open>Only a conflict of revisions is retried.\<close>

definition update_fatal :: "string \<Rightarrow> kv_error \<Rightarrow> anyhow_error option" where
  "update_fatal msg e = (case e of WrongLastRevision \<Rightarrow> None | KvOther \<Rightarrow> Some (anyhow msg))"

lemma update_fatal_simps [simp]:
  "update_fatal msg WrongLastRevision = None" "update_fatal msg KvOther = Some (anyhow msg)"
  by (simp_all add: update_fatal_def)

definition nats_write_if_absent ::
  "'w kv_store \<Rightarrow> (two_phase_decision \<Rightarrow> u8 list) \<Rightarrow> string \<Rightarrow> two_phase_decision \<Rightarrow> 'w \<Rightarrow>
   (anyhow_error + bool) \<times> 'w" where
  "nats_write_if_absent kv enc t d w =
     (case kv_create_op kv (two_phase_decision_key t) (enc d) w of
        (Inr _, w1) \<Rightarrow> (Inr True, w1)
      | (Inl _, w1) \<Rightarrow> (Inr False, w1))"

definition nats_get_decision ::
  "'w kv_store \<Rightarrow> (u8 list \<Rightarrow> two_phase_decision option) \<Rightarrow> string \<Rightarrow> 'w \<Rightarrow>
   (anyhow_error + two_phase_decision option) \<times> 'w" where
  "nats_get_decision kv dec t w =
     (case kv_entry_op kv (two_phase_decision_key t) w of
        (Inl _, w1) \<Rightarrow> (Inl (read_failed t), w1)
      | (Inr None, w1) \<Rightarrow> (Inr None, w1)
      | (Inr (Some entry), w1) \<Rightarrow>
          (parse_nats_decision_entry dec t (ke_operation entry) (ke_value entry), w1))"

definition nats_mark_resolved ::
  "'w kv_store \<Rightarrow> (two_phase_decision \<Rightarrow> u8 list) \<Rightarrow> (u8 list \<Rightarrow> two_phase_decision option) \<Rightarrow> ('w \<Rightarrow> int) \<Rightarrow>
   string \<Rightarrow> partition_id \<Rightarrow> 'w \<Rightarrow> (anyhow_error + two_phase_decision option) \<times> 'w" where
  "nats_mark_resolved kv enc dec clock t p w =
     cas_retry 10 kv (two_phase_decision_key t) (read_failed t)
       (anyhow (''2PC: Failed to mark '' @ partition_display p @ '' resolved for '' @ t @ '' after CAS retries''))
       (update_fatal (''2PC: Failed to mark '' @ partition_display p @ '' resolved for '' @ t))
       (\<lambda>w1. resolve_compute enc dec t p (now_unix_millis (clock w1))) w"

definition nats_mark_staged ::
  "'w kv_store \<Rightarrow> (u8 list \<Rightarrow> string) \<Rightarrow> (two_phase_decision \<Rightarrow> u8 list) \<Rightarrow>
   (u8 list \<Rightarrow> two_phase_decision option) \<Rightarrow>
   string \<Rightarrow> participant_intent \<Rightarrow> 'w \<Rightarrow> (anyhow_error + two_phase_decision option) \<times> 'w" where
  "nats_mark_staged kv sha_hex enc dec t i w =
     cas_retry 10 kv (two_phase_decision_key t) (read_failed t)
       (anyhow (''2PC: Failed to mark participant '' @ decimal (unat (pi_partition_id i)) @ '' staged for '' @ t @
                '' after CAS retries''))
       (update_fatal (''2PC: Failed to mark participant '' @ decimal (unat (pi_partition_id i)) @ '' staged for '' @ t))
       (\<lambda>_. stage_compute sha_hex enc dec t i) w"

definition nats_recover_staging ::
  "'w kv_store \<Rightarrow> (two_phase_decision \<Rightarrow> u8 list) \<Rightarrow> (u8 list \<Rightarrow> two_phase_decision option) \<Rightarrow>
   string \<Rightarrow> 'w \<Rightarrow> (anyhow_error + staging_recovery_result) \<times> 'w" where
  "nats_recover_staging kv enc dec t w =
     cas_retry 10 kv (two_phase_decision_key t) (read_failed t)
       (anyhow (''2PC: Failed to recover staging decision for '' @ t @ '' after CAS retries''))
       (update_fatal (''2PC: Failed to recover staging decision for '' @ t))
       (\<lambda>_. recover_compute enc dec t) w"

definition nats_delete_decision :: "'w kv_store \<Rightarrow> string \<Rightarrow> 'w \<Rightarrow> (anyhow_error + unit) \<times> 'w" where
  "nats_delete_decision kv t w =
     (case kv_delete_op kv (two_phase_decision_key t) w of
        (Inl _, w1) \<Rightarrow> (Inl (anyhow (''2PC: Failed to delete decision for '' @ t)), w1)
      | (Inr _, w1) \<Rightarrow> (Inr (), w1))"

definition nats_decision_log ::
  "'w kv_store \<Rightarrow> (u8 list \<Rightarrow> string) \<Rightarrow> (two_phase_decision \<Rightarrow> u8 list) \<Rightarrow>
   (u8 list \<Rightarrow> two_phase_decision option) \<Rightarrow> ('w \<Rightarrow> int) \<Rightarrow> 'w decision_log" where
  "nats_decision_log kv sha_hex enc dec clock = \<lparr>
     dl_write_if_absent = nats_write_if_absent kv enc,
     dl_get = nats_get_decision kv dec,
     dl_mark_resolved = nats_mark_resolved kv enc dec clock,
     dl_mark_staged = nats_mark_staged kv sha_hex enc dec,
     dl_recover_staging = nats_recover_staging kv enc dec,
     dl_delete = nats_delete_decision kv\<rparr>"

section \<open>The shared log under the laws of the bucket\<close>

text \<open>The common shape of the three loop bodies: \<open>g\<close> updates the parsed decision.\<close>

definition log_compute ::
  "(two_phase_decision \<Rightarrow> u8 list) \<Rightarrow> (u8 list \<Rightarrow> two_phase_decision option) \<Rightarrow> string \<Rightarrow> 'r \<Rightarrow>
   (two_phase_decision \<Rightarrow> (anyhow_error + 'r) + two_phase_decision \<times> 'r) \<Rightarrow> kv_entry option \<Rightarrow>
   (anyhow_error + 'r) + u8 list \<times> u64 \<times> 'r" where
  "log_compute enc dec t missing g eo =
     (case eo of
        None \<Rightarrow> Inl (Inr missing)
      | Some entry \<Rightarrow>
          (case parse_nats_decision_entry dec t (ke_operation entry) (ke_value entry) of
             Inl e \<Rightarrow> Inl (Inl e)
           | Inr None \<Rightarrow> Inl (Inr missing)
           | Inr (Some d) \<Rightarrow>
               (case g d of Inl res \<Rightarrow> Inl res | Inr (d', r) \<Rightarrow> Inr (enc d', ke_revision entry, r))))"

definition resolve_update ::
  "u64 \<Rightarrow> partition_id \<Rightarrow> two_phase_decision \<Rightarrow>
   (anyhow_error + two_phase_decision option) + two_phase_decision \<times> two_phase_decision option" where
  "resolve_update now p d = (let d' = mark_participant_resolved now p d in Inr (d', Some d'))"

definition stage_update ::
  "(u8 list \<Rightarrow> string) \<Rightarrow> participant_intent \<Rightarrow> two_phase_decision \<Rightarrow>
   (anyhow_error + two_phase_decision option) + two_phase_decision \<times> two_phase_decision option" where
  "stage_update sha_hex i d =
     (case mark_participant_staged sha_hex i d of Inl e \<Rightarrow> Inl (Inl e) | Inr d' \<Rightarrow> Inr (d', Some d'))"

definition recover_update ::
  "two_phase_decision \<Rightarrow>
   (anyhow_error + staging_recovery_result) + two_phase_decision \<times> staging_recovery_result" where
  "recover_update d =
     (if \<not> is_staging d then Inl (Inr (RecAlreadyFinal d))
      else (case committed_from_staging d of
              None \<Rightarrow> Inl (Inr (RecPending d)) | Some c \<Rightarrow> Inr (c, RecCommitted c)))"

lemma compute_shapes:
  "resolve_compute enc dec t p now = log_compute enc dec t None (resolve_update now p)"
  "stage_compute sha_hex enc dec t i = log_compute enc dec t None (stage_update sha_hex i)"
  "recover_compute enc dec t = log_compute enc dec t RecMissing recover_update"
  by (auto simp: fun_eq_iff resolve_compute_def stage_compute_def recover_compute_def log_compute_def
      resolve_update_def stage_update_def recover_update_def Let_def split: option.split sum.split)

lemma updates_le:
  "resolve_update now p d = Inr (d', r) \<Longrightarrow> decision_le d d' \<and> r = Some d'"
  "stage_update sha_hex i d = Inr (d', r) \<Longrightarrow> decision_le d d' \<and> r = Some d'"
  "recover_update d = Inr (d', x) \<Longrightarrow> decision_le d d' \<and> x = RecCommitted d' \<and> committed_from_staging d = Some d'"
  by (auto simp: resolve_update_def stage_update_def recover_update_def Let_def mark_participant_resolved_le
      dest: mark_participant_staged_le committed_from_staging_le split: sum.splits if_splits option.splits)

text \<open>The decision that a bucket holds for a transaction.\<close>

definition json_codec :: "(two_phase_decision \<Rightarrow> u8 list) \<Rightarrow> (u8 list \<Rightarrow> two_phase_decision option) \<Rightarrow> bool" where
  "json_codec enc dec \<longleftrightarrow> (\<forall>d. dec (enc d) = Some d \<and> enc d \<noteq> [])"

definition entry_decision :: "(u8 list \<Rightarrow> two_phase_decision option) \<Rightarrow> kv_entry option \<Rightarrow> two_phase_decision option" where
  "entry_decision dec eo =
     (case eo of
        None \<Rightarrow> None
      | Some e \<Rightarrow> if ke_operation e \<noteq> KvPut \<or> ke_value e = [] then None else dec (ke_value e))"

definition decision_at ::
  "('w \<Rightarrow> kv_view) \<Rightarrow> (u8 list \<Rightarrow> two_phase_decision option) \<Rightarrow> 'w \<Rightarrow> string \<Rightarrow> two_phase_decision option" where
  "decision_at view dec w t = entry_decision dec (view w (two_phase_decision_key t))"

lemma two_phase_decision_key_inj [simp]: "two_phase_decision_key t = two_phase_decision_key t' \<longleftrightarrow> t = t'"
  by (simp add: two_phase_decision_key_def)

lemma entry_decision_put:
  "json_codec enc dec \<Longrightarrow>
    entry_decision dec (Some \<lparr>ke_value = enc d, ke_revision = n, ke_operation = KvPut\<rparr>) = Some d"
  by (simp add: entry_decision_def json_codec_def)

lemma entry_decision_delete:
  "entry_decision dec (Some \<lparr>ke_value = v, ke_revision = n, ke_operation = KvDelete\<rparr>) = None"
  by (simp add: entry_decision_def)

lemma entry_decision_live: "entry_decision dec (v k) \<noteq> None \<Longrightarrow> kv_live v k"
  by (auto simp: entry_decision_def kv_live_def split: option.splits if_splits)

lemma decision_at_written:
  assumes "json_codec enc dec" "kv_written (view w) (two_phase_decision_key t) (enc d) KvPut (view w')"
  shows "decision_at view dec w' = (decision_at view dec w)(t \<mapsto> d)"
  using assms by (auto simp: kv_written_def decision_at_def fun_eq_iff entry_decision_put)

lemma decision_at_deleted:
  assumes "kv_written (view w) (two_phase_decision_key t) v KvDelete (view w')"
  shows "decision_at view dec w' = (decision_at view dec w)(t := None)"
  using assms by (auto simp: kv_written_def decision_at_def fun_eq_iff entry_decision_delete)

lemma log_compute_cases:
  assumes "log_compute enc dec t missing g eo = c"
  obtains (missing) "entry_decision dec eo = None" "c = Inl (Inr missing)"
  | (failed) e where "c = Inl (Inl e)"
  | (ended) d res where "entry_decision dec eo = Some d" "g d = Inl res" "c = Inl res"
  | (update) e d d' r where "eo = Some e" "entry_decision dec eo = Some d" "g d = Inr (d', r)"
      "c = Inr (enc d', ke_revision e, r)"
  using assms
  by (auto simp: log_compute_def parse_nats_decision_entry_def entry_decision_def
      split: option.splits sum.splits if_splits)

lemma kv_update_decision:
  assumes "kv_laws view kv" "json_codec enc dec"
    and "kv_update_op kv (two_phase_decision_key t) (enc d) revn w = (r, w')"
  shows "decision_at view dec w' = (decision_at view dec w)(t \<mapsto> d) \<and> r \<noteq> Inl WrongLastRevision \<or>
    decision_at view dec w' = decision_at view dec w \<and> \<not> is_ok r \<and> view w' = view w"
proof -
  from assms(1,3) consider
    "kv_written (view w) (two_phase_decision_key t) (enc d) KvPut (view w') \<and> r \<noteq> Inl WrongLastRevision"
    | "view w' = view w \<and> \<not> is_ok r"
    unfolding kv_laws_def by blast
  then show ?thesis
    using decision_at_written [where view = view and w = w and w' = w' and t = t and d = d, OF assms(2)]
    by cases (auto simp: decision_at_def fun_eq_iff)
qed

lemma kv_entry_decision:
  assumes "kv_laws view kv" "kv_entry_op kv (two_phase_decision_key t) w = (r, w')"
  shows "decision_at view dec w' = decision_at view dec w"
    "r = Inr eo \<Longrightarrow> eo = view w (two_phase_decision_key t) \<and> entry_decision dec eo = decision_at view dec w t"
proof -
  from assms have *: "view w' = view w \<and> (\<forall>e. r = Inr e \<longrightarrow> e = view w (two_phase_decision_key t))"
    unfolding kv_laws_def by blast
  then show "decision_at view dec w' = decision_at view dec w" by (simp add: decision_at_def fun_eq_iff)
  from * show "r = Inr eo \<Longrightarrow> eo = view w (two_phase_decision_key t) \<and> entry_decision dec eo = decision_at view dec w t"
    by (auto simp: decision_at_def)
qed

text \<open>
  One run of a loop: it leaves the decisions alone, or it applies its update once
  to the decision of its own transaction, and what it returns is what it did.
\<close>

definition log_effect ::
  "(string \<Rightarrow> two_phase_decision option) \<Rightarrow> (string \<Rightarrow> two_phase_decision option) \<Rightarrow> string \<Rightarrow> 'r \<Rightarrow>
   (('w \<Rightarrow> two_phase_decision \<Rightarrow> (anyhow_error + 'r) + two_phase_decision \<times> 'r)) \<Rightarrow> anyhow_error + 'r \<Rightarrow> bool" where
  "log_effect D D' t missing g r \<longleftrightarrow>
     D' = D \<and> (\<forall>x. r = Inr x \<longrightarrow>
        D t = None \<and> x = missing \<or> (\<exists>d w. D t = Some d \<and> g w d = Inl (Inr x))) \<or>
     (\<exists>d w d' x. D t = Some d \<and> g w d = Inr (d', x) \<and> D' = D(t \<mapsto> d') \<and> (\<forall>y. r = Inr y \<longrightarrow> y = x))"

lemma cas_retry_decision:
  assumes laws: "kv_laws view kv" and codec: "json_codec enc dec"
    and run: "cas_retry n kv (two_phase_decision_key t) re ex (update_fatal m)
      (\<lambda>w1. log_compute enc dec t missing (g w1)) w = (r, w')"
  shows "log_effect (decision_at view dec w) (decision_at view dec w') t missing g r"
  using run
proof (induction n arbitrary: w)
  case 0
  then show ?case by (auto simp: log_effect_def)
next
  case (Suc n)
  let ?k = "two_phase_decision_key t"
  let ?D = "decision_at view dec"
  obtain ro w1 where ent: "kv_entry_op kv ?k w = (ro, w1)" by (cases "kv_entry_op kv ?k w")
  note D1 = kv_entry_decision(1) [OF laws ent, of dec]
  show ?case
  proof (cases ro)
    case (Inl e)
    with Suc.prems ent D1 show ?thesis by (auto simp: log_effect_def)
  next
    case (Inr eo)
    note eo = kv_entry_decision(2) [OF laws ent Inr, of dec]
    obtain c where c: "log_compute enc dec t missing (g w1) eo = c" by blast
    from c show ?thesis
    proof (cases rule: log_compute_cases)
      case missing
      with Suc.prems ent D1 eo Inr c show ?thesis by (auto simp: log_effect_def)
    next
      case (failed e)
      with Suc.prems ent D1 eo Inr c show ?thesis by (auto simp: log_effect_def)
    next
      case (ended d res)
      with Suc.prems ent D1 eo Inr c show ?thesis by (auto simp: log_effect_def)
    next
      case (update e d d' x)
      obtain ru w2 where upd: "kv_update_op kv ?k (enc d') (ke_revision e) w1 = (ru, w2)"
        by (cases "kv_update_op kv ?k (enc d') (ke_revision e) w1")
      note D2 = kv_update_decision [OF laws codec upd]
      have d: "?D w t = Some d" using eo update(2) by metis
      show ?thesis
      proof (cases ru)
        case (Inr y)
        with D2 have "?D w2 = (?D w)(t \<mapsto> d')" by (simp add: D1)
        moreover have "r = Inr x" "w' = w2" using Suc.prems ent \<open>ro = Inr eo\<close> c update upd Inr by simp_all
        ultimately show ?thesis using d update unfolding log_effect_def by blast
      next
        case (Inl err)
        show ?thesis
        proof (cases err)
          case WrongLastRevision
          with D2 Inl have "?D w2 = ?D w" by (simp add: D1)
          moreover have "cas_retry n kv ?k re ex (update_fatal m)
              (\<lambda>w1. log_compute enc dec t missing (g w1)) w2 = (r, w')"
            using Suc.prems ent \<open>ro = Inr eo\<close> c update upd Inl WrongLastRevision by simp
          ultimately show ?thesis using Suc.IH [of w2] by simp
        next
          case KvOther
          then have "r = Inl (anyhow m)" "w' = w2"
            using Suc.prems ent \<open>ro = Inr eo\<close> c update upd Inl by simp_all
          with D2 d update(3) show ?thesis unfolding log_effect_def D1 by (simp, blast)
        qed
      qed
    qed
  qed
qed

section \<open>The contract of a decision log\<close>

lemma log_effect_reindex: "log_effect D D' t m (\<lambda>w. g (f w)) r \<Longrightarrow> log_effect D D' t m g r"
  unfolding log_effect_def by blast

text \<open>
  \<open>lookup\<close> is the abstract state, a decision per transaction; \<open>invar\<close> is what the
  implementation keeps.  A call touches its own transaction only.  A refused
  write may have been applied all the same (its answer was lost), but never over
  a decision.
\<close>

locale decision_log_contract =
  fixes log :: "'w decision_log"
    and lookup :: "'w \<Rightarrow> string \<Rightarrow> two_phase_decision option"
    and invar :: "'w \<Rightarrow> bool"
    and sha_hex :: "u8 list \<Rightarrow> string"
  assumes write_law: "invar w \<Longrightarrow> dl_write_if_absent log t d w = (r, w') \<Longrightarrow>
      invar w' \<and> (lookup w t = None \<and> lookup w' = (lookup w)(t \<mapsto> d) \<or> lookup w' = lookup w \<and> r \<noteq> Inr True)"
    and get_law: "invar w \<Longrightarrow> dl_get log t w = (rg, w') \<Longrightarrow>
      invar w' \<and> lookup w' = lookup w \<and> (\<forall>x. rg = Inr x \<longrightarrow> x = lookup w t)"
    and resolve_law: "invar w \<Longrightarrow> dl_mark_resolved log t p w = (rg, w') \<Longrightarrow>
      invar w' \<and> log_effect (lookup w) (lookup w') t None (\<lambda>now. resolve_update now p) rg"
    and stage_law: "invar w \<Longrightarrow> dl_mark_staged log t i w = (rg, w') \<Longrightarrow>
      invar w' \<and> log_effect (lookup w) (lookup w') t None (\<lambda>_ :: unit. stage_update sha_hex i) rg"
    and recover_law: "invar w \<Longrightarrow> dl_recover_staging log t w = (rr, w') \<Longrightarrow>
      invar w' \<and> log_effect (lookup w) (lookup w') t RecMissing (\<lambda>_ :: unit. recover_update) rr"
    and delete_law: "invar w \<Longrightarrow> dl_delete log t w = (ru, w') \<Longrightarrow>
      invar w' \<and> (lookup w' = (lookup w)(t := None) \<or> lookup w' = lookup w \<and> \<not> is_ok ru)"
begin

lemma write_decision_result:
  assumes "invar w" "write_decision_as who log t d w = (r, w')"
  shows "invar w' \<and> (lookup w t = None \<and> lookup w' = (lookup w)(t \<mapsto> d) \<or> lookup w' = lookup w) \<and>
    (r = Inr () \<longrightarrow> lookup w' t = Some d)"
proof -
  obtain rw w1 where w1: "dl_write_if_absent log t d w = (rw, w1)"
    by (cases "dl_write_if_absent log t d w")
  note W = write_law [OF assms(1) w1]
  show ?thesis
  proof (cases rw)
    case (Inl e)
    then show ?thesis using assms(2) w1 W by (auto simp: write_decision_as_def)
  next
    case (Inr b)
    obtain rg w2 where w2: "dl_get log t w1 = (rg, w2)" by (cases "dl_get log t w1")
    from W have "invar w1" by blast
    note G = get_law [OF this w2]
    show ?thesis
    proof (cases b)
      case True
      then show ?thesis using assms(2) w1 W Inr by (auto simp: write_decision_as_def)
    next
      case False
      then show ?thesis
        using assms(2) w1 W Inr w2 G
        by (auto simp: write_decision_as_def split: sum.splits option.splits if_splits)
    qed
  qed
qed

lemma log_effect_monotone:
  assumes "log_effect (lookup w) (lookup w') t m g r"
    and "\<And>w d d' x. g w d = Inr (d', x) \<Longrightarrow> decision_le d d'"
    and "lookup w t' = Some d"
  shows "\<exists>d'. lookup w' t' = Some d' \<and> decision_le d d'"
  using assms unfolding log_effect_def by (auto simp: fun_upd_def)

end

lemma log_effect_same:
  "\<forall>x. r = Inr x \<longrightarrow> D t = None \<and> x = m \<or> (\<exists>d w. D t = Some d \<and> g w d = Inl (Inr x)) \<Longrightarrow>
    log_effect D D t m g r"
  by (simp add: log_effect_def)

lemma log_effect_update: "D t = Some d \<Longrightarrow> g w d = Inr (d', x) \<Longrightarrow> log_effect D (D(t \<mapsto> d')) t m g (Inr x)"
  unfolding log_effect_def by auto

interpretation shared_log: decision_log_contract "nats_decision_log kv sha_hex enc dec clock"
  "decision_at view dec" "\<lambda>_. kv_laws view kv \<and> json_codec enc dec" sha_hex
  for kv :: "'w kv_store" and view sha_hex enc dec clock
proof (unfold_locales, goal_cases)
  case (1 w t d r w')
  then have laws: "kv_laws view kv" and codec: "json_codec enc dec" by simp_all
  obtain rc w1 where c: "kv_create_op kv (two_phase_decision_key t) (enc d) w = (rc, w1)"
    by (cases "kv_create_op kv (two_phase_decision_key t) (enc d) w")
  with 1(2) have r: "w' = w1" "r = Inr (is_ok rc)"
    by (auto simp: nats_decision_log_def nats_write_if_absent_def split: sum.splits)
  from laws c have "\<not> kv_live (view w) (two_phase_decision_key t) \<and>
        kv_written (view w) (two_phase_decision_key t) (enc d) KvPut (view w1) \<or>
      view w1 = view w \<and> \<not> is_ok rc"
    unfolding kv_laws_def by blast
  then show ?case
  proof (elim disjE conjE)
    assume "\<not> kv_live (view w) (two_phase_decision_key t)"
    then have "decision_at view dec w t = None"
      unfolding decision_at_def using entry_decision_live by fastforce
    moreover assume "kv_written (view w) (two_phase_decision_key t) (enc d) KvPut (view w1)"
    ultimately show ?thesis
      using decision_at_written [OF codec, where view = view and w = w and w' = w1] r laws codec by blast
  next
    assume "view w1 = view w" "\<not> is_ok rc"
    then show ?thesis using r laws codec by (auto simp: decision_at_def fun_eq_iff)
  qed
next
  case (2 w t rg w')
  then have laws: "kv_laws view kv" and codec: "json_codec enc dec" by simp_all
  obtain re w1 where e: "kv_entry_op kv (two_phase_decision_key t) w = (re, w1)"
    by (cases "kv_entry_op kv (two_phase_decision_key t) w")
  note D1 = kv_entry_decision(1) [OF laws e, of dec]
  show ?case
  proof (cases re)
    case (Inl err)
    then show ?thesis using 2 e D1 by (auto simp: nats_decision_log_def nats_get_decision_def)
  next
    case (Inr eo)
    note eo = kv_entry_decision(2) [OF laws e Inr, of dec]
    show ?thesis
    proof (intro conjI)
      show "decision_at view dec w' = decision_at view dec w"
        using 2 e D1 Inr by (auto simp: nats_decision_log_def nats_get_decision_def split: option.splits)
      show "\<forall>x. rg = Inr x \<longrightarrow> x = decision_at view dec w t"
        using 2(2) e Inr eo
        by (auto simp: nats_decision_log_def nats_get_decision_def parse_nats_decision_entry_def
            entry_decision_def split: option.splits if_splits)
    qed (use laws codec in simp_all)
  qed
next
  case (3 w t p rg w')
  then show ?case
    using cas_retry_decision [where g = "\<lambda>w1. resolve_update (now_unix_millis (clock w1)) p" and n = 10
        and view = view and dec = dec and enc = enc and kv = kv and w = w and w' = w' and r = rg and t = t]
      log_effect_reindex [where g = "\<lambda>now. resolve_update now p" and f = "\<lambda>w1. now_unix_millis (clock w1)"]
    by (simp add: nats_decision_log_def nats_mark_resolved_def compute_shapes)
next
  case (4 w t i rg w')
  then show ?case
    using cas_retry_decision [where g = "\<lambda>_. stage_update sha_hex i" and n = 10
        and view = view and dec = dec and enc = enc and kv = kv and w = w and w' = w' and r = rg and t = t]
      log_effect_reindex [where g = "\<lambda>_ :: unit. stage_update sha_hex i" and f = "\<lambda>_ :: 'w. ()"]
    by (simp add: nats_decision_log_def nats_mark_staged_def compute_shapes)
next
  case (5 w t rr w')
  then show ?case
    using cas_retry_decision [where g = "\<lambda>_. recover_update" and n = 10
        and view = view and dec = dec and enc = enc and kv = kv and w = w and w' = w' and r = rr and t = t]
      log_effect_reindex [where g = "\<lambda>_ :: unit. recover_update" and f = "\<lambda>_ :: 'w. ()"]
    by (simp add: nats_decision_log_def nats_recover_staging_def compute_shapes)
next
  case (6 w t ru w')
  then have laws: "kv_laws view kv" and codec: "json_codec enc dec" by simp_all
  obtain rd w1 where e: "kv_delete_op kv (two_phase_decision_key t) w = (rd, w1)"
    by (cases "kv_delete_op kv (two_phase_decision_key t) w")
  with 6(2) have r: "w' = w1" "is_ok ru = is_ok rd"
    by (auto simp: nats_decision_log_def nats_delete_decision_def split: sum.splits)
  from laws e have "kv_written (view w) (two_phase_decision_key t) [] KvDelete (view w1) \<or>
      view w1 = view w \<and> \<not> is_ok rd"
    unfolding kv_laws_def by blast
  then show ?case
  proof (elim disjE conjE)
    assume "kv_written (view w) (two_phase_decision_key t) [] KvDelete (view w1)"
    from decision_at_deleted [OF this] r laws codec show ?thesis by blast
  next
    assume "view w1 = view w" "\<not> is_ok rd"
    then show ?thesis using r laws codec by (auto simp: decision_at_def fun_eq_iff)
  qed
qed

interpretation memory_log: decision_log_contract "mem_decision_log sha_hex"
  "\<lambda>w. bt_get (ml_decisions w)" "\<lambda>w. bt_wf (ml_decisions w)" sha_hex
  for sha_hex
proof (unfold_locales, goal_cases)
  case (1 w t d r w')
  then show ?case
    by (auto simp: mem_decision_log_def mem_write_if_absent_def bt_get_insert fun_eq_iff split: if_splits)
next
  case (2 w t rg w')
  then show ?case by (auto simp: mem_decision_log_def)
next
  case (3 w t p rg w')
  show ?case
  proof (cases "bt_get (ml_decisions w) t")
    case None
    with 3 show ?thesis by (auto simp: mem_decision_log_def mem_mark_resolved_def intro: log_effect_same)
  next
    case (Some d)
    let ?n = "now_unix_millis (ml_clock w)"
    let ?d = "mark_participant_resolved ?n p d"
    have "rg = Inr (Some ?d)" "bt_get (ml_decisions w') = (bt_get (ml_decisions w))(t \<mapsto> ?d)"
      "bt_wf (ml_decisions w')"
      using 3 Some by (auto simp: mem_decision_log_def mem_mark_resolved_def Let_def bt_get_insert fun_eq_iff)
    then show ?thesis
      using log_effect_update [of "bt_get (ml_decisions w)" t d "\<lambda>now. resolve_update now p" ?n ?d "Some ?d" None] Some
      by (simp add: resolve_update_def Let_def)
  qed
next
  case (4 w t i rg w')
  show ?case
  proof (cases "bt_get (ml_decisions w) t")
    case None
    with 4 show ?thesis by (auto simp: mem_decision_log_def mem_mark_staged_def intro: log_effect_same)
  next
    case (Some d)
    show ?thesis
    proof (cases "mark_participant_staged sha_hex i d")
      case (Inl e)
      with 4 Some show ?thesis by (auto simp: mem_decision_log_def mem_mark_staged_def intro: log_effect_same)
    next
      case (Inr d')
      have "rg = Inr (Some d')" "bt_get (ml_decisions w') = (bt_get (ml_decisions w))(t \<mapsto> d')"
        "bt_wf (ml_decisions w')"
        using 4 Some Inr by (auto simp: mem_decision_log_def mem_mark_staged_def bt_get_insert fun_eq_iff)
      then show ?thesis
        using log_effect_update [of "bt_get (ml_decisions w)" t d "\<lambda>_ :: unit. stage_update sha_hex i" "()" d' "Some d'" None]
          Some Inr by (simp add: stage_update_def)
    qed
  qed
next
  case (5 w t rr w')
  show ?case
  proof (cases "bt_get (ml_decisions w) t")
    case None
    with 5 show ?thesis by (auto simp: mem_decision_log_def mem_recover_staging_def intro: log_effect_same)
  next
    case (Some d)
    show ?thesis
    proof (cases "recover_update d")
      case (Inl res)
      with 5 Some show ?thesis
        by (auto simp: mem_decision_log_def mem_recover_staging_def recover_update_def
            intro!: log_effect_same split: if_splits option.splits)
    next
      case (Inr q)
      then obtain d' where q: "q = (d', RecCommitted d')" "committed_from_staging d = Some d'" "is_staging d"
        by (auto simp: recover_update_def split: if_splits option.splits)
      have "rr = Inr (RecCommitted d')" "bt_get (ml_decisions w') = (bt_get (ml_decisions w))(t \<mapsto> d')"
        "bt_wf (ml_decisions w')"
        using 5 Some q by (auto simp: mem_decision_log_def mem_recover_staging_def bt_get_insert fun_eq_iff)
      then show ?thesis
        using log_effect_update [of "bt_get (ml_decisions w)" t d "\<lambda>_ :: unit. recover_update" "()" d' "RecCommitted d'" RecMissing]
          Some Inr q by simp
    qed
  qed
next
  case (6 w t ru w')
  then show ?case by (auto simp: mem_decision_log_def bt_get_remove fun_eq_iff)
qed

lemma sample_codec: "json_codec enc_decision dec_decision"
  using dec_enc_decision by (simp add: json_codec_def)

section \<open>Properties\<close>

text \<open>
  C6. Writing a decision never changes a decision that is already there, and
  touches no other transaction; and when the call returns without an error, the
  log holds exactly the decision that was written, even when the answer of the
  bucket to the first attempt was lost.
\<close>
theorem decision_written_once:
  assumes "kv_laws view kv" "json_codec enc dec"
    "write_decision (nats_decision_log kv sha_hex enc dec clock) t d w = (r, w')"
  shows "(\<forall>t'. t' \<noteq> t \<longrightarrow> decision_at view dec w' t' = decision_at view dec w t') \<and>
    (decision_at view dec w t = None \<or> decision_at view dec w' t = decision_at view dec w t) \<and>
    (r = Inr () \<longrightarrow> decision_at view dec w' t = Some d)"
  using shared_log.write_decision_result [where view = view and w = w, OF _ assms(3) [unfolded write_decision_def]] assms(1,2)
  by (auto simp: fun_upd_def)

theorem decision_written_once_witness:
  "let log = nats_decision_log mem_kv (\<lambda>_. []) enc_decision dec_decision (\<lambda>_. 0);
       (r, w') = write_decision log ''t'' (committed 5 [0, 1]) ([], 0)
   in r = Inr () \<and> decision_at mem_view dec_decision w' ''t'' = Some (committed 5 [0, 1])"
proof -
  let ?log = "nats_decision_log mem_kv (\<lambda>_. []) enc_decision dec_decision (\<lambda>_. 0)"
  obtain r w' where run: "write_decision ?log ''t'' (committed 5 [0, 1]) ([], 0) = (r, w')"
    by (cases "write_decision ?log ''t'' (committed 5 [0, 1]) ([], 0)")
  moreover from run have "r = Inr ()"
    by (simp add: write_decision_def write_decision_as_def nats_decision_log_def nats_write_if_absent_def
        mem_kv_def mem_live_def mem_view_def mem_put_def)
  ultimately show ?thesis
    using decision_written_once [OF mem_kv_laws sample_codec run] by (simp add: Let_def)
qed

text \<open>
  C8. Recovering a staging record commits it exactly when every participant of
  the record has staged its intent, at the timestamp and with the participants
  of the record; it leaves a pending or a final record alone; and what it reports is what
  the log then holds.
\<close>
theorem recover_staging_exact:
  assumes "kv_laws view kv" "json_codec enc dec"
    "dl_recover_staging (nats_decision_log kv sha_hex enc dec clock) t w = (Inr res, w')"
  shows "case res of
      RecMissing \<Rightarrow> decision_at view dec w t = None \<and> decision_at view dec w' = decision_at view dec w
    | RecPending d \<Rightarrow> decision_at view dec w t = Some d \<and> is_staging d \<and> \<not> all_participants_staged d \<and>
        decision_at view dec w' = decision_at view dec w
    | RecCommitted c \<Rightarrow> (\<exists>d. decision_at view dec w t = Some d \<and> is_staging d \<and> all_participants_staged d \<and>
        c = Committed (commit_ts d) (participants d) (resolved_participants d) (fully_resolved_at d)) \<and>
        decision_at view dec w' = (decision_at view dec w)(t \<mapsto> c)
    | RecAlreadyFinal d \<Rightarrow> decision_at view dec w t = Some d \<and> \<not> is_staging d \<and>
        decision_at view dec w' = decision_at view dec w"
proof -
  have "log_effect (decision_at view dec w) (decision_at view dec w') t RecMissing
      (\<lambda>_ :: unit. recover_update) (Inr res)"
    using shared_log.recover_law [where view = view and w = w, OF _ assms(3)] assms(1,2) by blast
  moreover have "committed_from_staging d = Some c \<longleftrightarrow> is_staging d \<and> all_participants_staged d \<and>
      c = Committed (commit_ts d) (participants d) (resolved_participants d) (fully_resolved_at d)" for d c
    by (cases d) auto
  moreover have "committed_from_staging d = None \<longleftrightarrow> \<not> (is_staging d \<and> all_participants_staged d)" for d
    by (cases d) auto
  ultimately show ?thesis
    by (auto simp: log_effect_def recover_update_def split: staging_recovery_result.split if_splits option.splits)
qed

theorem recover_staging_exact_witness:
  "let log = nats_decision_log mem_kv (\<lambda>_. []) enc_decision dec_decision (\<lambda>_. 0);
       d = staging (\<lambda>_. []) 0 5 [1] [\<lparr>pi_partition_id = 1, pi_prepare_ts = 5, pi_digest = []\<rparr>];
       w = ([(two_phase_decision_key ''t'', \<lparr>ke_value = enc_decision d, ke_revision = 1, ke_operation = KvPut\<rparr>)], 1);
       (r, w') = dl_recover_staging log ''t'' w
   in r = Inr (RecCommitted (committed 5 [1])) \<and>
      decision_at mem_view dec_decision w' ''t'' = Some (committed 5 [1])"
proof -
  let ?log = "nats_decision_log mem_kv (\<lambda>_. []) enc_decision dec_decision (\<lambda>_. 0)"
  define d where "d = staging (\<lambda>_. []) 0 5 [1] [\<lparr>pi_partition_id = 1, pi_prepare_ts = 5, pi_digest = []\<rparr>]"
  define w :: mem_bucket where "w = ([(two_phase_decision_key ''t'',
      \<lparr>ke_value = enc_decision d, ke_revision = 1, ke_operation = KvPut\<rparr>)], 1)"
  have d: "is_staging d" "committed_from_staging d = Some (committed 5 [1])"
    by (simp_all add: d_def staging_def sort_dedup_def committed_def Let_def)
  obtain r w' where run: "dl_recover_staging ?log ''t'' w = (r, w')"
    by (cases "dl_recover_staging ?log ''t'' w")
  moreover have "r = Inr (RecCommitted (committed 5 [1]))"
    using run dec_enc_decision [of d] d
    by (simp add: nats_decision_log_def nats_recover_staging_def numeral_eq_Suc mem_kv_def mem_view_def w_def
        recover_compute_def parse_nats_decision_entry_def mem_put_def)
  ultimately show ?thesis
    using recover_staging_exact [OF mem_kv_laws sample_codec, of "\<lambda>_. []" "\<lambda>_. 0" "''t''" w]
    by (simp add: Let_def d_def w_def)
qed

end
