(* ===== verification/DecisionCluster.thy ===== *)
theory DecisionCluster
  imports DecisionLog
begin

text \<open>
  Many nodes on one decision log.  A call of the log in
  \<open>crates/database/src/two_phase.rs\<close> is cut at its awaits: a compare-and-swap
  loop is one step that reads the entry and one that writes it back, and steps
  of other nodes may come between.  The invariant relates every decision that any
  call has ever returned to the decision the bucket holds now.
\<close>

section \<open>Interleaved calls\<close>

datatype log_call =
    CallGet
  | CallResolve partition_id u64
  | CallStage participant_intent
  | CallRecover

text \<open>The write that a call asks for after reading an entry, and the decision it returns if it succeeds.\<close>

fun call_write ::
  "(u8 list \<Rightarrow> string) \<Rightarrow> (two_phase_decision \<Rightarrow> u8 list) \<Rightarrow> (u8 list \<Rightarrow> two_phase_decision option) \<Rightarrow>
   string \<Rightarrow> log_call \<Rightarrow> kv_entry option \<Rightarrow> (u8 list \<times> u64 \<times> two_phase_decision) option" where
  "call_write sha_hex enc dec t CallGet eo = None"
| "call_write sha_hex enc dec t (CallResolve p now) eo =
     (case resolve_compute enc dec t p now eo of
        Inr (bytes, revn, Some d) \<Rightarrow> Some (bytes, revn, d) | _ \<Rightarrow> None)"
| "call_write sha_hex enc dec t (CallStage i) eo =
     (case stage_compute sha_hex enc dec t i eo of
        Inr (bytes, revn, Some d) \<Rightarrow> Some (bytes, revn, d) | _ \<Rightarrow> None)"
| "call_write sha_hex enc dec t CallRecover eo =
     (case recover_compute enc dec t eo of
        Inr (bytes, revn, RecCommitted d) \<Rightarrow> Some (bytes, revn, d) | _ \<Rightarrow> None)"

text \<open>
  \<open>lc_calls\<close> holds, per process, the transaction, the call and the entry it read;
  \<open>lc_returned\<close> every decision some call has returned; \<open>lc_deleted\<close> the
  transactions whose record has been garbage collected.
\<close>

record 's log_cluster =
  lc_bucket :: 's
  lc_calls :: "nat \<Rightarrow> (string \<times> log_call \<times> kv_entry option) option"
  lc_returned :: "(string \<times> two_phase_decision) set"
  lc_deleted :: "string set"

inductive log_step ::
  "('s \<Rightarrow> kv_view) \<Rightarrow> 's kv_store \<Rightarrow> (u8 list \<Rightarrow> string) \<Rightarrow> (two_phase_decision \<Rightarrow> u8 list) \<Rightarrow>
   (u8 list \<Rightarrow> two_phase_decision option) \<Rightarrow> 's log_cluster \<Rightarrow> 's log_cluster \<Rightarrow> bool"
  for view kv sha_hex enc dec where
  create: "kv_create_op kv (two_phase_decision_key t) (enc d) (lc_bucket c) = (r, s) \<Longrightarrow>
    log_step view kv sha_hex enc dec c
      (c\<lparr>lc_bucket := s,
         lc_returned := (if is_ok r then insert (t, d) (lc_returned c) else lc_returned c)\<rparr>)"
| read: "kv_entry_op kv (two_phase_decision_key t) (lc_bucket c) = (Inr eo, s) \<Longrightarrow>
    log_step view kv sha_hex enc dec c
      (c\<lparr>lc_bucket := s, lc_calls := (lc_calls c)(n := Some (t, call, eo)),
         lc_returned := (case entry_decision dec eo of
           None \<Rightarrow> lc_returned c | Some d \<Rightarrow> insert (t, d) (lc_returned c))\<rparr>)"
| read_fails: "kv_entry_op kv k (lc_bucket c) = (Inl e, s) \<Longrightarrow>
    log_step view kv sha_hex enc dec c (c\<lparr>lc_bucket := s\<rparr>)"
| swap: "lc_calls c n = Some (t, call, eo) \<Longrightarrow>
    call_write sha_hex enc dec t call eo = Some (bytes, revn, d) \<Longrightarrow>
    kv_update_op kv (two_phase_decision_key t) bytes revn (lc_bucket c) = (r, s) \<Longrightarrow>
    log_step view kv sha_hex enc dec c
      (c\<lparr>lc_bucket := s, lc_calls := (lc_calls c)(n := None),
         lc_returned := (if is_ok r then insert (t, d) (lc_returned c) else lc_returned c)\<rparr>)"
| delete: "kv_delete_op kv (two_phase_decision_key t) (lc_bucket c) = (r, s) \<Longrightarrow>
    log_step view kv sha_hex enc dec c
      (c\<lparr>lc_bucket := s, lc_deleted := insert t (lc_deleted c)\<rparr>)"
| crash: "log_step view kv sha_hex enc dec c (c\<lparr>lc_calls := (lc_calls c)(n := None)\<rparr>)"

inductive log_reachable ::
  "('s \<Rightarrow> kv_view) \<Rightarrow> 's kv_store \<Rightarrow> (u8 list \<Rightarrow> string) \<Rightarrow> (two_phase_decision \<Rightarrow> u8 list) \<Rightarrow>
   (u8 list \<Rightarrow> two_phase_decision option) \<Rightarrow> 's log_cluster \<Rightarrow> bool"
  for view kv sha_hex enc dec where
  init: "\<forall>t. view (lc_bucket c) (two_phase_decision_key t) = None \<Longrightarrow> lc_calls c = (\<lambda>_. None) \<Longrightarrow>
    lc_returned c = {} \<Longrightarrow> lc_deleted c = {} \<Longrightarrow> log_reachable view kv sha_hex enc dec c"
| step: "log_reachable view kv sha_hex enc dec c \<Longrightarrow> log_step view kv sha_hex enc dec c c' \<Longrightarrow>
    log_reachable view kv sha_hex enc dec c'"

section \<open>The invariant\<close>

text \<open>
  For one transaction: what was returned is below what is stored, and an entry
  that a call holds is the current one unless its revision is older.
\<close>

definition log_inv ::
  "(u8 list \<Rightarrow> two_phase_decision option) \<Rightarrow> kv_entry option \<Rightarrow> (kv_entry option \<Rightarrow> bool) \<Rightarrow>
   (two_phase_decision \<Rightarrow> bool) \<Rightarrow> bool" where
  "log_inv dec cur held returned \<longleftrightarrow>
     (\<forall>d. returned d \<longrightarrow> (\<exists>d'. entry_decision dec cur = Some d' \<and> decision_le d d')) \<and>
     (\<forall>e. held (Some e) \<longrightarrow> (\<exists>e'. cur = Some e' \<and> (ke_revision e < ke_revision e' \<or> e = e')))"

lemma log_compute_Inr:
  assumes "log_compute enc dec t missing g eo = Inr (bytes, revn, x)"
  shows "\<exists>e d d'. eo = Some e \<and> entry_decision dec eo = Some d \<and> g d = Inr (d', x) \<and>
    bytes = enc d' \<and> revn = ke_revision e"
  using assms by (cases rule: log_compute_cases) auto

lemma call_write_le:
  assumes "call_write sha_hex enc dec t call eo = Some (bytes, revn, d')"
  shows "\<exists>e d. eo = Some e \<and> entry_decision dec eo = Some d \<and> decision_le d d' \<and>
    bytes = enc d' \<and> revn = ke_revision e"
proof (cases call)
  case CallGet
  with assms show ?thesis by simp
next
  case (CallResolve p now)
  with assms have "log_compute enc dec t None (resolve_update now p) eo = Inr (bytes, revn, Some d')"
    by (auto simp: compute_shapes split: sum.splits prod.splits option.splits)
  from log_compute_Inr [OF this] updates_le(1) [of now p] show ?thesis by blast
next
  case (CallStage i)
  with assms have "log_compute enc dec t None (stage_update sha_hex i) eo = Inr (bytes, revn, Some d')"
    by (auto simp: compute_shapes split: sum.splits prod.splits option.splits)
  from log_compute_Inr [OF this] updates_le(2) [of sha_hex i] show ?thesis by blast
next
  case CallRecover
  with assms have "log_compute enc dec t RecMissing recover_update eo = Inr (bytes, revn, RecCommitted d')"
    by (auto simp: compute_shapes split: sum.splits prod.splits staging_recovery_result.splits)
  from log_compute_Inr [OF this] updates_le(3) show ?thesis by blast
qed

lemma log_inv_write:
  assumes inv: "log_inv dec (v k) held returned" and codec: "json_codec enc dec"
    and w: "kv_written v k (enc d) KvPut v'"
    and le: "\<And>d0. entry_decision dec (v k) = Some d0 \<Longrightarrow> decision_le d0 d"
    and held: "\<And>e. held' (Some e) \<Longrightarrow> held (Some e)"
    and returned: "\<And>d'. returned' d' \<Longrightarrow> returned d' \<or> d' = d"
  shows "log_inv dec (v' k) held' returned'"
proof -
  from w obtain n where n: "v' k = Some \<lparr>ke_value = enc d, ke_revision = n, ke_operation = KvPut\<rparr>"
    "\<forall>e. v k = Some e \<longrightarrow> ke_revision e < n" by (auto simp: kv_written_def)
  show ?thesis
    unfolding log_inv_def n(1) entry_decision_put [OF codec]
  proof (intro conjI allI impI)
    fix d' assume "returned' d'"
    with returned inv le show "\<exists>d''. Some d = Some d'' \<and> decision_le d' d''"
      unfolding log_inv_def by (metis decision_le_refl decision_le_trans)
  next
    fix e assume "held' (Some e)"
    with held inv obtain e' where e': "v k = Some e'" "ke_revision e < ke_revision e' \<or> e = e'"
      unfolding log_inv_def by blast
    with n(2) show "\<exists>e'. Some \<lparr>ke_value = enc d, ke_revision = n, ke_operation = KvPut\<rparr> = Some e' \<and>
        (ke_revision e < ke_revision e' \<or> e = e')" by force
  qed
qed

lemma log_inv_same:
  assumes "log_inv dec cur held returned"
    and "\<And>e. held' (Some e) \<Longrightarrow> held (Some e) \<or> cur = Some e"
    and "\<And>d. returned' d \<Longrightarrow> returned d \<or> entry_decision dec cur = Some d"
  shows "log_inv dec cur held' returned'"
  using assms unfolding log_inv_def by (metis decision_le_refl)

definition cluster_inv :: "('s \<Rightarrow> kv_view) \<Rightarrow> (u8 list \<Rightarrow> two_phase_decision option) \<Rightarrow> 's log_cluster \<Rightarrow> string \<Rightarrow> bool" where
  "cluster_inv view dec c t \<longleftrightarrow>
     log_inv dec (view (lc_bucket c) (two_phase_decision_key t))
       (\<lambda>eo. \<exists>n call. lc_calls c n = Some (t, call, eo)) (\<lambda>d. (t, d) \<in> lc_returned c)"

lemma cluster_inv_write:
  assumes inv: "cluster_inv view dec c t" and codec: "json_codec enc dec"
    and "kv_written (view (lc_bucket c)) (two_phase_decision_key t) (enc d) KvPut (view (lc_bucket c'))"
    and "\<And>d0. entry_decision dec (view (lc_bucket c) (two_phase_decision_key t)) = Some d0 \<Longrightarrow> decision_le d0 d"
    and "\<And>n. lc_calls c' n = lc_calls c n \<or> lc_calls c' n = None"
    and "lc_returned c' \<subseteq> insert (t, d) (lc_returned c)"
  shows "cluster_inv view dec c' t"
  unfolding cluster_inv_def
proof (rule log_inv_write [OF inv [unfolded cluster_inv_def] codec assms(3) assms(4)])
  fix e assume "\<exists>n call. lc_calls c' n = Some (t, call, Some e)"
  then show "\<exists>n call. lc_calls c n = Some (t, call, Some e)" using assms(5) by (metis option.distinct(1))
qed (use assms(6) in auto)

lemma kv_written_other: "kv_written v k b oper v' \<Longrightarrow> k' \<noteq> k \<Longrightarrow> v' k' = v k'"
  by (auto simp: kv_written_def)

lemma log_step_inv:
  assumes laws: "kv_laws view kv" and codec: "json_codec enc dec"
    and step: "log_step view kv sha_hex enc dec c c'"
    and inv: "t \<notin> lc_deleted c \<Longrightarrow> cluster_inv view dec c t"
    and t: "t \<notin> lc_deleted c'"
  shows "cluster_inv view dec c' t"
  using step
proof cases
  case (create t0 d r s)
  let ?k = "two_phase_decision_key"
  from create t have I: "cluster_inv view dec c t" using inv by simp
  from laws create(2) consider
    "\<not> kv_live (view (lc_bucket c)) (?k t0)" "kv_written (view (lc_bucket c)) (?k t0) (enc d) KvPut (view s)"
    | "view s = view (lc_bucket c)" "\<not> is_ok r"
    unfolding kv_laws_def by blast
  then show ?thesis
  proof cases
    case 1
    show ?thesis
    proof (cases "t = t0")
      case True
      from 1(1) have none: "entry_decision dec (view (lc_bucket c) (?k t0)) = None"
        using entry_decision_live by fastforce
      show ?thesis
        by (rule cluster_inv_write [OF I codec, of d])
          (use True none 1(2) create(1) in \<open>auto split: if_splits\<close>)
    next
      case False
      then have "view s (?k t) = view (lc_bucket c) (?k t)" by (intro kv_written_other [OF 1(2)]) simp
      with False I create(1) show ?thesis unfolding cluster_inv_def by (auto elim!: log_inv_same)
    qed
  next
    case 2
    with I create(1) show ?thesis unfolding cluster_inv_def by (auto elim!: log_inv_same)
  qed
next
  case (read t0 eo s n call)
  then have I: "cluster_inv view dec c t" using inv t by simp
  from laws read(2) have "view s = view (lc_bucket c)" "eo = view (lc_bucket c) (two_phase_decision_key t0)"
    unfolding kv_laws_def by blast+
  with I read(1) show ?thesis
    unfolding cluster_inv_def by (auto elim!: log_inv_same split: if_splits option.splits)
next
  case (read_fails k e s)
  then have I: "cluster_inv view dec c t" using inv t by simp
  from laws read_fails(2) have "view s = view (lc_bucket c)" unfolding kv_laws_def by blast
  with I read_fails(1) show ?thesis unfolding cluster_inv_def by simp
next
  case (swap n t0 call eo bytes revn d r s)
  let ?k = "two_phase_decision_key"
  from swap t have I: "cluster_inv view dec c t" using inv by simp
  from call_write_le [OF swap(3)] obtain e0 d0 where w:
    "eo = Some e0" "entry_decision dec eo = Some d0" "decision_le d0 d" "bytes = enc d" "revn = ke_revision e0" by blast
  from laws swap(4) consider
    (applied) e1 where "view (lc_bucket c) (?k t0) = Some e1" "ke_revision e1 = revn"
      "kv_written (view (lc_bucket c)) (?k t0) (enc d) KvPut (view s)"
    | (refused) "view s = view (lc_bucket c)" "\<not> is_ok r"
    unfolding kv_laws_def w(4) by blast
  then show ?thesis
  proof cases
    case applied
    show ?thesis
    proof (cases "t = t0")
      case True
      from I swap(2) w(1) True obtain e' where "view (lc_bucket c) (?k t0) = Some e'"
        "ke_revision e0 < ke_revision e' \<or> e0 = e'"
        unfolding cluster_inv_def log_inv_def by blast
      with applied w(5) have "e0 = e1" by auto
      with applied w have le: "\<And>x. entry_decision dec (view (lc_bucket c) (?k t0)) = Some x \<Longrightarrow> decision_le x d"
        by simp
      show ?thesis
        by (rule cluster_inv_write [OF I codec, of d])
          (use True le applied(3) swap(1) in \<open>auto split: if_splits\<close>)
    next
      case False
      then have "view s (?k t) = view (lc_bucket c) (?k t)" by (intro kv_written_other [OF applied(3)]) simp
      with False I swap(1) show ?thesis
        unfolding cluster_inv_def by (auto elim!: log_inv_same split: if_splits)
    qed
  next
    case refused
    with I swap(1) show ?thesis unfolding cluster_inv_def by (auto elim!: log_inv_same split: if_splits)
  qed
next
  case (delete t0 r s)
  let ?k = "two_phase_decision_key"
  from delete t have ne: "t \<noteq> t0" and I: "cluster_inv view dec c t" using inv by simp_all
  from laws delete(2) have "view s (?k t) = view (lc_bucket c) (?k t)"
    unfolding kv_laws_def using ne kv_written_other two_phase_decision_key_inj by metis
  with I delete(1) show ?thesis unfolding cluster_inv_def by simp
next
  case (crash n)
  then have I: "cluster_inv view dec c t" using inv t by simp
  with crash show ?thesis unfolding cluster_inv_def by (auto elim!: log_inv_same split: if_splits)
qed

lemma log_reachable_inv:
  assumes laws: "kv_laws view kv" and codec: "json_codec enc dec"
    and reach: "log_reachable view kv sha_hex enc dec c"
  shows "t \<notin> lc_deleted c \<Longrightarrow> cluster_inv view dec c t"
  using reach
proof (induction arbitrary: t)
  case (init c)
  then show ?case by (simp add: cluster_inv_def log_inv_def)
next
  case (step c c')
  then show ?case using log_step_inv [OF laws codec step.hyps(2)] by blast
qed

section \<open>Agreement\<close>

text \<open>Two decisions that cannot both be acted on do not have the same outcome.\<close>

fun same_outcome :: "two_phase_decision \<Rightarrow> two_phase_decision \<Rightarrow> bool" where
  "same_outcome (Committed ts ps _ _) (Committed ts' ps' _ _) \<longleftrightarrow> ts = ts' \<and> ps = ps'"
| "same_outcome (RolledBack m ps _ _) (RolledBack m' ps' _ _) \<longleftrightarrow> m = m' \<and> ps = ps'"
| "same_outcome (Staging ts ps _ _ _ _ _) (Committed ts' ps' _ _) \<longleftrightarrow> ts = ts' \<and> set ps \<subseteq> set ps'"
| "same_outcome (Committed ts ps _ _) (Staging ts' ps' _ _ _ _ _) \<longleftrightarrow> ts = ts' \<and> set ps' \<subseteq> set ps"
| "same_outcome (Staging ts _ _ _ _ _ _) (Staging ts' _ _ _ _ _ _) \<longleftrightarrow> ts = ts'"
| "same_outcome _ _ \<longleftrightarrow> False"

lemma decision_le_same_outcome: "decision_le d1 d \<Longrightarrow> decision_le d2 d \<Longrightarrow> same_outcome d1 d2"
  by (cases d1; cases d2) auto

text \<open>
  C3. Agreement on the decision log.  However the calls of any number of nodes
  interleave, whatever the bucket answers and whoever crashes, two decisions that
  calls have returned for a transaction have the same outcome, as long as its
  record was not garbage collected: never a commit at one node and a rollback
  at another, never two timestamps or two participant lists for a commit, and a
  staging record that anyone has seen never ends in a rollback.
\<close>
theorem decisions_agree:
  assumes "kv_laws view kv" "json_codec enc dec" "log_reachable view kv sha_hex enc dec c"
    and "t \<notin> lc_deleted c" "(t, d) \<in> lc_returned c" "(t, d') \<in> lc_returned c"
  shows "same_outcome d d'"
  using log_reachable_inv [OF assms(1-4)] assms(5,6) decision_le_same_outcome
  unfolding cluster_inv_def log_inv_def by (metis option.inject)

definition sample_cluster :: "mem_bucket log_cluster" where
  "sample_cluster = \<lparr>lc_bucket = ([], 0), lc_calls = (\<lambda>_. None), lc_returned = {}, lc_deleted = {}\<rparr>"

definition sample_staging :: two_phase_decision where
  "sample_staging = staging (\<lambda>_. []) 0 5 [1] [\<lparr>pi_partition_id = 1, pi_prepare_ts = 5, pi_digest = []\<rparr>]"

definition sample_entry :: kv_entry where
  "sample_entry = \<lparr>ke_value = enc_decision sample_staging, ke_revision = 1, ke_operation = KvPut\<rparr>"

lemma sample_call:
  "call_write (\<lambda>_. []) enc_decision dec_decision ''t'' CallRecover (Some sample_entry) =
    Some (enc_decision (committed 5 [1]), 1, committed 5 [1])"
  using dec_enc_decision [of sample_staging]
  by (simp add: recover_compute_def parse_nats_decision_entry_def sample_entry_def)
    (simp add: sample_staging_def staging_def Let_def sort_dedup_def committed_def)

text \<open>One node stages a transaction, another one reads the record and recovers it.\<close>

lemma sample_log_run:
  "\<exists>c. log_reachable mem_view mem_kv (\<lambda>_. []) enc_decision dec_decision c \<and> ''t'' \<notin> lc_deleted c \<and>
    (''t'', sample_staging) \<in> lc_returned c \<and> (''t'', committed 5 [1]) \<in> lc_returned c"
proof -
  let ?step = "log_step mem_view mem_kv (\<lambda>_. []) enc_decision dec_decision"
  let ?reach = "log_reachable mem_view mem_kv (\<lambda>_. []) enc_decision dec_decision"
  let ?k = "two_phase_decision_key ''t''"
  let ?s1 = "([(?k, sample_entry)], 1) :: mem_bucket"
  define c1 where "c1 = sample_cluster\<lparr>lc_bucket := ?s1, lc_returned := {(''t'', sample_staging)}\<rparr>"
  define c2 where "c2 = c1\<lparr>lc_calls := (\<lambda>_. None)(0 := Some (''t'', CallRecover, Some sample_entry))\<rparr>"
  have ent: "entry_decision dec_decision (Some sample_entry) = Some sample_staging"
    using dec_enc_decision [of sample_staging] by (simp add: entry_decision_def sample_entry_def)
  have "?reach sample_cluster"
    by (rule log_reachable.init) (simp_all add: sample_cluster_def mem_view_def)
  moreover have "?step sample_cluster c1"
    using log_step.create [of mem_kv "''t''" enc_decision sample_staging sample_cluster "Inr 1" ?s1]
    by (simp add: c1_def sample_cluster_def mem_kv_def mem_live_def mem_view_def mem_put_def sample_entry_def)
  moreover have "?step c1 c2"
    using log_step.read [of mem_kv "''t''" c1 "Some sample_entry" ?s1 mem_view "\<lambda>_. []" enc_decision dec_decision 0 CallRecover] ent
    by (simp add: c1_def c2_def sample_cluster_def mem_kv_def mem_view_def)
  ultimately have c2: "?reach c2" using log_reachable.step by metis
  obtain r s where upd: "kv_update_op mem_kv ?k (enc_decision (committed 5 [1])) 1 ?s1 = (r, s)"
    by (cases "kv_update_op mem_kv ?k (enc_decision (committed 5 [1])) 1 ?s1")
  then have ok: "is_ok r" by (auto simp: mem_kv_def mem_view_def mem_put_def sample_entry_def)
  let ?c3 = "c2\<lparr>lc_bucket := s, lc_calls := (lc_calls c2)(0 := None),
      lc_returned := (if is_ok r then insert (''t'', committed 5 [1]) (lc_returned c2) else lc_returned c2)\<rparr>"
  have "?step c2 ?c3"
    by (rule log_step.swap [where n = 0 and call = CallRecover and eo = "Some sample_entry"
          and bytes = "enc_decision (committed 5 [1])" and revn = 1])
      (use sample_call upd in \<open>simp_all add: c2_def c1_def\<close>)
  with c2 have "?reach ?c3" by (rule log_reachable.step)
  moreover have "''t'' \<notin> lc_deleted ?c3" "(''t'', sample_staging) \<in> lc_returned ?c3"
    "(''t'', committed 5 [1]) \<in> lc_returned ?c3"
    using ok by (simp_all add: c2_def c1_def sample_cluster_def)
  ultimately show ?thesis by blast
qed

theorem decisions_agree_witness: "same_outcome sample_staging (committed 5 [1])"
proof -
  from sample_log_run obtain c where "log_reachable mem_view mem_kv (\<lambda>_. []) enc_decision dec_decision c"
    "''t'' \<notin> lc_deleted c" "(''t'', sample_staging) \<in> lc_returned c" "(''t'', committed 5 [1]) \<in> lc_returned c"
    by blast
  then show ?thesis by (rule decisions_agree [OF mem_kv_laws sample_codec])
qed

end
