(* ===== verification/TableMapping.thy ===== *)
theory TableMapping
  imports Partition TableNumbers AnyhowErrors
begin

text \<open>
  The mapping between tablets, table numbers and table names, from
  \<open>crates/value/src/table_mapping.rs\<close>.  The ordered maps of the code are ordered
  association lists; an internal id is the list of its 16 bytes.  Debug renderings
  of ids are left out of error messages, and the panic of \<open>remove\<close> is \<open>None\<close>.
\<close>

type_synonym internal_id = "u8 list"
type_synonym tablet_id = internal_id
type_synonym public_document_id = "table_number \<times> internal_id"

datatype table_namespace = Global | ByComponent public_document_id

text \<open>The derived order: \<open>Global\<close> first, then by component id.\<close>

fun namespace_key :: "table_namespace \<Rightarrow> public_document_id option" where
  "namespace_key Global = None"
| "namespace_key (ByComponent i) = Some i"

lemma namespace_key_inject [simp]: "namespace_key a = namespace_key b \<longleftrightarrow> a = b"
  by (cases a; cases b) auto

instantiation table_namespace :: linorder
begin

definition less_eq_table_namespace :: "table_namespace \<Rightarrow> table_namespace \<Rightarrow> bool" where
  "less_eq_table_namespace a b \<longleftrightarrow> namespace_key a \<le> namespace_key b"

definition less_table_namespace :: "table_namespace \<Rightarrow> table_namespace \<Rightarrow> bool" where
  "less_table_namespace a b \<longleftrightarrow> namespace_key a < namespace_key b"

instance
  by standard (auto simp: less_eq_table_namespace_def less_table_namespace_def less_le)

end

type_synonym table_entry = "table_namespace \<times> table_number \<times> table_name"

record table_mapping =
  tablet_to_table :: "(tablet_id, table_entry) btree_map"
  name_to_canonical :: "(table_namespace, (table_name, tablet_id) btree_map) btree_map"
  number_to_canonical :: "(table_namespace, (table_number, tablet_id) btree_map) btree_map"

record namespaced_table_mapping =
  nm_namespace :: table_namespace
  nm_tablet_to_table :: "(tablet_id, table_entry) btree_map"
  nm_name_to_canonical :: "(table_name, tablet_id) btree_map"
  nm_number_to_canonical :: "(table_number, tablet_id) btree_map"

section \<open>Operations\<close>

definition tm_new :: table_mapping where
  "tm_new = \<lparr>tablet_to_table = [], name_to_canonical = [], number_to_canonical = []\<rparr>"

definition tm_iter :: "table_mapping \<Rightarrow> (tablet_id \<times> table_entry) list" where
  "tm_iter m = tablet_to_table m"

definition entry_or_default :: "('k, ('a, 'b) btree_map) btree_map \<Rightarrow> 'k \<Rightarrow> ('a, 'b) btree_map" where
  "entry_or_default m k = (case bt_get m k of None \<Rightarrow> [] | Some i \<Rightarrow> i)"

definition insert_tablet ::
  "tablet_id \<Rightarrow> table_namespace \<Rightarrow> table_number \<Rightarrow> table_name \<Rightarrow> table_mapping \<Rightarrow> table_mapping" where
  "insert_tablet tid ns number name m =
     m\<lparr>tablet_to_table := bt_insert tid (ns, number, name) (tablet_to_table m)\<rparr>"

definition tm_insert ::
  "tablet_id \<Rightarrow> table_namespace \<Rightarrow> table_number \<Rightarrow> table_name \<Rightarrow> table_mapping \<Rightarrow> table_mapping" where
  "tm_insert tid ns number name m =
     (let m = insert_tablet tid ns number name m in
      m\<lparr>name_to_canonical :=
          bt_insert ns (bt_insert name tid (entry_or_default (name_to_canonical m) ns)) (name_to_canonical m),
        number_to_canonical :=
          bt_insert ns (bt_insert number tid (entry_or_default (number_to_canonical m) ns)) (number_to_canonical m)\<rparr>)"

definition nested_get :: "('k, ('a, 'b) btree_map) btree_map \<Rightarrow> 'k \<Rightarrow> 'a \<Rightarrow> 'b option" where
  "nested_get m k a = (case bt_get m k of None \<Rightarrow> None | Some i \<Rightarrow> bt_get i a)"

definition nested_remove ::
  "'k::linorder \<Rightarrow> 'a \<Rightarrow> ('k, ('a, 'b) btree_map) btree_map \<Rightarrow> ('k, ('a, 'b) btree_map) btree_map" where
  "nested_remove k a m = bt_insert k (bt_remove a (entry_or_default m k)) m"

definition tm_remove :: "tablet_id \<Rightarrow> table_mapping \<Rightarrow> table_mapping option" where
  "tm_remove tid m =
     (case bt_get (tablet_to_table m) tid of
        None \<Rightarrow> None
      | Some (ns, number, name) \<Rightarrow>
          let m1 = m\<lparr>tablet_to_table := bt_remove tid (tablet_to_table m)\<rparr>;
              m2 = (if nested_get (name_to_canonical m1) ns name = Some tid
                    then m1\<lparr>name_to_canonical := nested_remove ns name (name_to_canonical m1)\<rparr> else m1);
              m3 = (if nested_get (number_to_canonical m2) ns number = Some tid
                    then m2\<lparr>number_to_canonical := nested_remove ns number (number_to_canonical m2)\<rparr> else m2)
          in Some m3)"

definition tablet_id_exists :: "table_mapping \<Rightarrow> tablet_id \<Rightarrow> bool" where
  "tablet_id_exists m tid \<longleftrightarrow> bt_get (tablet_to_table m) tid \<noteq> None"

definition cannot_find_table :: anyhow_error where
  "cannot_find_table = anyhow ''cannot find table''"

definition get_table_metadata :: "table_mapping \<Rightarrow> tablet_id \<Rightarrow> anyhow_error + table_entry" where
  "get_table_metadata m tid =
     (case bt_get (tablet_to_table m) tid of None \<Rightarrow> Inl cannot_find_table | Some e \<Rightarrow> Inr e)"

definition tablet_name :: "table_mapping \<Rightarrow> tablet_id \<Rightarrow> anyhow_error + table_name" where
  "tablet_name m tid =
     (case bt_get (tablet_to_table m) tid of
        None \<Rightarrow> Inl cannot_find_table | Some (_, _, name) \<Rightarrow> Inr name)"

definition tablet_number :: "table_mapping \<Rightarrow> tablet_id \<Rightarrow> anyhow_error + table_number" where
  "tablet_number m tid =
     (case bt_get (tablet_to_table m) tid of
        None \<Rightarrow> Inl cannot_find_table | Some (_, number, _) \<Rightarrow> Inr number)"

definition tablet_namespace :: "table_mapping \<Rightarrow> tablet_id \<Rightarrow> anyhow_error + table_namespace" where
  "tablet_namespace m tid =
     (case bt_get (tablet_to_table m) tid of
        None \<Rightarrow> Inl cannot_find_table | Some (ns, _, _) \<Rightarrow> Inr ns)"

definition is_system_tablet :: "table_mapping \<Rightarrow> tablet_id \<Rightarrow> bool" where
  "is_system_tablet m tid =
     (case bt_get (tablet_to_table m) tid of None \<Rightarrow> False | Some (_, _, name) \<Rightarrow> is_system name)"

definition tm_update :: "table_mapping \<Rightarrow> table_mapping \<Rightarrow> table_mapping" where
  "tm_update other m =
     fold (\<lambda>(tid, ns, number, name). tm_insert tid ns number name) (tablet_to_table other) m"

definition tm_is_active :: "table_mapping \<Rightarrow> tablet_id \<Rightarrow> bool" where
  "tm_is_active m tid =
     (case bt_get (tablet_to_table m) tid of
        None \<Rightarrow> False
      | Some (ns, number, _) \<Rightarrow> nested_get (number_to_canonical m) ns number = Some tid)"

definition iter_active_user_tables :: "table_mapping \<Rightarrow> (tablet_id \<times> table_entry) list" where
  "iter_active_user_tables m =
     filter (\<lambda>(tid, _, _, name). \<not> is_system name \<and> tm_is_active m tid) (tablet_to_table m)"

definition namespaces_for_name :: "table_mapping \<Rightarrow> table_name \<Rightarrow> table_namespace list" where
  "namespaces_for_name m name =
     map (\<lambda>(_, ns, _, _). ns) (filter (\<lambda>(_, _, _, n). n = name) (tm_iter m))"

definition tm_namespace :: "table_mapping \<Rightarrow> table_namespace \<Rightarrow> namespaced_table_mapping" where
  "tm_namespace m ns =
     \<lparr>nm_namespace = ns, nm_tablet_to_table = tablet_to_table m,
      nm_name_to_canonical = entry_or_default (name_to_canonical m) ns,
      nm_number_to_canonical = entry_or_default (number_to_canonical m) ns\<rparr>"

subsection \<open>One namespace\<close>

definition nm_iter :: "namespaced_table_mapping \<Rightarrow> (tablet_id \<times> table_number \<times> table_name) list" where
  "nm_iter m =
     map (\<lambda>(tid, _, number, name). (tid, number, name))
       (filter (\<lambda>(_, ns, _, _). ns = nm_namespace m) (nm_tablet_to_table m))"

definition nm_is_active :: "namespaced_table_mapping \<Rightarrow> tablet_id \<Rightarrow> bool" where
  "nm_is_active m tid =
     (case bt_get (nm_tablet_to_table m) tid of
        None \<Rightarrow> False
      | Some (_, number, _) \<Rightarrow> bt_get (nm_number_to_canonical m) number = Some tid)"

definition nm_iter_active_user_tables ::
  "namespaced_table_mapping \<Rightarrow> (tablet_id \<times> table_number \<times> table_name) list" where
  "nm_iter_active_user_tables m =
     filter (\<lambda>(tid, _, name). \<not> is_system name \<and> nm_is_active m tid) (nm_iter m)"

definition id_if_exists :: "namespaced_table_mapping \<Rightarrow> table_name \<Rightarrow> tablet_id option" where
  "id_if_exists m name = bt_get (nm_name_to_canonical m) name"

definition id_and_number_if_exists ::
  "namespaced_table_mapping \<Rightarrow> table_name \<Rightarrow> (tablet_id \<times> table_number) option" where
  "id_and_number_if_exists m name =
     (case id_if_exists m name of
        None \<Rightarrow> None
      | Some tid \<Rightarrow>
          (case bt_get (nm_tablet_to_table m) tid of
             None \<Rightarrow> None
           | Some (_, number, _) \<Rightarrow> Some (tid, number)))"

definition nm_id :: "namespaced_table_mapping \<Rightarrow> table_name \<Rightarrow> anyhow_error + tablet_id \<times> table_number" where
  "nm_id m name =
     (case id_and_number_if_exists m name of None \<Rightarrow> Inl cannot_find_table | Some p \<Rightarrow> Inr p)"

definition table_number_exists :: "namespaced_table_mapping \<Rightarrow> table_number \<Rightarrow> bool" where
  "table_number_exists m number \<longleftrightarrow> bt_get (nm_number_to_canonical m) number \<noteq> None"

definition name_by_number_if_exists :: "namespaced_table_mapping \<Rightarrow> table_number \<Rightarrow> table_name option" where
  "name_by_number_if_exists m number =
     (case bt_get (nm_number_to_canonical m) number of
        None \<Rightarrow> None
      | Some tid \<Rightarrow> map_option (\<lambda>(_, _, name). name) (bt_get (nm_tablet_to_table m) tid))"

definition name_exists :: "namespaced_table_mapping \<Rightarrow> table_name \<Rightarrow> bool" where
  "name_exists m name \<longleftrightarrow> bt_get (nm_name_to_canonical m) name \<noteq> None"

definition name_to_tablet :: "namespaced_table_mapping \<Rightarrow> table_name \<Rightarrow> anyhow_error + tablet_id" where
  "name_to_tablet m name = (case nm_id m name of Inl e \<Rightarrow> Inl e | Inr (tid, _) \<Rightarrow> Inr tid)"

definition name_to_id_user_input ::
  "namespaced_table_mapping \<Rightarrow> table_name \<Rightarrow> anyhow_error + tablet_id \<times> table_number" where
  "name_to_id_user_input m name =
     (case id_and_number_if_exists m name of
        None \<Rightarrow> Inl (anyhow (''Table '' @ [CHR 0x27] @ name @ [CHR 0x27] @ '' not found'')) | Some p \<Rightarrow> Inr p)"

definition name_to_number_user_input ::
  "namespaced_table_mapping \<Rightarrow> table_name \<Rightarrow> anyhow_error + table_number" where
  "name_to_number_user_input m name =
     (case name_to_id_user_input m name of Inl e \<Rightarrow> Inl e | Inr (_, number) \<Rightarrow> Inr number)"

definition tablet_matches_name :: "namespaced_table_mapping \<Rightarrow> tablet_id \<Rightarrow> table_name \<Rightarrow> bool" where
  "tablet_matches_name m tid name =
     (case bt_get (nm_tablet_to_table m) tid of None \<Rightarrow> False | Some (_, _, n) \<Rightarrow> name = n)"

definition number_to_tablet :: "namespaced_table_mapping \<Rightarrow> table_number \<Rightarrow> anyhow_error + tablet_id" where
  "number_to_tablet m number =
     (case bt_get (nm_number_to_canonical m) number of
        None \<Rightarrow> Inl (anyhow (''cannot find table with id '' @ decimal (unat number))) | Some tid \<Rightarrow> Inr tid)"

definition number_to_name :: "namespaced_table_mapping \<Rightarrow> table_number \<Rightarrow> anyhow_error + table_name" where
  "number_to_name m number =
     (case name_by_number_if_exists m number of None \<Rightarrow> Inl cannot_find_table | Some name \<Rightarrow> Inr name)"

definition to_value :: "namespaced_table_mapping \<Rightarrow> bool \<Rightarrow> (table_number, table_name) btree_map" where
  "to_value m with_system_tables =
     bt_collect (map (\<lambda>(_, number, name). (number, name))
       (filter (\<lambda>(_, _, name). with_system_tables \<or> \<not> is_system name)
         (filter (\<lambda>(tid, _, _). nm_is_active m tid) (nm_iter m))))"

section \<open>The invariant\<close>

definition nested_wf :: "('k::linorder, ('a::linorder, 'b) btree_map) btree_map \<Rightarrow> bool" where
  "nested_wf m \<longleftrightarrow> bt_wf m \<and> (\<forall>k i. bt_get m k = Some i \<longrightarrow> bt_wf i)"

text \<open>The canonical maps only point at tablets that carry the name and the number.\<close>

definition tm_wf :: "table_mapping \<Rightarrow> bool" where
  "tm_wf m \<longleftrightarrow>
     bt_wf (tablet_to_table m) \<and> nested_wf (name_to_canonical m) \<and> nested_wf (number_to_canonical m) \<and>
     (\<forall>ns name tid. nested_get (name_to_canonical m) ns name = Some tid \<longrightarrow>
        (\<exists>number. bt_get (tablet_to_table m) tid = Some (ns, number, name))) \<and>
     (\<forall>ns number tid. nested_get (number_to_canonical m) ns number = Some tid \<longrightarrow>
        (\<exists>name. bt_get (tablet_to_table m) tid = Some (ns, number, name)))"

named_theorems tm_simps

lemma nested_get_entry [tm_simps]: "bt_get (entry_or_default m k) a = nested_get m k a"
  by (simp add: entry_or_default_def nested_get_def bt_get_def split: option.split)

lemma nested_wf_entry: "nested_wf m \<Longrightarrow> bt_wf (entry_or_default m k)"
  by (simp add: nested_wf_def entry_or_default_def split: option.split)

lemma nested_wf_insert:
  "nested_wf m \<Longrightarrow> bt_wf i \<Longrightarrow> nested_wf (bt_insert k i m)"
  by (auto simp: nested_wf_def bt_get_insert)

lemma nested_get_insert [tm_simps]:
  "nested_wf m \<Longrightarrow> nested_get (bt_insert k (bt_insert a b (entry_or_default m k)) m) k' a' =
    (if k' = k \<and> a' = a then Some b else nested_get m k' a')"
  using nested_get_entry [of m k a'] nested_wf_entry [of m k]
  by (auto simp: nested_get_def bt_get_insert nested_wf_def)

lemma nested_get_remove [tm_simps]:
  "nested_wf m \<Longrightarrow> nested_get (nested_remove k a m) k' a' =
    (if k' = k \<and> a' = a then None else nested_get m k' a')"
  using nested_get_entry [of m k a']
  by (auto simp: nested_remove_def nested_get_def bt_get_insert bt_get_remove nested_wf_def)

lemma nested_wf_remove: "nested_wf m \<Longrightarrow> nested_wf (nested_remove k a m)"
  by (simp add: nested_remove_def nested_wf_insert nested_wf_entry)

lemma tm_wf_new: "tm_wf tm_new"
  by (simp add: tm_wf_def tm_new_def nested_wf_def nested_get_def)

text \<open>A tablet may be recorded again, but not under another name or number.\<close>

definition recordable :: "table_mapping \<Rightarrow> tablet_id \<Rightarrow> table_entry \<Rightarrow> bool" where
  "recordable m tid e \<longleftrightarrow> bt_get (tablet_to_table m) tid \<in> {None, Some e}"

lemma insert_tablet_simps [tm_simps]:
  "bt_wf (tablet_to_table m) \<Longrightarrow> bt_get (tablet_to_table (insert_tablet tid ns number name m)) t =
    (if t = tid then Some (ns, number, name) else bt_get (tablet_to_table m) t)"
  "name_to_canonical (insert_tablet tid ns number name m) = name_to_canonical m"
  "number_to_canonical (insert_tablet tid ns number name m) = number_to_canonical m"
  by (simp_all add: insert_tablet_def bt_get_insert)

lemma tm_insert_simps [tm_simps]:
  "tablet_to_table (tm_insert tid ns number name m) = tablet_to_table (insert_tablet tid ns number name m)"
  "name_to_canonical (tm_insert tid ns number name m) =
     bt_insert ns (bt_insert name tid (entry_or_default (name_to_canonical m) ns)) (name_to_canonical m)"
  "number_to_canonical (tm_insert tid ns number name m) =
     bt_insert ns (bt_insert number tid (entry_or_default (number_to_canonical m) ns)) (number_to_canonical m)"
  by (simp_all add: tm_insert_def Let_def insert_tablet_def)

lemma tm_wf_insert_tablet:
  assumes "tm_wf m" "recordable m tid (ns, number, name)"
  shows "tm_wf (insert_tablet tid ns number name m)"
proof -
  have "bt_wf (tablet_to_table m)" using assms(1) by (simp add: tm_wf_def)
  then have get: "bt_get (tablet_to_table (insert_tablet tid ns number name m)) t =
      (if t = tid then Some (ns, number, name) else bt_get (tablet_to_table m) t)" for t
    by (rule insert_tablet_simps(1))
  moreover have "bt_wf (tablet_to_table (insert_tablet tid ns number name m))"
    using \<open>bt_wf (tablet_to_table m)\<close> by (simp add: insert_tablet_def)
  ultimately show ?thesis
    using assms unfolding tm_wf_def recordable_def by (simp add: tm_simps) (metis option.distinct(1) option.inject prod.inject)
qed

lemma tm_wf_insert:
  assumes "tm_wf m" "recordable m tid (ns, number, name)"
  shows "tm_wf (tm_insert tid ns number name m)"
proof -
  let ?m = "insert_tablet tid ns number name m"
  have wf: "tm_wf ?m" by (rule tm_wf_insert_tablet [OF assms])
  then have n: "nested_wf (name_to_canonical m)" "nested_wf (number_to_canonical m)"
    and b: "bt_wf (tablet_to_table m)"
    using assms(1) by (simp_all add: tm_wf_def)
  have "bt_get (tablet_to_table ?m) tid = Some (ns, number, name)"
    using b by (simp add: tm_simps)
  then show ?thesis
    using wf n unfolding tm_wf_def
    by (simp add: tm_simps nested_wf_insert nested_wf_entry)
qed

lemma tm_remove_None_iff: "tm_remove tid m = None \<longleftrightarrow> bt_get (tablet_to_table m) tid = None"
  by (simp add: tm_remove_def Let_def split: option.split prod.split)

lemma tm_remove_Some:
  assumes "tm_wf m" "tm_remove tid m = Some m'"
  shows "tm_wf m' \<and>
    (\<forall>t. bt_get (tablet_to_table m') t = (if t = tid then None else bt_get (tablet_to_table m) t)) \<and>
    (\<forall>ns a t. nested_get (name_to_canonical m') ns a = Some t \<longleftrightarrow>
       t \<noteq> tid \<and> nested_get (name_to_canonical m) ns a = Some t) \<and>
    (\<forall>ns a t. nested_get (number_to_canonical m') ns a = Some t \<longleftrightarrow>
       t \<noteq> tid \<and> nested_get (number_to_canonical m) ns a = Some t)"
proof -
  from assms(2) obtain ns number name where e: "bt_get (tablet_to_table m) tid = Some (ns, number, name)"
    by (auto simp: tm_remove_def split: option.splits)
  have wf: "bt_wf (tablet_to_table m)" "nested_wf (name_to_canonical m)" "nested_wf (number_to_canonical m)"
    and names: "\<And>k a t. nested_get (name_to_canonical m) k a = Some t \<Longrightarrow>
        \<exists>number. bt_get (tablet_to_table m) t = Some (k, number, a)"
    and numbers: "\<And>k a t. nested_get (number_to_canonical m) k a = Some t \<Longrightarrow>
        \<exists>name. bt_get (tablet_to_table m) t = Some (k, a, name)"
    using assms(1) unfolding tm_wf_def by blast+
  have m': "tablet_to_table m' = bt_remove tid (tablet_to_table m)"
    "name_to_canonical m' = (if nested_get (name_to_canonical m) ns name = Some tid
       then nested_remove ns name (name_to_canonical m) else name_to_canonical m)"
    "number_to_canonical m' = (if nested_get (number_to_canonical m) ns number = Some tid
       then nested_remove ns number (number_to_canonical m) else number_to_canonical m)"
    using assms(2) e by (auto simp: tm_remove_def Let_def split: if_splits)
  have t: "\<forall>t. bt_get (tablet_to_table m') t = (if t = tid then None else bt_get (tablet_to_table m) t)"
    by (simp add: m' bt_get_remove)
  have 1: "\<forall>ns a t. nested_get (name_to_canonical m') ns a = Some t \<longleftrightarrow>
      t \<noteq> tid \<and> nested_get (name_to_canonical m) ns a = Some t"
  proof (intro allI)
    fix k a t
    show "nested_get (name_to_canonical m') k a = Some t \<longleftrightarrow>
        t \<noteq> tid \<and> nested_get (name_to_canonical m) k a = Some t"
      using names [of k a t] e by (auto simp: m' nested_get_remove wf)
  qed
  have 2: "\<forall>ns a t. nested_get (number_to_canonical m') ns a = Some t \<longleftrightarrow>
      t \<noteq> tid \<and> nested_get (number_to_canonical m) ns a = Some t"
  proof (intro allI)
    fix k a t
    show "nested_get (number_to_canonical m') k a = Some t \<longleftrightarrow>
        t \<noteq> tid \<and> nested_get (number_to_canonical m) k a = Some t"
      using numbers [of k a t] e by (auto simp: m' nested_get_remove wf)
  qed
  have "bt_wf (tablet_to_table m')" "nested_wf (name_to_canonical m')" "nested_wf (number_to_canonical m')"
    using wf by (simp_all add: m' nested_wf_remove)
  then have "tm_wf m'"
    unfolding tm_wf_def using t 1 2 names numbers by simp
  with t 1 2 show ?thesis by blast
qed

end
