(* ===== verification/TableRegistry.thy ===== *)
theory TableRegistry
  imports TableMapping
begin

text \<open>
  The table registry of a snapshot, from \<open>crates/database/src/table_registry.rs\<close>:
  what it does with every change of a document of the \<open>_tables\<close> table.  Parsing
  a document into table metadata is the parameter \<open>parse\<close>; the index registry is
  the parameter \<open>has_no_indexes\<close>.  The panics of \<open>apply\<close> are \<open>None\<close>.

  The registry is related to the documents it has seen: the relation
  \<open>registry_of\<close> is the abstract specification, and updates that follow the
  life cycle of a table keep it.
\<close>

datatype table_state = Active | Hidden | Deleting

record table_metadata =
  tmd_name :: table_name
  tmd_number :: table_number
  tmd_state :: table_state
  tmd_namespace :: table_namespace

record table_registry =
  tablet_states :: "(tablet_id, table_state) btree_map"
  reg_mapping :: table_mapping

datatype table_update_mode = UCreate table_state | UActivate | UDrop | UHardDelete

record table_update =
  tu_namespace :: table_namespace
  tu_tablet_id :: tablet_id
  tu_number :: table_number
  tu_name :: table_name
  tu_mode :: table_update_mode

definition tables_table :: table_name where "tables_table = ''_tables''"
definition index_table :: table_name where "index_table = ''_index''"

definition bootstrap_system_table_names :: "table_name list" where
  "bootstrap_system_table_names =
     [tables_table, index_table, ''_schemas'', ''_index_backfills'', ''_index_worker_metadata'',
      ''_component_definitions'', ''_components'', ''_schema_validation_progress'']"

section \<open>Operations\<close>

definition table_exists :: "table_registry \<Rightarrow> table_namespace \<Rightarrow> table_name \<Rightarrow> bool" where
  "table_exists r ns name = name_exists (tm_namespace (reg_mapping r) ns) name"

definition validate_table_number ::
  "table_registry \<Rightarrow> table_namespace \<Rightarrow> table_number \<Rightarrow> table_name \<Rightarrow> anyhow_error + unit" where
  "validate_table_number r ns number name =
     (case name_by_number_if_exists (tm_namespace (reg_mapping r) ns) number of
        None \<Rightarrow> Inr ()
      | Some existing \<Rightarrow>
          if existing = name then Inr ()
          else Inl (anyhow (''Cannot add a table '' @ name @ '' with table number '' @ decimal (unat number) @
                      '' since it already exists in the table mapping as '' @ existing)))"

definition create_update ::
  "table_registry \<Rightarrow> tablet_id \<Rightarrow> table_metadata \<Rightarrow> anyhow_error + table_update" where
  "create_update r tid md =
     (let upd = \<lparr>tu_namespace = tmd_namespace md, tu_tablet_id = tid, tu_number = tmd_number md,
                 tu_name = tmd_name md, tu_mode = UCreate (tmd_state md)\<rparr> in
      if tmd_state md = Active
      then if table_exists r (tmd_namespace md) (tmd_name md)
           then Inl (anyhow ''Tried to create duplicate table'')
           else (case validate_table_number r (tmd_namespace md) (tmd_number md) (tmd_name md) of
                   Inl e \<Rightarrow> Inl e | Inr _ \<Rightarrow> Inr upd)
      else Inr upd)"

definition edit_update ::
  "(tablet_id \<Rightarrow> bool) \<Rightarrow> tablet_id \<Rightarrow> table_metadata \<Rightarrow> table_metadata \<Rightarrow> anyhow_error + table_update option" where
  "edit_update has_no_indexes tid old new =
     (let upd = (\<lambda>mode. \<lparr>tu_namespace = tmd_namespace old, tu_tablet_id = tid, tu_number = tmd_number old,
                         tu_name = tmd_name old, tu_mode = mode\<rparr>) in
      if tmd_name old \<noteq> tmd_name new then Inl (anyhow ''Table renames currently unsupported'')
      else if tmd_number old \<noteq> tmd_number new then Inl (anyhow ''Cannot change the table number in a table edit'')
      else if tmd_state old = Active \<and> tmd_state new = Deleting
      then if \<not> (tmd_namespace new \<noteq> Global \<or> tmd_name new \<notin> set bootstrap_system_table_names)
           then Inl (anyhow ''cannot delete bootstrap system table'')
           else if \<not> has_no_indexes tid then Inl (anyhow ''table has indexes'')
           else Inr (Some (upd UDrop))
      else if tmd_state old = Hidden \<and> tmd_state new = Active then Inr (Some (upd UActivate))
      else Inr None)"

definition begin_update ::
  "('obj \<Rightarrow> anyhow_error + table_metadata) \<Rightarrow> (tablet_id \<Rightarrow> bool) \<Rightarrow> tablet_id \<Rightarrow> internal_id \<Rightarrow>
   'obj option \<Rightarrow> 'obj option \<Rightarrow> table_registry \<Rightarrow> anyhow_error + table_update option" where
  "begin_update parse has_no_indexes doc_tablet doc_id old new r =
     (if tablet_matches_name (tm_namespace (reg_mapping r) Global) doc_tablet tables_table
      then (case (old, new) of
              (None, Some n) \<Rightarrow>
                (case parse n of
                   Inl e \<Rightarrow> Inl e
                 | Inr md \<Rightarrow> (case create_update r doc_id md of Inl e \<Rightarrow> Inl e | Inr u \<Rightarrow> Inr (Some u)))
            | (Some ov, None) \<Rightarrow>
                (case parse ov of
                   Inl e \<Rightarrow> Inl e
                 | Inr md \<Rightarrow>
                     Inr (Some \<lparr>tu_namespace = tmd_namespace md, tu_tablet_id = doc_id,
                                tu_number = tmd_number md, tu_name = tmd_name md, tu_mode = UHardDelete\<rparr>))
            | (Some ov, Some n) \<Rightarrow>
                (case parse n of
                   Inl e \<Rightarrow> Inl e
                 | Inr new_md \<Rightarrow>
                     (case parse ov of
                        Inl e \<Rightarrow> Inl e
                      | Inr old_md \<Rightarrow> edit_update has_no_indexes doc_id old_md new_md))
            | (None, None) \<Rightarrow> Inl (anyhow ''cannot delete tombstone''))
      else Inr None)"

definition activates :: "table_update \<Rightarrow> bool" where
  "activates u \<longleftrightarrow> tu_mode u = UActivate \<or> tu_mode u = UCreate Active"

definition apply_update :: "table_update \<Rightarrow> table_registry \<Rightarrow> table_registry option" where
  "apply_update u r =
     (let tid = tu_tablet_id u;
          r1 = (if activates u
                then r\<lparr>reg_mapping := tm_insert tid (tu_namespace u) (tu_number u) (tu_name u) (reg_mapping r)\<rparr>
                else r)
      in case tu_mode u of
           UActivate \<Rightarrow> Some (r1\<lparr>tablet_states := bt_insert tid Active (tablet_states r1)\<rparr>)
         | UCreate state \<Rightarrow>
             Some (r1\<lparr>reg_mapping := insert_tablet tid (tu_namespace u) (tu_number u) (tu_name u) (reg_mapping r1),
                      tablet_states := bt_insert tid state (tablet_states r1)\<rparr>)
         | UDrop \<Rightarrow>
             map_option (\<lambda>m. r1\<lparr>reg_mapping := m, tablet_states := bt_insert tid Deleting (tablet_states r1)\<rparr>)
               (tm_remove tid (reg_mapping r1))
         | UHardDelete \<Rightarrow>
             if bt_get (tablet_states r1) tid = Some Deleting
             then Some (r1\<lparr>tablet_states := bt_remove tid (tablet_states r1)\<rparr>) else None)"

text \<open>\<open>update\<close>: an error leaves the registry alone; \<open>None\<close> inside is a panic.\<close>

definition registry_update ::
  "('obj \<Rightarrow> anyhow_error + table_metadata) \<Rightarrow> (tablet_id \<Rightarrow> bool) \<Rightarrow> tablet_id \<Rightarrow> internal_id \<Rightarrow>
   'obj option \<Rightarrow> 'obj option \<Rightarrow> table_registry \<Rightarrow> anyhow_error + table_registry option" where
  "registry_update parse has_no_indexes doc_tablet doc_id old new r =
     (case begin_update parse has_no_indexes doc_tablet doc_id old new r of
        Inl e \<Rightarrow> Inl e
      | Inr None \<Rightarrow> Inr (Some r)
      | Inr (Some u) \<Rightarrow> Inr (apply_update u r))"

definition registry_table_state :: "table_registry \<Rightarrow> tablet_id \<Rightarrow> table_state option" where
  "registry_table_state r tid = bt_get (tablet_states r) tid"

definition user_table_names :: "table_registry \<Rightarrow> (table_namespace \<times> table_name) list" where
  "user_table_names r = map (\<lambda>(_, ns, _, name). (ns, name)) (iter_active_user_tables (reg_mapping r))"

definition iter_active_system_tables :: "table_registry \<Rightarrow> (tablet_id \<times> table_entry) list" where
  "iter_active_system_tables r =
     filter (\<lambda>(tid, _, _, name). is_system name \<and> bt_get (tablet_states r) tid = Some Active)
       (tm_iter (reg_mapping r))"

section \<open>The registry as a view of the documents\<close>

type_synonym table_docs = "tablet_id \<Rightarrow> table_metadata option"

definition entry_of :: "table_metadata \<Rightarrow> table_entry" where
  "entry_of md = (tmd_namespace md, tmd_number md, tmd_name md)"

definition registry_of :: "table_docs \<Rightarrow> table_registry \<Rightarrow> bool" where
  "registry_of docs r \<longleftrightarrow>
     tm_wf (reg_mapping r) \<and> bt_wf (tablet_states r) \<and>
     (\<forall>tid. bt_get (tablet_states r) tid = map_option tmd_state (docs tid)) \<and>
     (\<forall>tid. bt_get (tablet_to_table (reg_mapping r)) tid =
        (case docs tid of None \<Rightarrow> None | Some md \<Rightarrow> if tmd_state md = Deleting then None else Some (entry_of md))) \<and>
     (\<forall>ns name tid. nested_get (name_to_canonical (reg_mapping r)) ns name = Some tid \<longleftrightarrow>
        (\<exists>md. docs tid = Some md \<and> tmd_state md = Active \<and> tmd_namespace md = ns \<and> tmd_name md = name)) \<and>
     (\<forall>ns number tid. nested_get (number_to_canonical (reg_mapping r)) ns number = Some tid \<longleftrightarrow>
        (\<exists>md. docs tid = Some md \<and> tmd_state md = Active \<and> tmd_namespace md = ns \<and> tmd_number md = number))"

text \<open>
  The life cycle: a table is created active or hidden, a hidden table is
  activated when no active table has its name or number, an active table is
  dropped, a dropped one is deleted.  Other edits keep the state and the namespace.
\<close>

definition name_and_number_free :: "table_docs \<Rightarrow> table_metadata \<Rightarrow> bool" where
  "name_and_number_free docs md \<longleftrightarrow>
     (\<forall>tid md'. docs tid = Some md' \<longrightarrow> tmd_state md' = Active \<longrightarrow> tmd_namespace md' = tmd_namespace md \<longrightarrow>
        tmd_name md' \<noteq> tmd_name md \<and> tmd_number md' \<noteq> tmd_number md)"

definition lifecycle :: "table_docs \<Rightarrow> tablet_id \<Rightarrow> table_metadata option \<Rightarrow> bool" where
  "lifecycle docs tid new \<longleftrightarrow>
     (case (docs tid, new) of
        (None, Some md) \<Rightarrow> tmd_state md \<noteq> Deleting
      | (Some md, None) \<Rightarrow> tmd_state md = Deleting
      | (Some old, Some md) \<Rightarrow>
          tmd_namespace md = tmd_namespace old \<and>
          (tmd_state md = tmd_state old \<or>
           tmd_state old = Hidden \<and> tmd_state md = Active \<and> name_and_number_free docs md \<or>
           tmd_state old = Active \<and> tmd_state md = Deleting)
      | (None, None) \<Rightarrow> False)"

lemma registry_of_empty: "registry_of (\<lambda>_. None) \<lparr>tablet_states = [], reg_mapping = tm_new\<rparr>"
  using tm_wf_new by (simp add: registry_of_def) (simp add: tm_new_def nested_get_def bt_get_def)

lemma table_exists_iff:
  "registry_of docs r \<Longrightarrow> table_exists r ns name \<longleftrightarrow>
    (\<exists>tid md. docs tid = Some md \<and> tmd_state md = Active \<and> tmd_namespace md = ns \<and> tmd_name md = name)"
  by (simp add: table_exists_def name_exists_def tm_namespace_def tm_simps registry_of_def)

lemma registry_ofD:
  assumes "registry_of docs r"
  shows "tm_wf (reg_mapping r)" "bt_wf (tablet_states r)"
    "bt_get (tablet_states r) tid = map_option tmd_state (docs tid)"
    "bt_get (tablet_to_table (reg_mapping r)) tid =
       (case docs tid of None \<Rightarrow> None | Some md \<Rightarrow> if tmd_state md = Deleting then None else Some (entry_of md))"
    "nested_get (name_to_canonical (reg_mapping r)) ns name = Some tid \<longleftrightarrow>
       (\<exists>md. docs tid = Some md \<and> tmd_state md = Active \<and> tmd_namespace md = ns \<and> tmd_name md = name)"
    "nested_get (number_to_canonical (reg_mapping r)) ns number = Some tid \<longleftrightarrow>
       (\<exists>md. docs tid = Some md \<and> tmd_state md = Active \<and> tmd_namespace md = ns \<and> tmd_number md = number)"
  using assms unfolding registry_of_def by blast+

lemma registry_wfs:
  assumes "registry_of docs r"
  shows "bt_wf (tablet_to_table (reg_mapping r))" "nested_wf (name_to_canonical (reg_mapping r))"
    "nested_wf (number_to_canonical (reg_mapping r))"
  using registry_ofD(1) [OF assms] by (simp_all add: tm_wf_def)

text \<open>Recording a tablet as active, for the first time or from hidden.\<close>

lemma registry_activate:
  assumes R: "registry_of docs r"
    and tid: "docs tid = None \<or> (\<exists>old. docs tid = Some old \<and> tmd_state old = Hidden \<and> entry_of old = entry_of md)"
    and md: "tmd_state md = Active" and free: "name_and_number_free docs md"
    and m: "m = tm_insert tid (tmd_namespace md) (tmd_number md) (tmd_name md) (reg_mapping r) \<or>
      m = insert_tablet tid (tmd_namespace md) (tmd_number md) (tmd_name md)
            (tm_insert tid (tmd_namespace md) (tmd_number md) (tmd_name md) (reg_mapping r))"
  shows "registry_of (docs(tid \<mapsto> md)) (r\<lparr>reg_mapping := m, tablet_states := bt_insert tid Active (tablet_states r)\<rparr>)"
proof -
  let ?e = "(tmd_namespace md, tmd_number md, tmd_name md)"
  let ?m1 = "tm_insert tid (tmd_namespace md) (tmd_number md) (tmd_name md) (reg_mapping r)"
  note D = registry_ofD [OF R]
  note W = registry_wfs [OF R]
  have "recordable (reg_mapping r) tid ?e"
    using tid by (auto simp: recordable_def D(4) entry_of_def)
  then have wf1: "tm_wf ?m1" by (rule tm_wf_insert [OF D(1)])
  have b1: "bt_wf (tablet_to_table ?m1)" using wf1 by (simp add: tm_wf_def)
  have get1: "bt_get (tablet_to_table ?m1) t = (if t = tid then Some ?e else bt_get (tablet_to_table (reg_mapping r)) t)" for t
    using W(1) by (simp add: tm_insert_simps(1) insert_tablet_simps(1))
  have "recordable ?m1 tid ?e" by (simp add: recordable_def get1)
  with wf1 have wf: "tm_wf m" using m tm_wf_insert_tablet by blast
  have get: "bt_get (tablet_to_table m) t = (if t = tid then Some ?e else bt_get (tablet_to_table (reg_mapping r)) t)" for t
    using m get1 insert_tablet_simps(1) [OF b1] by auto
  have names: "nested_get (name_to_canonical m) ns a =
      (if ns = tmd_namespace md \<and> a = tmd_name md then Some tid else nested_get (name_to_canonical (reg_mapping r)) ns a)" for ns a
    using m W by (auto simp: tm_simps)
  have numbers: "nested_get (number_to_canonical m) ns a =
      (if ns = tmd_namespace md \<and> a = tmd_number md then Some tid else nested_get (number_to_canonical (reg_mapping r)) ns a)" for ns a
    using m W by (auto simp: tm_simps)
  have "bt_get (bt_insert tid Active (tablet_states r)) t = map_option tmd_state ((docs(tid \<mapsto> md)) t)" for t
    by (simp add: bt_get_insert D md)
  moreover have "bt_get (tablet_to_table m) t = (case (docs(tid \<mapsto> md)) t of None \<Rightarrow> None
      | Some md \<Rightarrow> if tmd_state md = Deleting then None else Some (entry_of md))" for t
    by (simp add: get D(4) md entry_of_def)
  moreover have "nested_get (name_to_canonical m) ns a = Some t \<longleftrightarrow>
      (\<exists>md'. (docs(tid \<mapsto> md)) t = Some md' \<and> tmd_state md' = Active \<and> tmd_namespace md' = ns \<and> tmd_name md' = a)" for ns a t
    using tid free md by (auto simp: names D(5) name_and_number_free_def)
  moreover have "nested_get (number_to_canonical m) ns a = Some t \<longleftrightarrow>
      (\<exists>md'. (docs(tid \<mapsto> md)) t = Some md' \<and> tmd_state md' = Active \<and> tmd_namespace md' = ns \<and> tmd_number md' = a)" for ns a t
    using tid free md by (auto simp: numbers D(6) name_and_number_free_def)
  ultimately show ?thesis
    using wf D(2) by (simp add: registry_of_def)
qed

lemma registry_create_hidden:
  assumes R: "registry_of docs r" and tid: "docs tid = None" and md: "tmd_state md = Hidden"
  shows "registry_of (docs(tid \<mapsto> md)) (r\<lparr>reg_mapping := insert_tablet tid (tmd_namespace md) (tmd_number md) (tmd_name md) (reg_mapping r),
    tablet_states := bt_insert tid Hidden (tablet_states r)\<rparr>)"
proof -
  note D = registry_ofD [OF R]
  have "recordable (reg_mapping r) tid (tmd_namespace md, tmd_number md, tmd_name md)"
    using tid by (simp add: recordable_def D(4))
  then have "tm_wf (insert_tablet tid (tmd_namespace md) (tmd_number md) (tmd_name md) (reg_mapping r))"
    by (rule tm_wf_insert_tablet [OF D(1)])
  then show ?thesis
    using tid md D(2) registry_wfs(1) [OF R]
    by (auto simp: registry_of_def tm_simps bt_get_insert D entry_of_def)
qed

lemma registry_drop:
  assumes R: "registry_of docs r" and tid: "docs tid = Some old" "tmd_state old = Active"
    and md: "tmd_state md = Deleting"
  shows "\<exists>m. tm_remove tid (reg_mapping r) = Some m \<and>
    registry_of (docs(tid \<mapsto> md)) (r\<lparr>reg_mapping := m, tablet_states := bt_insert tid Deleting (tablet_states r)\<rparr>)"
proof -
  note D = registry_ofD [OF R]
  have "bt_get (tablet_to_table (reg_mapping r)) tid = Some (entry_of old)" using tid by (simp add: D(4))
  then obtain m where m: "tm_remove tid (reg_mapping r) = Some m"
    using tm_remove_None_iff [of tid "reg_mapping r"] by auto
  note M = tm_remove_Some [OF D(1) m]
  then have "registry_of (docs(tid \<mapsto> md)) (r\<lparr>reg_mapping := m, tablet_states := bt_insert tid Deleting (tablet_states r)\<rparr>)"
    using tid md D(2) unfolding registry_of_def by (simp add: bt_get_insert D)
  with m show ?thesis by blast
qed

lemma registry_hard_delete:
  assumes R: "registry_of docs r" and tid: "docs tid = Some old" "tmd_state old = Deleting"
  shows "registry_of (docs(tid := None)) (r\<lparr>tablet_states := bt_remove tid (tablet_states r)\<rparr>)"
  using registry_ofD [OF R] tid unfolding registry_of_def by (auto simp: bt_get_remove)

lemma registry_edit:
  assumes R: "registry_of docs r" and tid: "docs tid = Some old"
    and md: "tmd_state md = tmd_state old" "entry_of md = entry_of old"
  shows "registry_of (docs(tid \<mapsto> md)) r"
  using registry_ofD [OF R] tid md unfolding registry_of_def by (auto simp: entry_of_def)

text \<open>What the registry accepts of the steps of the life cycle.\<close>

definition accepts :: "table_docs \<Rightarrow> (tablet_id \<Rightarrow> bool) \<Rightarrow> tablet_id \<Rightarrow> table_metadata option \<Rightarrow> bool" where
  "accepts docs has_no_indexes tid new \<longleftrightarrow>
     (case (docs tid, new) of
        (None, Some md) \<Rightarrow> tmd_state md = Active \<longrightarrow> name_and_number_free docs md
      | (Some old, Some md) \<Rightarrow>
          tmd_name old = tmd_name md \<and> tmd_number old = tmd_number md \<and>
          (tmd_state old = Active \<and> tmd_state md = Deleting \<longrightarrow>
             (tmd_namespace md \<noteq> Global \<or> tmd_name md \<notin> set bootstrap_system_table_names) \<and>
             has_no_indexes tid)
      | _ \<Rightarrow> True)"

lemma name_by_number_iff:
  assumes R: "registry_of docs r"
  shows "name_by_number_if_exists (tm_namespace (reg_mapping r) ns) number = Some a \<longleftrightarrow>
    (\<exists>t md. docs t = Some md \<and> tmd_state md = Active \<and> tmd_namespace md = ns \<and>
       tmd_number md = number \<and> tmd_name md = a)"
proof (cases "nested_get (number_to_canonical (reg_mapping r)) ns number")
  case None
  then have "name_by_number_if_exists (tm_namespace (reg_mapping r) ns) number = None"
    by (simp add: name_by_number_if_exists_def tm_namespace_def tm_simps)
  moreover from None have "\<not> (\<exists>t md. docs t = Some md \<and> tmd_state md = Active \<and> tmd_namespace md = ns \<and>
      tmd_number md = number)"
    using registry_ofD(6) [OF R, of ns number] by (metis option.distinct(1))
  ultimately show ?thesis by auto
next
  case (Some t)
  then obtain md where md: "docs t = Some md" "tmd_state md = Active" "tmd_namespace md = ns" "tmd_number md = number"
    using registry_ofD(6) [OF R, of ns number] by blast
  have "t' = t" if "docs t' = Some md'" "tmd_state md' = Active" "tmd_namespace md' = ns" "tmd_number md' = number" for t' md'
    using registry_ofD(6) [OF R, of ns number t'] Some that by auto
  moreover have "name_by_number_if_exists (tm_namespace (reg_mapping r) ns) number = Some (tmd_name md)"
    using Some md registry_ofD(4) [OF R, of t]
    by (simp add: name_by_number_if_exists_def tm_namespace_def tm_simps entry_of_def)
  ultimately show ?thesis using md by (metis option.inject)
qed

lemma name_and_number_free_iff:
  assumes "registry_of docs r"
  shows "name_and_number_free docs md \<longleftrightarrow> \<not> table_exists r (tmd_namespace md) (tmd_name md) \<and>
    (\<forall>a. name_by_number_if_exists (tm_namespace (reg_mapping r) (tmd_namespace md)) (tmd_number md) = Some a \<longrightarrow>
       a = tmd_name md)"
  unfolding table_exists_iff [OF assms] name_by_number_iff [OF assms] name_and_number_free_def by blast

lemma create_update_ok:
  assumes "registry_of docs r" "tmd_state md = Active \<longrightarrow> name_and_number_free docs md"
  shows "create_update r tid md =
    Inr \<lparr>tu_namespace = tmd_namespace md, tu_tablet_id = tid, tu_number = tmd_number md,
         tu_name = tmd_name md, tu_mode = UCreate (tmd_state md)\<rparr>"
  using assms(2) unfolding name_and_number_free_iff [OF assms(1)]
  by (auto simp: create_update_def Let_def validate_table_number_def split: option.split)

lemma create_update_refused:
  assumes "registry_of docs r" "\<not> (tmd_state md = Active \<longrightarrow> name_and_number_free docs md)"
  shows "\<exists>e. create_update r tid md = Inl e"
  using assms(2) unfolding name_and_number_free_iff [OF assms(1)]
  by (auto simp: create_update_def Let_def validate_table_number_def split: option.split)

text \<open>An edit of a table document.\<close>

lemma registry_update_edit:
  assumes R: "registry_of docs r" and tables: "tablet_matches_name (tm_namespace (reg_mapping r) Global) doc_tablet tables_table"
    and old: "docs tid = Some om" "parse ov = Inr om" and new: "parse n = Inr md"
    and cycle: "lifecycle docs tid (Some md)"
  shows "case registry_update parse has_no_indexes doc_tablet tid (Some ov) (Some n) r of
      Inl e \<Rightarrow> \<not> accepts docs has_no_indexes tid (Some md)
    | Inr None \<Rightarrow> False
    | Inr (Some r') \<Rightarrow> accepts docs has_no_indexes tid (Some md) \<and> registry_of (docs(tid \<mapsto> md)) r'"
proof -
  from cycle old have ns: "tmd_namespace md = tmd_namespace om" by (simp add: lifecycle_def)
  have upd: "registry_update parse has_no_indexes doc_tablet tid (Some ov) (Some n) r =
      (case edit_update has_no_indexes tid om md of Inl e \<Rightarrow> Inl e | Inr None \<Rightarrow> Inr (Some r)
       | Inr (Some u) \<Rightarrow> Inr (apply_update u r))"
    using old new tables by (simp add: registry_update_def begin_update_def)
  note defs = edit_update_def Let_def accepts_def apply_update_def activates_def
  show ?thesis
  proof (cases "tmd_name om = tmd_name md \<and> tmd_number om = tmd_number md")
    case False
    then show ?thesis using upd old by (auto simp: defs)
  next
    case True
    then have e: "entry_of om = entry_of md" using ns by (simp add: entry_of_def)
    from cycle old consider (edit) "tmd_state md = tmd_state om"
      | (activate) "tmd_state om = Hidden" "tmd_state md = Active" "name_and_number_free docs md"
      | (drop) "tmd_state om = Active" "tmd_state md = Deleting" by (auto simp: lifecycle_def)
    then show ?thesis
    proof cases
      case edit
      then show ?thesis
        using upd registry_edit [OF R old(1), of md] e True old
        by (cases "tmd_state om") (simp_all add: defs)
    next
      case activate
      then show ?thesis
        using upd registry_activate [OF R _ _ _ disjI1 [OF refl], of tid md] e True ns old by (simp add: defs)
    next
      case drop
      then show ?thesis
        using upd registry_drop [OF R old(1), of md] True ns old by (auto simp: defs)
    qed
  qed
qed

section \<open>Properties\<close>

text \<open>
  C14. The registry is exactly a view of the \<open>_tables\<close> documents.  Along the life
  cycle of a table, an update is refused exactly when it would give two active
  tables of a namespace one name or one number, rename or renumber a table, drop
  a bootstrap table or a table that still has indexes; an accepted update never
  panics, and the registry again shows the documents: the states, the tablets
  that are not being deleted, and for each name and each number the active
  tablet that has it.
\<close>
theorem registry_refines_documents:
  assumes R: "registry_of docs r" and tables: "tablet_matches_name (tm_namespace (reg_mapping r) Global) doc_tablet tables_table"
    and old: "rel_option (\<lambda>obj md. parse obj = Inr md) old (docs tid)"
    and new: "rel_option (\<lambda>obj md. parse obj = Inr md) new new_md"
    and cycle: "lifecycle docs tid new_md"
  shows "case registry_update parse has_no_indexes doc_tablet tid old new r of
      Inl e \<Rightarrow> \<not> accepts docs has_no_indexes tid new_md
    | Inr None \<Rightarrow> False
    | Inr (Some r') \<Rightarrow> accepts docs has_no_indexes tid new_md \<and> registry_of (docs(tid := new_md)) r'"
proof (cases "docs tid")
  case None
  then obtain n md where n: "old = None" "new = Some n" "new_md = Some md" "parse n = Inr md" "tmd_state md \<noteq> Deleting"
    using old new cycle by (auto simp: lifecycle_def option_rel_Some2 split: option.splits)
  show ?thesis
  proof (cases "tmd_state md = Active \<longrightarrow> name_and_number_free docs md")
    case False
    then show ?thesis using create_update_refused [OF R False, of tid] None n tables
      by (auto simp: registry_update_def begin_update_def accepts_def)
  next
    case True
    have "registry_update parse has_no_indexes doc_tablet tid old new r =
        Inr (apply_update \<lparr>tu_namespace = tmd_namespace md, tu_tablet_id = tid, tu_number = tmd_number md,
               tu_name = tmd_name md, tu_mode = UCreate (tmd_state md)\<rparr> r)"
      using create_update_ok [OF R True] n tables by (simp add: registry_update_def begin_update_def)
    moreover have "accepts docs has_no_indexes tid new_md" using True None n by (simp add: accepts_def)
    ultimately show ?thesis
      using registry_activate [OF R _ _ _ disjI2 [OF refl], of tid md] registry_create_hidden [OF R None, of md] True None n
      by (cases "tmd_state md") (simp_all add: apply_update_def activates_def Let_def)
  qed
next
  case (Some om)
  then obtain ov where ov: "old = Some ov" "parse ov = Inr om" using old by (auto simp: option_rel_Some2)
  show ?thesis
  proof (cases new_md)
    case None
    with new have "new = None" by simp
    moreover from None Some cycle have "tmd_state om = Deleting" by (simp add: lifecycle_def)
    ultimately show ?thesis
      using registry_hard_delete [OF R Some] Some None ov tables registry_ofD(3) [OF R, of tid]
      by (simp add: registry_update_def begin_update_def accepts_def apply_update_def activates_def Let_def)
  next
    case (Some md)
    with new obtain n where n: "new = Some n" "parse n = Inr md" by (auto simp: option_rel_Some2)
    from cycle Some have "lifecycle docs tid (Some md)" by simp
    then show ?thesis
      unfolding Some n(1) ov(1)
      by (rule registry_update_edit [where parse = parse, OF R tables \<open>docs tid = Some om\<close> ov(2) n(2)])
  qed
qed

definition sample_tables :: table_metadata where
  "sample_tables = \<lparr>tmd_name = tables_table, tmd_number = 1, tmd_state = Active, tmd_namespace = Global\<rparr>"

definition sample_registry :: table_registry where
  "sample_registry =
     \<lparr>tablet_states = bt_insert [1] Active [], reg_mapping = tm_insert [1] Global 1 tables_table tm_new\<rparr>"

lemma sample_registry_of: "registry_of ((\<lambda>_. None)([1] \<mapsto> sample_tables)) sample_registry"
  using registry_activate [OF registry_of_empty _ _ _ disjI1 [OF refl], where tid = "[1]" and md = sample_tables]
  by (simp add: sample_tables_def sample_registry_def name_and_number_free_def)

theorem registry_refines_documents_witness:
  "\<exists>r'. registry_update Inr (\<lambda>_. True) [1] [2] None
      (Some \<lparr>tmd_name = ''users'', tmd_number = 10001, tmd_state = Active, tmd_namespace = Global\<rparr>)
      sample_registry = Inr (Some r') \<and>
    nested_get (name_to_canonical (reg_mapping r')) Global ''users'' = Some [2]"
proof -
  let ?md = "\<lparr>tmd_name = ''users'', tmd_number = 10001, tmd_state = Active, tmd_namespace = Global\<rparr>"
  let ?docs = "(\<lambda>_. None)([1] \<mapsto> sample_tables) :: table_docs"
  have "tablet_matches_name (tm_namespace (reg_mapping sample_registry) Global) [1] tables_table"
    by (simp add: tablet_matches_name_def tm_namespace_def sample_registry_def tm_simps
        tm_new_def bt_get_def insert_tablet_def)
  moreover have "accepts ?docs (\<lambda>_. True) [2] (Some ?md)"
    by (auto simp: accepts_def name_and_number_free_def sample_tables_def tables_table_def)
  ultimately show ?thesis
    using registry_refines_documents [OF sample_registry_of, of "[1]" Inr None "[2]" "Some ?md" "Some ?md" "\<lambda>_. True"]
    by (auto simp: lifecycle_def registry_of_def split: sum.splits option.splits)
qed

text \<open>
  C36. Deleting a hidden table panics.  Marking a hidden table as deleting is not
  an update for the registry, which goes on showing it as hidden; deleting its
  document afterwards fails the assertion on its state.
\<close>
theorem hidden_table_delete_panics:
  assumes "registry_of docs r" "docs tid = Some md" "tmd_state md = Hidden"
    and "tablet_matches_name (tm_namespace (reg_mapping r) Global) doc_tablet tables_table"
  shows "registry_update Inr has_no_indexes doc_tablet tid (Some md) (Some (md\<lparr>tmd_state := Deleting\<rparr>)) r = Inr (Some r) \<and>
    registry_update Inr has_no_indexes doc_tablet tid (Some (md\<lparr>tmd_state := Deleting\<rparr>)) None r = Inr None"
  using registry_ofD(3) [OF assms(1), of tid] assms(2-4)
  by (simp add: registry_update_def begin_update_def edit_update_def Let_def apply_update_def activates_def)

definition sample_hidden :: table_metadata where
  "sample_hidden = \<lparr>tmd_name = ''import'', tmd_number = 10001, tmd_state = Hidden, tmd_namespace = Global\<rparr>"

theorem hidden_table_delete_panics_witness:
  "registry_update Inr (\<lambda>_. True) [1] [2] (Some (sample_hidden\<lparr>tmd_state := Deleting\<rparr>)) None
     (sample_registry\<lparr>reg_mapping := insert_tablet [2] Global 10001 ''import'' (reg_mapping sample_registry),
        tablet_states := bt_insert [2] Hidden (tablet_states sample_registry)\<rparr>) = Inr None"
  using hidden_table_delete_panics [OF registry_create_hidden [OF sample_registry_of, of "[2]" sample_hidden],
      of "[2]" sample_hidden "[1]" "\<lambda>_. True"]
  by (simp add: sample_hidden_def tablet_matches_name_def tm_namespace_def sample_registry_def tm_simps
      tm_new_def bt_get_def insert_tablet_def)



end
