(* ===== verification/ReadSets.thy ===== *)
theory ReadSets
  imports IntervalSets TableMapping
begin

text \<open>
  Read sets and their overlap with writes, from \<open>crates/database/src/reads.rs\<close>.
  A transaction records the index ranges and the searches it has read; a commit
  conflicts with it when a document it writes, in its old or its new version,
  falls into one of them.

  Documents are a type variable \<open>'d\<close>: what the code reads of one is its id and
  its key in an index, and whether a search matches it, the fields of
  \<open>doc_ops\<close>.  Searches are a type variable \<open>'s\<close>, and what the write log keeps of
  a document for a search index is \<open>'v\<close>.  Metrics and usage tracking are left out;
  \<open>None\<close> is a panic.
\<close>

section \<open>Index names\<close>

type_synonym field_path = "string list"
type_synonym indexed_fields = "field_path list"
type_synonym index_descriptor = string
type_synonym tablet_index_name = "tablet_id \<times> index_descriptor"
type_synonym resolved_document_id = "tablet_id \<times> public_document_id"

definition min_identifier :: index_descriptor where
  "min_identifier = ''A''"

definition min_for_table :: "tablet_id \<Rightarrow> tablet_index_name" where
  "min_for_table tid = (tid, min_identifier)"

text \<open>\<open>range\<close> from the least name of the table, while the table is the same.\<close>

definition iter_indexes_for_table ::
  "(tablet_index_name, 'a) btree_map \<Rightarrow> tablet_id \<Rightarrow> (tablet_index_name \<times> 'a) list" where
  "iter_indexes_for_table m tid =
     takeWhile (\<lambda>(index, _). fst index = tid) (dropWhile (\<lambda>(index, _). index < min_for_table tid) m)"

section \<open>Read sets\<close>

record index_reads =
  ir_fields :: indexed_fields
  ir_intervals :: interval_set
  ir_stack_traces :: "(interval \<times> string) list option"

record 's read_set =
  rs_indexed :: "(tablet_index_name, index_reads) btree_map"
  rs_search :: "(tablet_index_name, 's) btree_map"

record ('d, 's, 'v) doc_ops =
  doc_id :: "'d \<Rightarrow> resolved_document_id"
  index_key :: "indexed_fields \<Rightarrow> 'd \<Rightarrow> binary_key"
  search_overlaps :: "'s \<Rightarrow> 'd \<Rightarrow> bool"
  search_overlaps_key :: "'s \<Rightarrow> 'v \<Rightarrow> bool"

record conflicting_read =
  cr_index :: tablet_index_name
  cr_id :: resolved_document_id
  cr_stack_traces :: "string list option"

record conflicting_read_with_write_source =
  cw_read :: conflicting_read
  cw_write_source :: write_source
  cw_write_ts :: timestamp

definition rs_empty :: "'s read_set" where
  "rs_empty = \<lparr>rs_indexed = [], rs_search = []\<rparr>"

definition rs_new ::
  "(tablet_index_name, index_reads) btree_map \<Rightarrow> (tablet_index_name, 's) btree_map \<Rightarrow> 's read_set" where
  "rs_new indexed search = \<lparr>rs_indexed = indexed, rs_search = search\<rparr>"

text \<open>The traces of the intervals that contain the key.\<close>

definition conflicting_traces :: "index_reads \<Rightarrow> binary_key \<Rightarrow> string list option" where
  "conflicting_traces r key =
     map_option (\<lambda>st. [trace. (interval, trace) \<leftarrow> st, interval_contains interval key]) (ir_stack_traces r)"

definition overlaps_document ::
  "('d, 's, 'v) doc_ops \<Rightarrow> 's read_set \<Rightarrow> 'd \<Rightarrow> conflicting_read option" where
  "overlaps_document ops rs d =
     (let ident = doc_id ops d; tid = fst ident in
      case find (\<lambda>(_, r). iset_contains (ir_intervals r) (index_key ops (ir_fields r) d))
             (iter_indexes_for_table (rs_indexed rs) tid) of
        Some (index, r) \<Rightarrow>
          Some \<lparr>cr_index = index, cr_id = ident,
                cr_stack_traces = conflicting_traces r (index_key ops (ir_fields r) d)\<rparr>
      | None \<Rightarrow>
          (case find (\<lambda>(_, s). search_overlaps ops s d) (iter_indexes_for_table (rs_search rs) tid) of
             Some (index, _) \<Rightarrow> Some \<lparr>cr_index = index, cr_id = ident, cr_stack_traces = None\<rparr>
           | None \<Rightarrow> None))"

section \<open>Index keys of documents\<close>

datatype 'v document_index_key_value = Standard binary_key | Search 'v

type_synonym 'v document_index_keys = "(tablet_index_name, 'v document_index_key_value) btree_map"

definition standard_key :: "'v document_index_keys \<Rightarrow> tablet_index_name \<Rightarrow> binary_key option" where
  "standard_key keys index = (case bt_get keys index of Some (Standard key) \<Rightarrow> Some key | _ \<Rightarrow> None)"

definition search_key :: "'v document_index_keys \<Rightarrow> tablet_index_name \<Rightarrow> 'v option" where
  "search_key keys index = (case bt_get keys index of Some (Search v) \<Rightarrow> Some v | _ \<Rightarrow> None)"

definition overlaps_index_keys ::
  "('d, 's, 'v) doc_ops \<Rightarrow> 's read_set \<Rightarrow> resolved_document_id \<Rightarrow> 'v document_index_keys \<Rightarrow>
   conflicting_read option" where
  "overlaps_index_keys ops rs ident keys =
     (let tid = fst ident in
      case find (\<lambda>(index, r). case standard_key keys index of
                    None \<Rightarrow> False | Some key \<Rightarrow> iset_contains (ir_intervals r) key)
             (iter_indexes_for_table (rs_indexed rs) tid) of
        Some (index, r) \<Rightarrow>
          Some \<lparr>cr_index = index, cr_id = ident,
                cr_stack_traces = Option.bind (standard_key keys index) (conflicting_traces r)\<rparr>
      | None \<Rightarrow>
          (case find (\<lambda>(index, s). case search_key keys index of
                         None \<Rightarrow> False | Some v \<Rightarrow> search_overlaps_key ops s v)
                  (iter_indexes_for_table (rs_search rs) tid) of
             Some (index, _) \<Rightarrow> Some \<lparr>cr_index = index, cr_id = ident, cr_stack_traces = None\<rparr>
           | None \<Rightarrow> None))"

section \<open>Updates\<close>

record 'd packed_document_update =
  pu_id :: resolved_document_id
  pu_old :: "'d option"
  pu_new :: "'d option"

record 'v document_index_keys_update =
  ku_id :: resolved_document_id
  ku_old :: "'v document_index_keys option"
  ku_new :: "'v document_index_keys option"

type_synonym 'd ordered_document_writes = "(resolved_document_id \<times> 'd packed_document_update) list"
type_synonym ('d, 'v) ordered_index_key_writes =
  "(resolved_document_id \<times> 'v document_index_keys_update \<times> 'd option) list"

primrec find_map :: "('a \<Rightarrow> 'b option) \<Rightarrow> 'a list \<Rightarrow> 'b option" where
  "find_map f [] = None"
| "find_map f (x # xs) = (case f x of Some y \<Rightarrow> Some y | None \<Rightarrow> find_map f xs)"

definition with_write_source ::
  "timestamp \<Rightarrow> write_source \<Rightarrow> conflicting_read option \<Rightarrow> conflicting_read_with_write_source option" where
  "with_write_source ts source =
     map_option (\<lambda>r. \<lparr>cw_read = r, cw_write_source = source, cw_write_ts = ts\<rparr>)"

text \<open>The new version is tried before the old one.\<close>

definition versions :: "'a option \<Rightarrow> 'a option \<Rightarrow> 'a list" where
  "versions new old = List.map_filter id [new, old]"

definition writes_overlap_docs ::
  "('d, 's, 'v) doc_ops \<Rightarrow> 's read_set \<Rightarrow>
   (timestamp \<times> 'd ordered_document_writes \<times> write_source) list \<Rightarrow>
   conflicting_read_with_write_source option" where
  "writes_overlap_docs ops rs updates =
     find_map (\<lambda>(ts, writes, source).
       find_map (\<lambda>(_, u). with_write_source ts source
         (find_map (overlaps_document ops rs) (versions (pu_new u) (pu_old u)))) writes) updates"

definition writes_overlap_index_keys ::
  "('d, 's, 'v) doc_ops \<Rightarrow> 's read_set \<Rightarrow>
   (timestamp \<times> ('d, 'v) ordered_index_key_writes \<times> write_source) list \<Rightarrow>
   conflicting_read_with_write_source option" where
  "writes_overlap_index_keys ops rs updates =
     find_map (\<lambda>(ts, writes, source).
       find_map (\<lambda>(ident, u, _). with_write_source ts source
         (find_map (overlaps_index_keys ops rs ident) (versions (ku_new u) (ku_old u)))) writes) updates"

section \<open>Recording reads\<close>

record transaction_read_size =
  total_document_size :: nat
  total_document_count :: nat

record 's transaction_read_set =
  trs_read_set :: "'s read_set"
  trs_num_intervals :: nat
  trs_user_tx_size :: transaction_read_size
  trs_system_tx_size :: transaction_read_size

definition read_size_zero :: transaction_read_size where
  "read_size_zero = \<lparr>total_document_size = 0, total_document_count = 0\<rparr>"

definition read_size_add :: "transaction_read_size \<Rightarrow> transaction_read_size \<Rightarrow> transaction_read_size" where
  "read_size_add a b =
     \<lparr>total_document_size = total_document_size a + total_document_size b,
      total_document_count = total_document_count a + total_document_count b\<rparr>"

definition trs_new :: "'s transaction_read_set" where
  "trs_new = \<lparr>trs_read_set = rs_empty, trs_num_intervals = 0,
     trs_user_tx_size = read_size_zero, trs_system_tx_size = read_size_zero\<rparr>"

text \<open>
  \<open>trace\<close> is the stack trace of the read when traces are captured, \<open>None\<close> when
  they are not.
\<close>

fun add_intervals :: "string option \<Rightarrow> interval list \<Rightarrow> index_reads \<Rightarrow> index_reads option" where
  "add_intervals trace [] r = Some r"
| "add_intervals trace (i # is) r =
     (case iset_add (ir_intervals r) i of
        None \<Rightarrow> None
      | Some s \<Rightarrow>
          add_intervals trace is
            (r\<lparr>ir_intervals := s,
               ir_stack_traces := map_option (\<lambda>st. st @ [(i, case trace of Some t \<Rightarrow> t | None \<Rightarrow> [])])
                 (ir_stack_traces r)\<rparr>))"

definition record_indexed ::
  "string option \<Rightarrow> tablet_index_name \<Rightarrow> indexed_fields \<Rightarrow> interval list \<Rightarrow> 's read_set \<Rightarrow>
   ((nat \<times> nat) \<times> 's read_set) option" where
  "record_indexed trace name fs is rs =
     (let r = (case bt_get (rs_indexed rs) name of
                 Some r \<Rightarrow> r
               | None \<Rightarrow> \<lparr>ir_fields = fs, ir_intervals = iset_new,
                          ir_stack_traces = map_option (\<lambda>_. []) trace\<rparr>) in
      if ir_fields r \<noteq> fs then None
      else map_option (\<lambda>r'. ((iset_len (ir_intervals r), iset_len (ir_intervals r')),
                            rs\<lparr>rs_indexed := bt_insert name r' (rs_indexed rs)\<rparr>))
             (add_intervals trace is r))"

definition record_indexed_derived ::
  "string option \<Rightarrow> tablet_index_name \<Rightarrow> indexed_fields \<Rightarrow> interval \<Rightarrow>
   's transaction_read_set \<Rightarrow> 's transaction_read_set option" where
  "record_indexed_derived trace name fs i t =
     map_option (\<lambda>(_, rs). t\<lparr>trs_read_set := rs\<rparr>) (record_indexed trace name fs [i] (trs_read_set t))"

text \<open>The limit \<open>TRANSACTION_MAX_READ_SET_INTERVALS\<close> is the argument \<open>max_intervals\<close>.\<close>

definition record_indexed_directly ::
  "nat \<Rightarrow> string option \<Rightarrow> tablet_index_name \<Rightarrow> indexed_fields \<Rightarrow> interval \<Rightarrow>
   's transaction_read_set \<Rightarrow> ((anyhow_error + unit) \<times> 's transaction_read_set) option" where
  "record_indexed_directly max_intervals trace name fs i t =
     map_option (\<lambda>((before, after), rs).
       let n = trs_num_intervals t - before + after;
           t' = t\<lparr>trs_read_set := rs, trs_num_intervals := n\<rparr>
       in (if n > max_intervals then Inl (anyhow ''TooManyReads'') else Inr (), t'))
     (record_indexed trace name fs [i] (trs_read_set t))"

definition record_search ::
  "'s \<Rightarrow> ('s \<Rightarrow> 's \<Rightarrow> 's) \<Rightarrow> tablet_index_name \<Rightarrow> 's \<Rightarrow> 's read_set \<Rightarrow> 's read_set" where
  "record_search none merge_search name s rs =
     (let existing = (case bt_get (rs_search rs) name of Some e \<Rightarrow> e | None \<Rightarrow> none)
      in rs\<lparr>rs_search := bt_insert name (merge_search existing s) (rs_search rs)\<rparr>)"

fun merge_indexed ::
  "string option \<Rightarrow> (tablet_index_name \<times> index_reads) list \<Rightarrow> 's read_set \<Rightarrow> 's read_set option" where
  "merge_indexed trace [] rs = Some rs"
| "merge_indexed trace ((name, r) # rest) rs =
     (case record_indexed trace name (ir_fields r) (iset_iter (ir_intervals r)) rs of
        None \<Rightarrow> None
      | Some (_, rs') \<Rightarrow> merge_indexed trace rest rs')"

definition trs_merge ::
  "'s \<Rightarrow> ('s \<Rightarrow> 's \<Rightarrow> 's) \<Rightarrow> string option \<Rightarrow> 's read_set \<Rightarrow> nat \<Rightarrow> transaction_read_size \<Rightarrow>
   transaction_read_size \<Rightarrow> 's transaction_read_set \<Rightarrow> 's transaction_read_set option" where
  "trs_merge none merge_search trace reads n user_size system_size t =
     map_option (\<lambda>rs.
       t\<lparr>trs_read_set := fold (\<lambda>(name, s). record_search none merge_search name s) (rs_search reads) rs,
         trs_num_intervals := trs_num_intervals t + n,
         trs_user_tx_size := read_size_add (trs_user_tx_size t) user_size,
         trs_system_tx_size := read_size_add (trs_system_tx_size t) system_size\<rparr>)
     (merge_indexed trace (rs_indexed reads) (trs_read_set t))"

text \<open>
  \<open>virtual\<close> tells the system tables that back a virtual table; the limits
  \<open>TRANSACTION_MAX_READ_SIZE_ROWS\<close> and \<open>TRANSACTION_MAX_READ_SIZE_BYTES\<close> are
  arguments.  The sizes count the read even when it is refused.
\<close>

definition record_read_document ::
  "(table_name \<Rightarrow> bool) \<Rightarrow> nat \<Rightarrow> nat \<Rightarrow> table_name \<Rightarrow> nat \<Rightarrow>
   's transaction_read_set \<Rightarrow> (anyhow_error + unit) \<times> 's transaction_read_set" where
  "record_read_document virtual max_rows max_bytes name document_size t =
     (let skip = is_system name \<and> \<not> virtual name;
          one = \<lparr>total_document_size = document_size, total_document_count = 1\<rparr>
      in if skip
         then (Inr (), t\<lparr>trs_system_tx_size := read_size_add (trs_system_tx_size t) one\<rparr>)
         else let s = read_size_add (trs_user_tx_size t) one; t' = t\<lparr>trs_user_tx_size := s\<rparr>
              in if total_document_count s > max_rows then (Inl (anyhow ''TooManyDocumentsRead''), t')
                 else if total_document_size s > max_bytes then (Inl (anyhow ''TooManyBytesRead''), t')
                 else (Inr (), t'))"

section \<open>Well-formed read sets\<close>

definition names_wf :: "(tablet_index_name, 'a) btree_map \<Rightarrow> bool" where
  "names_wf m \<longleftrightarrow> bt_wf m \<and> (\<forall>index \<in> fst ` set m. is_valid_identifier (snd index))"

definition read_set_wf :: "'s read_set \<Rightarrow> bool" where
  "read_set_wf rs \<longleftrightarrow> names_wf (rs_indexed rs) \<and> names_wf (rs_search rs) \<and>
     (\<forall>(_, r) \<in> set (rs_indexed rs). iset_wf (ir_intervals r))"

text \<open>The keys of an index that the read set covers.\<close>

definition covered :: "'s read_set \<Rightarrow> tablet_index_name \<Rightarrow> binary_key set" where
  "covered rs name = (case bt_get (rs_indexed rs) name of None \<Rightarrow> {} | Some r \<Rightarrow> iset_keys (ir_intervals r))"

lemma min_identifier_le:
  assumes "is_valid_identifier s" shows "min_identifier \<le> s"
proof -
  from assms obtain c cs where s: "s = c # cs" and c: "is_ascii_alphabetic c \<or> c = CHR ''_''"
    by (cases s) (auto simp: is_valid_identifier_def check_valid_identifier_def split: if_splits)
  from c have "CHR ''A'' \<le> c"
    by (auto simp: is_ascii_alphabetic_def less_eq_char_def)
  then show ?thesis by (cases "CHR ''A'' = c") (auto simp: min_identifier_def s)
qed

lemma iter_indexes_for_table_eq:
  assumes "names_wf m"
  shows "iter_indexes_for_table m tid = filter (\<lambda>(index, _). fst index = tid) m"
  using assms
proof (induction m)
  case Nil
  then show ?case by (simp add: iter_indexes_for_table_def)
next
  case (Cons p m)
  obtain t d v where p: "p = ((t, d), v)" by (cases p) auto
  from Cons.prems have wf: "names_wf m" and lt: "\<forall>x \<in> fst ` set m. (t, d) < x"
    and "is_valid_identifier d" by (auto simp: names_wf_def p bt_wf_Cons)
  then have d: "min_identifier \<le> d" by (simp add: min_identifier_le)
  have le: "t \<le> fst (fst q)" if "q \<in> set m" for q
    using lt that by (cases "fst q") (force simp: less_prod_def')
  have later: "filter (\<lambda>(index, _). fst index = tid) m = []" if "tid < t"
    using le that by (force simp: filter_empty_conv)
  have "takeWhile (\<lambda>(index, _). fst index = tid) m = filter (\<lambda>(index, _). fst index = tid) m" if "t = tid"
  proof (rule takeWhile_eq_filter)
    have "sorted_wrt (\<lambda>p q. fst p < fst q) m" using wf by (simp add: names_wf_def bt_wf_def sorted_wrt_map)
    then have "sorted_wrt (\<lambda>p q. fst (fst p) \<le> fst (fst q)) m"
      by (rule sorted_wrt_mono_rel [rotated]) (auto simp: less_prod_def')
    then show "sorted_wrt (\<lambda>x y. (case y of (index, _) \<Rightarrow> fst index = tid) \<longrightarrow> (case x of (index, _) \<Rightarrow> fst index = tid)) m"
      by (rule sorted_wrt_mono_rel [rotated]) (use le that in force)
  qed
  with Cons.IH [OF wf] later d show ?case
    by (cases t tid rule: linorder_cases)
      (auto simp: p iter_indexes_for_table_def min_for_table_def less_prod_def')
qed

lemma find_map_None_iff: "find_map f xs = None \<longleftrightarrow> (\<forall>x \<in> set xs. f x = None)"
  by (induction xs) (auto split: option.splits)

lemma find_map_Some: "find_map f xs = Some y \<Longrightarrow> \<exists>x \<in> set xs. f x = Some y"
  by (induction xs) (auto split: option.splits)

lemma find_map_cong [fundef_cong]:
  "xs = ys \<Longrightarrow> (\<And>x. x \<in> set ys \<Longrightarrow> f x = g x) \<Longrightarrow> find_map f xs = find_map g ys"
  by (induction ys arbitrary: xs) (auto split: option.splits)

lemma find_map_list_all2: "list_all2 (\<lambda>x y. f x = g y) xs ys \<Longrightarrow> find_map f xs = find_map g ys"
  by (induction rule: list_all2_induct) (simp_all split: option.split)

lemma list_all2_versions:
  "rel_option R a a' \<Longrightarrow> rel_option R b b' \<Longrightarrow> list_all2 R (versions a b) (versions a' b')"
  by (cases a; cases a'; cases b; cases b') (simp_all add: versions_def map_filter_simps)

lemma find_cong_set: "(\<And>x. x \<in> set xs \<Longrightarrow> P x = Q x) \<Longrightarrow> find P xs = find Q xs"
  by (induction xs) auto

lemma find_None_set: "find P xs = None \<longleftrightarrow> (\<forall>x \<in> set xs. \<not> P x)"
  by (auto simp: find_None_iff)

lemma find_SomeD: "find P xs = Some x \<Longrightarrow> x \<in> set xs \<and> P x"
  by (auto simp: find_Some_iff)

text \<open>What it means that a document is read.\<close>

definition reads_document :: "('d, 's, 'v) doc_ops \<Rightarrow> 's read_set \<Rightarrow> 'd \<Rightarrow> bool" where
  "reads_document ops rs d \<longleftrightarrow>
     (\<exists>(index, r) \<in> set (rs_indexed rs). fst index = fst (doc_id ops d) \<and>
        index_key ops (ir_fields r) d \<in> iset_keys (ir_intervals r)) \<or>
     (\<exists>(index, s) \<in> set (rs_search rs). fst index = fst (doc_id ops d) \<and> search_overlaps ops s d)"

lemma find_indexes_iff:
  assumes "names_wf m"
  shows "find P (iter_indexes_for_table m tid) = None \<longleftrightarrow> \<not> (\<exists>(index, r) \<in> set m. fst index = tid \<and> P (index, r))"
  unfolding iter_indexes_for_table_eq [OF assms] find_None_set by auto

lemma overlaps_document_iff:
  assumes "read_set_wf rs"
  shows "overlaps_document ops rs d = None \<longleftrightarrow> \<not> reads_document ops rs d"
proof -
  let ?P = "\<lambda>(_ :: tablet_index_name, r). iset_contains (ir_intervals r) (index_key ops (ir_fields r) d)"
  let ?Q = "\<lambda>(_ :: tablet_index_name, s). search_overlaps ops s d"
  let ?tid = "fst (doc_id ops d)"
  from assms have wf: "names_wf (rs_indexed rs)" "names_wf (rs_search rs)"
    and iv: "\<And>index r. (index, r) \<in> set (rs_indexed rs) \<Longrightarrow> iset_wf (ir_intervals r)"
    by (auto simp: read_set_wf_def)
  have "overlaps_document ops rs d = None \<longleftrightarrow>
      find ?P (iter_indexes_for_table (rs_indexed rs) ?tid) = None \<and>
      find ?Q (iter_indexes_for_table (rs_search rs) ?tid) = None"
    by (simp add: overlaps_document_def Let_def split: option.splits)
  also have "\<dots> \<longleftrightarrow> \<not> reads_document ops rs d"
    unfolding find_indexes_iff [OF wf(1)] find_indexes_iff [OF wf(2)] reads_document_def
    using iset_contains_iff [OF iv] by (auto split: prod.splits)
  finally show ?thesis .
qed

lemma set_versions: "set (versions a b) = {d. a = Some d \<or> b = Some d}"
  by (cases a; cases b) (auto simp: versions_def map_filter_simps)

lemma writes_overlap_docs_iff:
  assumes "read_set_wf rs"
  shows "writes_overlap_docs ops rs updates = None \<longleftrightarrow>
    (\<forall>(_, writes, _) \<in> set updates. \<forall>(_, u) \<in> set writes. \<forall>d.
       pu_new u = Some d \<or> pu_old u = Some d \<longrightarrow> \<not> reads_document ops rs d)"
  unfolding writes_overlap_docs_def find_map_None_iff with_write_source_def map_option_is_None
  by (simp add: find_map_None_iff set_versions overlaps_document_iff [OF assms] case_prod_unfold)

section \<open>Documents and their index keys\<close>

text \<open>
  The keys that the write log keeps of a document agree with it on the indexes
  of a read set.
\<close>

definition keys_agree ::
  "('d, 's, 'v) doc_ops \<Rightarrow> 's read_set \<Rightarrow> 'd \<Rightarrow> 'v document_index_keys \<Rightarrow> bool" where
  "keys_agree ops rs d keys \<longleftrightarrow>
     (\<forall>(index, r) \<in> set (rs_indexed rs). fst index = fst (doc_id ops d) \<longrightarrow>
        standard_key keys index = Some (index_key ops (ir_fields r) d)) \<and>
     (\<forall>(index, s) \<in> set (rs_search rs). fst index = fst (doc_id ops d) \<longrightarrow>
        (\<exists>v. search_key keys index = Some v \<and> search_overlaps_key ops s v = search_overlaps ops s d))"

lemma overlaps_index_keys_eq:
  assumes wf: "read_set_wf rs" and agree: "keys_agree ops rs d keys"
  shows "overlaps_index_keys ops rs (doc_id ops d) keys = overlaps_document ops rs d"
proof -
  let ?tid = "fst (doc_id ops d)"
  from wf have names: "names_wf (rs_indexed rs)" "names_wf (rs_search rs)" by (auto simp: read_set_wf_def)
  have key: "standard_key keys (fst x) = Some (index_key ops (ir_fields (snd x)) d)"
    if "x \<in> set (iter_indexes_for_table (rs_indexed rs) ?tid)" for x
    using agree that by (auto simp: keys_agree_def iter_indexes_for_table_eq [OF names(1)])
  have skey: "\<exists>v. search_key keys (fst x) = Some v \<and> search_overlaps_key ops (snd x) v = search_overlaps ops (snd x) d"
    if "x \<in> set (iter_indexes_for_table (rs_search rs) ?tid)" for x
    using agree that by (auto simp: keys_agree_def iter_indexes_for_table_eq [OF names(2)])
  have 1: "find (\<lambda>(index, r). case standard_key keys index of None \<Rightarrow> False | Some key \<Rightarrow> iset_contains (ir_intervals r) key)
        (iter_indexes_for_table (rs_indexed rs) ?tid) =
      find (\<lambda>(_, r). iset_contains (ir_intervals r) (index_key ops (ir_fields r) d))
        (iter_indexes_for_table (rs_indexed rs) ?tid)"
    by (rule find_cong_set) (use key in \<open>force split: prod.splits\<close>)
  have 2: "find (\<lambda>(index, s). case search_key keys index of None \<Rightarrow> False | Some v \<Rightarrow> search_overlaps_key ops s v)
        (iter_indexes_for_table (rs_search rs) ?tid) =
      find (\<lambda>(_, s). search_overlaps ops s d) (iter_indexes_for_table (rs_search rs) ?tid)"
    by (rule find_cong_set) (use skey in \<open>force split: prod.splits\<close>)
  show ?thesis
    unfolding overlaps_index_keys_def overlaps_document_def Let_def 1 2
    by (auto split: option.split dest!: find_SomeD key)
qed

text \<open>An update of documents and an update of index keys that describe the same write.\<close>

definition update_agrees ::
  "('d, 's, 'v) doc_ops \<Rightarrow> 's read_set \<Rightarrow> 'd packed_document_update \<Rightarrow> 'v document_index_keys_update \<Rightarrow> bool" where
  "update_agrees ops rs u k \<longleftrightarrow>
     rel_option (\<lambda>d keys. doc_id ops d = ku_id k \<and> keys_agree ops rs d keys) (pu_old u) (ku_old k) \<and>
     rel_option (\<lambda>d keys. doc_id ops d = ku_id k \<and> keys_agree ops rs d keys) (pu_new u) (ku_new k)"

lemma update_overlap_eq:
  assumes "read_set_wf rs" "update_agrees ops rs u k" "ident = ku_id k"
  shows "find_map (overlaps_index_keys ops rs ident) (versions (ku_new k) (ku_old k)) =
    find_map (overlaps_document ops rs) (versions (pu_new u) (pu_old u))"
proof (rule find_map_list_all2)
  let ?R = "\<lambda>keys d. overlaps_index_keys ops rs ident keys = overlaps_document ops rs d"
  have "?R keys d" if "doc_id ops d = ku_id k \<and> keys_agree ops rs d keys" for keys d
    using overlaps_index_keys_eq [OF assms(1), of ops d keys] that assms(3) by simp
  then have "rel_option ?R (ku_new k) (pu_new u)" "rel_option ?R (ku_old k) (pu_old u)"
    using assms(2) unfolding update_agrees_def rel_option_iff by (auto split: option.splits)
  then show "list_all2 ?R (versions (ku_new k) (ku_old k)) (versions (pu_new u) (pu_old u))"
    by (rule list_all2_versions)
qed

section \<open>Recording\<close>

lemma add_intervals_spec:
  assumes "iset_wf (ir_intervals r)"
  shows "\<exists>r'. add_intervals trace is r = Some r' \<and> ir_fields r' = ir_fields r \<and> iset_wf (ir_intervals r') \<and>
    iset_keys (ir_intervals r') = iset_keys (ir_intervals r) \<union> (\<Union>i \<in> set is. interval_keys i)"
  using assms
proof (induction "is" arbitrary: r)
  case (Cons i "is")
  from iset_add_spec [OF Cons.prems, of i] obtain s where s: "iset_add (ir_intervals r) i = Some s"
    "iset_wf s" "iset_keys s = iset_keys (ir_intervals r) \<union> interval_keys i" by blast
  then show ?case
    using Cons.IH [of "r\<lparr>ir_intervals := s, ir_stack_traces := map_option
      (\<lambda>st. st @ [(i, case trace of Some t \<Rightarrow> t | None \<Rightarrow> [])]) (ir_stack_traces r)\<rparr>"]
    by auto
qed simp

definition fields_agree :: "'s read_set \<Rightarrow> tablet_index_name \<Rightarrow> indexed_fields \<Rightarrow> bool" where
  "fields_agree rs name fs \<longleftrightarrow> (\<forall>r. bt_get (rs_indexed rs) name = Some r \<longrightarrow> ir_fields r = fs)"

lemma read_set_wf_get:
  assumes "read_set_wf rs" "bt_get (rs_indexed rs) name = Some r"
  shows "iset_wf (ir_intervals r)"
  using assms by (auto simp: read_set_wf_def dest!: bt_get_SomeD)

lemma names_wf_insert: "names_wf m \<Longrightarrow> is_valid_identifier (snd name) \<Longrightarrow> names_wf (bt_insert name v m)"
  by (auto simp: names_wf_def fst_set_bt_insert)

lemma read_set_wf_insert:
  assumes "read_set_wf rs" "is_valid_identifier (snd name)" "iset_wf (ir_intervals r)"
  shows "read_set_wf (rs\<lparr>rs_indexed := bt_insert name r (rs_indexed rs)\<rparr>)"
proof -
  have wf: "bt_wf (rs_indexed rs)" using assms(1) by (simp add: read_set_wf_def names_wf_def)
  have "iset_wf (ir_intervals r')" if "(i, r') \<in> set (bt_insert name r (rs_indexed rs))" for i r'
    using that assms read_set_wf_get [OF assms(1), of i r']
    by (auto simp flip: bt_get_Some_iff [OF bt_wf_insert [OF wf]] simp: bt_get_insert [OF wf] split: if_splits)
  with assms show ?thesis by (auto simp: read_set_wf_def names_wf_insert)
qed

lemma record_indexed_spec:
  assumes wf: "read_set_wf rs" and name: "is_valid_identifier (snd name)" and fs: "fields_agree rs name fs"
  shows "\<exists>n rs'. record_indexed trace name fs is rs = Some (n, rs') \<and> read_set_wf rs' \<and>
    rs_search rs' = rs_search rs \<and>
    (\<forall>i. map_option ir_fields (bt_get (rs_indexed rs') i) =
       (if i = name then Some fs else map_option ir_fields (bt_get (rs_indexed rs) i))) \<and>
    (\<forall>i. covered rs' i = covered rs i \<union> (if i = name then \<Union>j \<in> set is. interval_keys j else {}))"
proof -
  let ?r = "case bt_get (rs_indexed rs) name of Some r \<Rightarrow> r
    | None \<Rightarrow> \<lparr>ir_fields = fs, ir_intervals = iset_new, ir_stack_traces = map_option (\<lambda>_. []) trace\<rparr>"
  have bt: "bt_wf (rs_indexed rs)" using wf by (simp add: read_set_wf_def names_wf_def)
  have empty: "iset_wf iset_new" "iset_keys iset_new = {}"
    by (simp_all add: iset_new_def iset_wf_def iset_keys_def)
  have r: "ir_fields ?r = fs" "iset_wf (ir_intervals ?r)" "iset_keys (ir_intervals ?r) = covered rs name"
    using fs read_set_wf_get [OF wf, of name] empty by (auto simp: fields_agree_def covered_def split: option.split)
  from add_intervals_spec [OF r(2), of trace "is"] obtain r' where
    r': "add_intervals trace is ?r = Some r'" "ir_fields r' = fs" "iset_wf (ir_intervals r')"
      "iset_keys (ir_intervals r') = covered rs name \<union> (\<Union>j \<in> set is. interval_keys j)"
    using r by auto
  let ?rs = "rs\<lparr>rs_indexed := bt_insert name r' (rs_indexed rs)\<rparr>"
  have "record_indexed trace name fs is rs = Some ((iset_len (ir_intervals ?r), iset_len (ir_intervals r')), ?rs)"
    using r(1) r'(1) by (simp add: record_indexed_def Let_def)
  moreover have "read_set_wf ?rs" using read_set_wf_insert [OF wf name r'(3)] .
  moreover have "covered ?rs i = covered rs i \<union> (if i = name then \<Union>j \<in> set is. interval_keys j else {})" for i
    using r'(4) by (simp add: covered_def bt_get_insert [OF bt])
  moreover have "map_option ir_fields (bt_get (rs_indexed ?rs) i) =
      (if i = name then Some fs else map_option ir_fields (bt_get (rs_indexed rs) i))" for i
    using r'(2) by (simp add: bt_get_insert [OF bt])
  ultimately show ?thesis by (intro exI [of _ "_ :: nat \<times> nat"] exI [of _ ?rs]) simp
qed

lemma entry_interval_contains: "interval_contains (entry_interval p) k \<longleftrightarrow> fst p \<le> k \<and> Excluded k < snd p"
  by (simp add: interval_contains_iff)

lemma iset_iter_keys: "(\<Union>j \<in> set (iset_iter s). interval_keys j) = iset_keys s"
proof (cases s)
  case (Intervals m)
  then show ?thesis
    by (intro set_eqI) (simp add: iset_iter_def iset_keys_def in_entries_keys entry_interval_contains)
qed (simp add: iset_iter_def iset_keys_def)

text \<open>Merging the reads of another read set adds the keys it covers.\<close>

definition reads_compatible :: "'s read_set \<Rightarrow> (tablet_index_name \<times> index_reads) list \<Rightarrow> bool" where
  "reads_compatible rs m \<longleftrightarrow> (\<forall>(name, r) \<in> set m. is_valid_identifier (snd name) \<and> fields_agree rs name (ir_fields r))"

lemma merge_indexed_spec:
  assumes "read_set_wf rs" "bt_wf m" "reads_compatible rs m"
  shows "\<exists>rs'. merge_indexed trace m rs = Some rs' \<and> read_set_wf rs' \<and> rs_search rs' = rs_search rs \<and>
    (\<forall>i. covered rs' i = covered rs i \<union>
      (case bt_get m i of None \<Rightarrow> {} | Some r \<Rightarrow> iset_keys (ir_intervals r)))"
  using assms
proof (induction m arbitrary: rs)
  case (Cons p m)
  obtain name r where p: "p = (name, r)" by (cases p)
  from Cons.prems have wf: "bt_wf m" and new: "name \<notin> fst ` set m"
    and ok: "is_valid_identifier (snd name)" "fields_agree rs name (ir_fields r)" "reads_compatible rs m"
    by (auto simp: p bt_wf_Cons reads_compatible_def)
  from record_indexed_spec [OF Cons.prems(1) ok(1,2), of trace "iset_iter (ir_intervals r)"]
  obtain n rs1 where rs1: "record_indexed trace name (ir_fields r) (iset_iter (ir_intervals r)) rs = Some (n, rs1)"
    "read_set_wf rs1" "rs_search rs1 = rs_search rs"
    "\<And>i. map_option ir_fields (bt_get (rs_indexed rs1) i) =
       (if i = name then Some (ir_fields r) else map_option ir_fields (bt_get (rs_indexed rs) i))"
    "\<And>i. covered rs1 i = covered rs i \<union> (if i = name then iset_keys (ir_intervals r) else {})"
    unfolding iset_iter_keys by blast
  have "fields_agree rs1 i fs" if "i \<noteq> name" "fields_agree rs i fs" for i fs
    using rs1(4) [of i] that by (cases "bt_get (rs_indexed rs) i") (auto simp: fields_agree_def)
  with ok(3) new have "reads_compatible rs1 m" by (force simp: reads_compatible_def)
  from Cons.IH [OF rs1(2) wf this] obtain rs' where rs': "merge_indexed trace m rs1 = Some rs'" "read_set_wf rs'"
    "rs_search rs' = rs_search rs1"
    "\<And>i. covered rs' i = covered rs1 i \<union> (case bt_get m i of None \<Rightarrow> {} | Some r \<Rightarrow> iset_keys (ir_intervals r))"
    by blast
  have "bt_get m name = None" using new by (simp add: bt_get_None_iff)
  then show ?case using rs' rs1 by (auto simp: p bt_get_def split: option.split)
qed simp

lemma reads_document_covered:
  assumes "read_set_wf rs" "bt_get (rs_indexed rs) name = Some r" "fst name = fst (doc_id ops d)"
    and "index_key ops (ir_fields r) d \<in> covered rs name"
  shows "reads_document ops rs d"
  unfolding reads_document_def
  by (rule disjI1, rule bexI [OF _ bt_get_SomeD [OF assms(2)]]) (use assms(2-4) in \<open>simp add: covered_def\<close>)

text \<open>The commits of a log of documents and of a log of index keys that describe the same writes.\<close>

definition write_agrees ::
  "('d, 's, 'v) doc_ops \<Rightarrow> 's read_set \<Rightarrow> resolved_document_id \<times> 'd packed_document_update \<Rightarrow>
   resolved_document_id \<times> 'v document_index_keys_update \<times> 'd option \<Rightarrow> bool" where
  "write_agrees ops rs w k \<longleftrightarrow>
     fst w = fst k \<and> ku_id (fst (snd k)) = fst k \<and> update_agrees ops rs (snd w) (fst (snd k))"

definition commit_agrees ::
  "('d, 's, 'v) doc_ops \<Rightarrow> 's read_set \<Rightarrow> timestamp \<times> 'd ordered_document_writes \<times> write_source \<Rightarrow>
   timestamp \<times> ('d, 'v) ordered_index_key_writes \<times> write_source \<Rightarrow> bool" where
  "commit_agrees ops rs c l \<longleftrightarrow>
     fst c = fst l \<and> snd (snd c) = snd (snd l) \<and> list_all2 (write_agrees ops rs) (fst (snd c)) (fst (snd l))"

lemma commit_overlap_eq:
  assumes wf: "read_set_wf rs" and agrees: "list_all2 (write_agrees ops rs) ws ks"
  shows "find_map (\<lambda>(_, u). with_write_source ts source
      (find_map (overlaps_document ops rs) (versions (pu_new u) (pu_old u)))) ws =
    find_map (\<lambda>(ident, u, _). with_write_source ts source
      (find_map (overlaps_index_keys ops rs ident) (versions (ku_new u) (ku_old u)))) ks"
proof (rule find_map_list_all2, rule list_all2_mono [OF agrees])
  fix w k assume "write_agrees ops rs w k"
  then show "(case w of (_, u) \<Rightarrow> with_write_source ts source
      (find_map (overlaps_document ops rs) (versions (pu_new u) (pu_old u)))) =
    (case k of (ident, u, _) \<Rightarrow> with_write_source ts source
      (find_map (overlaps_index_keys ops rs ident) (versions (ku_new u) (ku_old u))))"
    using update_overlap_eq [OF wf, of ops "snd w" "fst (snd k)" "fst k"]
    by (simp add: write_agrees_def case_prod_unfold)
qed

section \<open>Properties\<close>

text \<open>
  C19. The two conflict checks agree.  The check of a read set against the index
  keys kept in the write log finds the conflict that the check against the full
  documents finds, and they find none exactly when no old and no new version of
  a written document lies in a range or matches a search of the read set.
\<close>
theorem conflict_checks_agree:
  assumes wf: "read_set_wf rs" and agrees: "list_all2 (commit_agrees ops rs) doc_updates key_updates"
  shows "writes_overlap_index_keys ops rs key_updates = writes_overlap_docs ops rs doc_updates \<and>
    (writes_overlap_docs ops rs doc_updates = None) =
    (\<forall>(_, ws, _) \<in> set doc_updates. \<forall>(_, u) \<in> set ws. \<forall>d.
       pu_new u = Some d \<or> pu_old u = Some d \<longrightarrow> \<not> reads_document ops rs d)"
proof (rule conjI [OF _ writes_overlap_docs_iff [OF wf]])
  have "writes_overlap_docs ops rs doc_updates = writes_overlap_index_keys ops rs key_updates"
    unfolding writes_overlap_index_keys_def writes_overlap_docs_def
  proof (rule find_map_list_all2, rule list_all2_mono [OF agrees])
    fix c l assume "commit_agrees ops rs c l"
    then show "(case c of (ts, ws, src) \<Rightarrow> find_map (\<lambda>(_, u). with_write_source ts src
          (find_map (overlaps_document ops rs) (versions (pu_new u) (pu_old u)))) ws) =
        (case l of (ts, ws, src) \<Rightarrow> find_map (\<lambda>(ident, u, _). with_write_source ts src
          (find_map (overlaps_index_keys ops rs ident) (versions (ku_new u) (ku_old u)))) ws)"
      using commit_overlap_eq [OF wf, of ops "fst (snd c)" "fst (snd l)" "fst l" "snd (snd l)"]
      by (simp add: commit_agrees_def case_prod_unfold)
  qed
  then show "writes_overlap_index_keys ops rs key_updates = writes_overlap_docs ops rs doc_updates" ..
qed

definition sample_ops :: "(resolved_document_id \<times> binary_key, unit, unit) doc_ops" where
  "sample_ops = \<lparr>doc_id = fst, index_key = (\<lambda>_ d. snd d), search_overlaps = (\<lambda>_ _. False),
     search_overlaps_key = (\<lambda>_ _. False)\<rparr>"

definition sample_reads :: "unit read_set" where
  "sample_reads = rs_new [(([1], ''by_id''), \<lparr>ir_fields = [], ir_intervals = Intervals [([2], Excluded [4])],
     ir_stack_traces = None\<rparr>)] []"

lemma sample_reads_wf: "read_set_wf sample_reads"
  by (simp add: sample_reads_def rs_new_def read_set_wf_def names_wf_def bt_wf_def iset_wf_def entries_wf_def
      is_valid_identifier_def) code_simp

theorem conflict_checks_agree_witness:
  "let ident = ([1], 10001, [7]); d = (ident, [3]);
       docs = [(5, [(ident, \<lparr>pu_id = ident, pu_old = None, pu_new = Some d\<rparr>)], None)];
       keys = [(5, [(ident, \<lparr>ku_id = ident, ku_old = None,
                  ku_new = Some [(([1], ''by_id''), Standard [3])]\<rparr>, None)], None)]
   in writes_overlap_index_keys sample_ops sample_reads keys = writes_overlap_docs sample_ops sample_reads docs"
  unfolding Let_def
  by (rule conflict_checks_agree [OF sample_reads_wf, THEN conjunct1])
    (simp add: commit_agrees_def write_agrees_def update_agrees_def keys_agree_def sample_ops_def sample_reads_def
      rs_new_def standard_key_def bt_get_def)

text \<open>
  C20. A recorded read is never lost.  Recording a range of an index never panics
  when the index keeps its fields; whether or not the call reports too many
  reads, afterwards every document of the table whose key lies in the range
  conflicts with the read set, and so does every document that did before.
\<close>
theorem recorded_read_conflicts:
  assumes wf: "read_set_wf (trs_read_set t)" and name: "is_valid_identifier (snd name)"
    and fs: "fields_agree (trs_read_set t) name fs"
  shows "\<exists>res t'. record_indexed_directly max_intervals trace name fs i t = Some (res, t') \<and>
    read_set_wf (trs_read_set t') \<and>
    (\<forall>d. fst (doc_id ops d) = fst name \<and> interval_contains i (index_key ops fs d) \<or>
         overlaps_document ops (trs_read_set t) d \<noteq> None \<longrightarrow>
         overlaps_document ops (trs_read_set t') d \<noteq> None)"
proof -
  from record_indexed_spec [OF assms, of trace "[i]"] obtain n rs where
    rs: "record_indexed trace name fs [i] (trs_read_set t) = Some (n, rs)" "read_set_wf rs"
      "rs_search rs = rs_search (trs_read_set t)"
      "\<And>j. map_option ir_fields (bt_get (rs_indexed rs) j) =
        (if j = name then Some fs else map_option ir_fields (bt_get (rs_indexed (trs_read_set t)) j))"
      "\<And>j. covered rs j = covered (trs_read_set t) j \<union> (if j = name then interval_keys i else {})" by auto
  from rs(1) obtain res t' where t': "record_indexed_directly max_intervals trace name fs i t = Some (res, t')"
    "trs_read_set t' = rs"
    by (auto simp: record_indexed_directly_def Let_def case_prod_unfold)
  have "reads_document ops rs d"
    if "fst (doc_id ops d) = fst name" "interval_contains i (index_key ops fs d)" for d
  proof -
    from rs(4) [of name] obtain r where r: "bt_get (rs_indexed rs) name = Some r" "ir_fields r = fs" by auto
    show ?thesis
      by (rule reads_document_covered [OF rs(2) r(1)]) (use that r(2) rs(5) [of name] in auto)
  qed
  moreover have "reads_document ops rs d" if "reads_document ops (trs_read_set t) d" for d
    using that unfolding reads_document_def [of ops "trs_read_set t"]
  proof (elim disjE bexE)
    fix p assume p: "p \<in> set (rs_indexed (trs_read_set t))" and "case p of (index, r) \<Rightarrow> fst index = fst (doc_id ops d) \<and>
        index_key ops (ir_fields r) d \<in> iset_keys (ir_intervals r)"
    then obtain j r where j: "p = (j, r)" "fst j = fst (doc_id ops d)" "index_key ops (ir_fields r) d \<in> iset_keys (ir_intervals r)"
      by (cases p) auto
    from p j(1) wf have get: "bt_get (rs_indexed (trs_read_set t)) j = Some r"
      by (simp add: bt_get_Some_iff read_set_wf_def names_wf_def)
    with rs(4) [of j] fs obtain r' where r': "bt_get (rs_indexed rs) j = Some r'" "ir_fields r' = ir_fields r"
      by (auto simp: fields_agree_def split: if_splits)
    show ?thesis
      by (rule reads_document_covered [OF rs(2) r'(1)]) (use j get r'(2) rs(5) [of j] in \<open>auto simp: covered_def\<close>)
  qed (use rs(3) in \<open>auto simp: reads_document_def\<close>)
  ultimately show ?thesis
    using t' rs(2) unfolding overlaps_document_iff [OF wf] not_not
    by (intro exI [of _ res] exI [of _ t']) (auto simp only: t'(2) overlaps_document_iff [OF rs(2)])
qed

lemma sample_trs_new:
  "read_set_wf (trs_read_set (trs_new :: unit transaction_read_set))"
  "fields_agree (trs_read_set (trs_new :: unit transaction_read_set)) name fs"
  by (simp_all add: trs_new_def rs_empty_def read_set_wf_def names_wf_def fields_agree_def)

theorem recorded_read_conflicts_witness:
  "\<exists>res t'. record_indexed_directly 0 None ([1], ''by_id'') [] interval_all (trs_new :: unit transaction_read_set) = Some (res, t') \<and>
    overlaps_document sample_ops (trs_read_set t') (([1], 10001, [7]), [3]) \<noteq> None"
proof -
  have "is_valid_identifier (snd ([1 :: u8], ''by_id''))" by code_simp
  from recorded_read_conflicts [OF sample_trs_new(1) this sample_trs_new(2), of 0 None "[]" interval_all sample_ops]
  obtain res t' where t': "record_indexed_directly 0 None ([1], ''by_id'') [] interval_all trs_new = Some (res, t')"
    and "\<And>d. fst (doc_id sample_ops d) = [1] \<and> interval_contains interval_all (index_key sample_ops [] d) \<Longrightarrow>
      overlaps_document sample_ops (trs_read_set t') d \<noteq> None"
    by auto
  moreover have "interval_contains interval_all [3]"
    unfolding in_interval_keys [symmetric] interval_all_keys by (rule UNIV_I)
  ultimately show ?thesis by (auto simp: sample_ops_def)
qed

end
