(* ===== verification/Waiters.thy ===== *)
theory Waiters
  imports Timestamps "HOL-Library.Multiset"
begin

text \<open>
  Queues of waiting tasks, as the write log (\<open>crates/database/src/write_log.rs\<close>)
  and the snapshot manager (\<open>crates/database/src/snapshot_manager.rs\<close>) keep them.
  A waiter is its target timestamp and the number of its channel.  All queues are
  drained by the same loop, which differs only in the condition \<open>due\<close> that wakes
  a waiter; an operation returns the channels it sends to.
\<close>

type_synonym waiter = "timestamp \<times> nat"

text \<open>\<open>swap_remove_back\<close>: the last element takes the place of the removed one.\<close>

definition swap_remove_back :: "nat \<Rightarrow> 'a list \<Rightarrow> 'a list" where
  "swap_remove_back i ws = (if i = length ws - 1 then butlast ws else (butlast ws)[i := last ws])"

function drain_waiters :: "(waiter \<Rightarrow> bool) \<Rightarrow> nat \<Rightarrow> waiter list \<Rightarrow> nat list \<Rightarrow> waiter list \<times> nat list" where
  "drain_waiters due i ws sent =
     (if i < length ws
      then if due (ws ! i)
           then drain_waiters due i (swap_remove_back i ws) (sent @ [snd (ws ! i)])
           else drain_waiters due (i + 1) ws sent
      else (ws, sent))"
  by pat_completeness auto
termination
  by (relation "measure (\<lambda>(_, i, ws, _). length ws - i)") (auto simp: swap_remove_back_def)

declare drain_waiters.simps [simp del]

lemma swap_remove_back:
  assumes "i < length ws"
  shows "mset (swap_remove_back i ws) = mset ws - {#ws ! i#}"
    and "take i (swap_remove_back i ws) = take i ws"
proof -
  from assms have ws: "ws = butlast ws @ [last ws]" by (cases ws) auto
  then have m: "mset ws = add_mset (last ws) (mset (butlast ws))"
    by (metis mset.simps(2) mset_append add.right_neutral mset.simps(1) union_mset_add_mset_right)
  show "mset (swap_remove_back i ws) = mset ws - {#ws ! i#}"
  proof (cases "i = length ws - 1")
    case True
    moreover have "ws \<noteq> []" using assms by auto
    ultimately have "ws ! i = last ws" by (simp add: last_conv_nth)
    with True m show ?thesis by (simp add: swap_remove_back_def)
  next
    case False
    with assms have i: "i < length (butlast ws)" by simp
    then have "ws ! i = butlast ws ! i" by (simp add: nth_butlast)
    moreover have "butlast ws ! i \<in># mset (butlast ws)" using i by simp
    ultimately show ?thesis using False i m
      by (simp add: swap_remove_back_def mset_update)
  qed
  show "take i (swap_remove_back i ws) = take i ws"
    using assms by (simp add: swap_remove_back_def take_butlast butlast_conv_take)
qed

text \<open>The loop sends to the waiters that are due, each once, and keeps the others.\<close>

lemma drain_waiters_from:
  assumes "\<forall>w \<in> set (take i ws). \<not> due w" "drain_waiters due i ws sent = (ws', sent')"
  shows "mset ws' = filter_mset (\<lambda>w. \<not> due w) (mset ws) \<and>
    mset sent' = mset sent + image_mset snd (filter_mset due (mset ws))"
  using assms
proof (induction due i ws sent rule: drain_waiters.induct)
  case (1 due i ws sent)
  show ?case
  proof (cases "i < length ws")
    case False
    with 1 have eq: "ws' = ws" "sent' = sent" by (auto simp: drain_waiters.simps [of due i ws sent])
    have no: "\<forall>w \<in> set ws. \<not> due w" using 1(3) False by simp
    then have "filter_mset due (mset ws) = {#}" by (simp add: filter_mset_eq_conv)
    moreover have "filter_mset (\<lambda>w. \<not> due w) (mset ws) = mset ws"
      using no by (auto simp: filter_mset_eq_conv)
    ultimately show ?thesis by (simp add: eq)
  next
    case i: True
    then have "ws ! i \<in># mset ws" by simp
    then obtain M where M: "mset ws = add_mset (ws ! i) M" by (metis multi_member_split)
    show ?thesis
    proof (cases "due (ws ! i)")
      case True
      with i 1(4) have "drain_waiters due i (swap_remove_back i ws) (sent @ [snd (ws ! i)]) = (ws', sent')"
        by (simp add: drain_waiters.simps [of due i ws sent])
      moreover have "\<forall>w \<in> set (take i (swap_remove_back i ws)). \<not> due w"
        using 1(3) by (simp add: swap_remove_back(2) [OF i])
      ultimately have "mset ws' = filter_mset (\<lambda>w. \<not> due w) (mset (swap_remove_back i ws)) \<and>
          mset sent' = mset (sent @ [snd (ws ! i)]) + image_mset snd (filter_mset due (mset (swap_remove_back i ws)))"
        using 1(1) [OF i True] by blast
      then show ?thesis using True by (simp add: swap_remove_back(1) [OF i] M)
    next
      case False
      with i 1(4) have "drain_waiters due (i + 1) ws sent = (ws', sent')"
        by (simp add: drain_waiters.simps [of due i ws sent])
      moreover have "\<forall>w \<in> set (take (i + 1) ws). \<not> due w"
        using 1(3) False i by (simp add: take_Suc_conv_app_nth)
      ultimately show ?thesis using 1(2) [OF i False] by blast
    qed
  qed
qed

lemma drain_waiters_spec:
  assumes "drain_waiters due 0 ws [] = (ws', sent)"
  shows "mset ws' = filter_mset (\<lambda>w. \<not> due w) (mset ws)"
    "mset sent = image_mset snd (filter_mset due (mset ws))"
    "set ws' = {w \<in> set ws. \<not> due w}" "set sent = snd ` {w \<in> set ws. due w}"
proof -
  from drain_waiters_from [OF _ assms] show m: "mset ws' = filter_mset (\<lambda>w. \<not> due w) (mset ws)"
    "mset sent = image_mset snd (filter_mset due (mset ws))" by simp_all
  from arg_cong [OF m(1), of set_mset] show "set ws' = {w \<in> set ws. \<not> due w}" by simp
  from arg_cong [OF m(2), of set_mset] show "set sent = snd ` {w \<in> set ws. due w}" by simp
qed

end
