(* ===== verification/WriteLog.thy ===== *)
theory WriteLog
  imports ReadSets Waiters
begin

text \<open>
  The write log and the writes in flight, from
  \<open>crates/database/src/write_log.rs\<close>, with tokens from \<open>token.rs\<close>.  The write
  log keeps the index keys of recent commits; it answers whether a read set is
  stale, wakes the tasks that wait for a timestamp, and forgets old commits.
  Pending writes are commits on their way to persistence, prepared writes are
  the intents of two-phase commit.

  \<open>closed\<close> tells which channels of waiters have lost their receiver.  The size of the log in memory is the argument \<open>heap_size\<close>.  The
  binary search of the sorted log is the position of the first entry at or after
  the timestamp.  \<open>None\<close> is a panic.
\<close>

section \<open>The log\<close>

type_synonym ('d, 'v) log_entry = "timestamp \<times> ('d, 'v) ordered_index_key_writes \<times> write_source"

record ('d, 'v) write_log =
  wl_by_ts :: "('d, 'v) log_entry list"
  wl_purged_ts :: timestamp

record ('d, 'v) write_log_manager =
  wm_log :: "('d, 'v) write_log"
  wm_waiters :: "(timestamp \<times> nat) list"

datatype write_log_error =
    OutOfRetention timestamp timestamp
  | LogTimestamp ts_error
  | RefreshTooNew timestamp timestamp

definition wl_new :: "timestamp \<Rightarrow> ('d, 'v) write_log" where
  "wl_new ts = \<lparr>wl_by_ts = [], wl_purged_ts = ts\<rparr>"

definition wl_max_ts :: "('d, 'v) write_log \<Rightarrow> timestamp" where
  "wl_max_ts l = (if wl_by_ts l = [] then wl_purged_ts l else fst (last (wl_by_ts l)))"

definition binary_search_start :: "timestamp \<Rightarrow> ('d, 'v) log_entry list \<Rightarrow> nat" where
  "binary_search_start since es = length (takeWhile (\<lambda>e. fst e < since) es)"

definition wl_iter ::
  "timestamp \<Rightarrow> timestamp \<Rightarrow> ('d, 'v) write_log \<Rightarrow> write_log_error + ('d, 'v) log_entry list" where
  "wl_iter since until l =
     (if \<not> since > wl_purged_ts l then Inl (OutOfRetention since (wl_purged_ts l))
      else Inr (takeWhile (\<lambda>e. fst e \<le> until) (drop (binary_search_start since (wl_by_ts l)) (wl_by_ts l))))"

definition wl_is_stale ::
  "('d, 's, 'v) doc_ops \<Rightarrow> 's read_set \<Rightarrow> timestamp \<Rightarrow> timestamp \<Rightarrow> ('d, 'v) write_log \<Rightarrow>
   write_log_error + conflicting_read_with_write_source option" where
  "wl_is_stale ops reads reads_ts ts l =
     (case ts_succ reads_ts of
        Inl e \<Rightarrow> Inl (LogTimestamp e)
      | Inr since \<Rightarrow>
          (case wl_iter since ts l of
             Inl e \<Rightarrow> Inl e
           | Inr log_range \<Rightarrow> Inr (writes_overlap_index_keys ops reads log_range)))"

section \<open>Tokens\<close>

record 's token =
  tok_reads :: "'s read_set"
  tok_ts :: timestamp

definition advance_ts :: "timestamp \<Rightarrow> 's token \<Rightarrow> 's token option" where
  "advance_ts ts t = (if tok_ts t < ts then Some (t\<lparr>tok_ts := ts\<rparr>) else None)"

text \<open>The inner sum is a refused refresh, with the timestamp of the conflict if there is one.\<close>

definition wl_refresh_token ::
  "('d, 's, 'v) doc_ops \<Rightarrow> 's token \<Rightarrow> timestamp \<Rightarrow> ('d, 'v) write_log \<Rightarrow>
   (write_log_error + (timestamp option + 's token)) option" where
  "wl_refresh_token ops token ts l =
     (case wl_is_stale ops (tok_reads token) (tok_ts token) ts l of
        Inr (Some conflict) \<Rightarrow> Some (Inr (Inl (Some (cw_write_ts conflict))))
      | Inl (OutOfRetention _ _) \<Rightarrow> Some (Inr (Inl None))
      | Inl e \<Rightarrow> Some (Inl e)
      | Inr None \<Rightarrow>
          if tok_ts token < ts then map_option (Inr \<circ> Inr) (advance_ts ts token)
          else Some (Inr (Inr token)))"

definition reader_refresh_token ::
  "('d, 's, 'v) doc_ops \<Rightarrow> 's token \<Rightarrow> timestamp \<Rightarrow> ('d, 'v) write_log_manager \<Rightarrow>
   (write_log_error + (timestamp option + 's token)) option" where
  "reader_refresh_token ops token ts m =
     (if tok_ts token = ts then Some (Inr (Inr token))
      else let max_ts = wl_max_ts (wm_log m) in
           if \<not> ts \<le> max_ts then Some (Inl (RefreshTooNew ts max_ts))
           else wl_refresh_token ops token ts (wm_log m))"

definition refresh_reads_until_max_ts ::
  "('d, 's, 'v) doc_ops \<Rightarrow> 's token \<Rightarrow> ('d, 'v) write_log_manager \<Rightarrow>
   (write_log_error + (timestamp option + 's token)) option" where
  "refresh_reads_until_max_ts ops token m = wl_refresh_token ops token (wl_max_ts (wm_log m)) (wm_log m)"

section \<open>The manager\<close>

definition wm_new :: "timestamp \<Rightarrow> ('d, 'v) write_log_manager" where
  "wm_new ts = \<lparr>wm_log = wl_new ts, wm_waiters = []\<rparr>"

definition notify_loop :: "(nat \<Rightarrow> bool) \<Rightarrow> timestamp \<Rightarrow> waiter list \<Rightarrow> waiter list \<times> nat list" where
  "notify_loop closed ts ws = drain_waiters (\<lambda>(target, channel). ts > target \<or> closed channel) 0 ws []"

definition notify_waiters ::
  "(nat \<Rightarrow> bool) \<Rightarrow> ('d, 'v) write_log_manager \<Rightarrow> ('d, 'v) write_log_manager \<times> nat list" where
  "notify_waiters closed m =
     (let (ws, sent) = notify_loop closed (wl_max_ts (wm_log m)) (wm_waiters m)
      in (m\<lparr>wm_waiters := ws\<rparr>, sent))"

definition notify_all_waiters :: "('d, 'v) write_log_manager \<Rightarrow> ('d, 'v) write_log_manager \<times> nat list" where
  "notify_all_waiters m = (m\<lparr>wm_waiters := []\<rparr>, map snd (wm_waiters m))"

definition wm_append ::
  "(nat \<Rightarrow> bool) \<Rightarrow> timestamp \<Rightarrow> ('d, 'v) ordered_index_key_writes \<Rightarrow> write_source \<Rightarrow>
   ('d, 'v) write_log_manager \<Rightarrow> (('d, 'v) write_log_manager \<times> nat list) option" where
  "wm_append closed ts writes source m =
     (if \<not> wl_max_ts (wm_log m) < ts then None
      else Some (notify_waiters closed
             (m\<lparr>wm_log := (wm_log m)\<lparr>wl_by_ts := wl_by_ts (wm_log m) @ [(ts, writes, source)]\<rparr>\<rparr>)))"

text \<open>The channel \<open>fresh\<close> is queued, unless the log is already past the target.\<close>

definition wait_for_higher_ts ::
  "(nat \<Rightarrow> bool) \<Rightarrow> timestamp \<Rightarrow> nat \<Rightarrow> ('d, 'v) write_log_manager \<Rightarrow>
   (bool \<times> ('d, 'v) write_log_manager) \<times> nat list" where
  "wait_for_higher_ts closed target fresh m =
     (let (m', sent) = notify_waiters closed m in
      if wl_max_ts (wm_log m') \<le> target
      then ((True, m'\<lparr>wm_waiters := wm_waiters m' @ [(target, fresh)]\<rparr>), sent)
      else ((False, m'), sent))"

fun retention_loop ::
  "(('d, 'v) log_entry list \<Rightarrow> nat) \<Rightarrow> nat \<Rightarrow> timestamp \<Rightarrow> timestamp \<Rightarrow>
   ('d, 'v) log_entry list \<Rightarrow> timestamp \<Rightarrow> ('d, 'v) write_log" where
  "retention_loop heap_size soft_max max_ts target_ts [] purged = \<lparr>wl_by_ts = [], wl_purged_ts = purged\<rparr>"
| "retention_loop heap_size soft_max max_ts target_ts (e # es) purged =
     (if fst e \<ge> max_ts then \<lparr>wl_by_ts = e # es, wl_purged_ts = purged\<rparr>
      else if fst e \<ge> target_ts \<and> heap_size (e # es) < soft_max
      then \<lparr>wl_by_ts = e # es, wl_purged_ts = purged\<rparr>
      else retention_loop heap_size soft_max max_ts target_ts es (fst e))"

text \<open>The retention knobs are arguments, durations in nanoseconds.\<close>

definition enforce_retention_policy ::
  "(('d, 'v) log_entry list \<Rightarrow> nat) \<Rightarrow> nat \<Rightarrow> nat \<Rightarrow> nat \<Rightarrow> timestamp \<Rightarrow>
   ('d, 'v) write_log_manager \<Rightarrow> ('d, 'v) write_log_manager" where
  "enforce_retention_policy heap_size soft_max min_retention max_retention current_ts m =
     (let max_ts = (case ts_sub current_ts min_retention of Inl _ \<Rightarrow> ts_min | Inr t \<Rightarrow> t);
          target_ts = (case ts_sub current_ts max_retention of Inl _ \<Rightarrow> ts_min | Inr t \<Rightarrow> t)
      in m\<lparr>wm_log := retention_loop heap_size soft_max max_ts target_ts
             (wl_by_ts (wm_log m)) (wl_purged_ts (wm_log m))\<rparr>)"

definition wm_reset :: "timestamp \<Rightarrow> ('d, 'v) write_log_manager \<Rightarrow> ('d, 'v) write_log_manager \<times> nat list" where
  "wm_reset ts m = notify_all_waiters (m\<lparr>wm_log := wl_new ts\<rparr>)"

section \<open>Pending and prepared writes\<close>

text \<open>
  A handle is the timestamp it stands for until it is used.  Snapshots are a
  type variable \<open>'n\<close>, and \<open>update\<close> applies a document update to one.
\<close>

type_synonym ('d, 'n) writes_by_ts = "(timestamp, 'd ordered_document_writes \<times> write_source \<times> 'n) btree_map"
type_synonym write_handle = "timestamp option"

definition bt_range :: "'k::linorder \<Rightarrow> 'k \<Rightarrow> ('k, 'a) btree_map \<Rightarrow> ('k \<times> 'a) list" where
  "bt_range lo hi m = filter (\<lambda>(k, _). lo \<le> k \<and> k \<le> hi) m"

definition bt_last :: "('k, 'a) btree_map \<Rightarrow> ('k \<times> 'a) option" where
  "bt_last m = (if m = [] then None else Some (last m))"

definition bt_first :: "('k, 'a) btree_map \<Rightarrow> ('k \<times> 'a) option" where
  "bt_first m = (case m of [] \<Rightarrow> None | p # _ \<Rightarrow> Some p)"

definition pending_push_back ::
  "timestamp \<Rightarrow> 'd ordered_document_writes \<Rightarrow> write_source \<Rightarrow> 'n \<Rightarrow> ('d, 'n) writes_by_ts \<Rightarrow>
   (write_handle \<times> ('d, 'n) writes_by_ts) option" where
  "pending_push_back ts writes source snapshot p =
     (case bt_last p of
        Some (last_ts, _) \<Rightarrow>
          if last_ts < ts then Some (Some ts, bt_insert ts (writes, source, snapshot) p) else None
      | None \<Rightarrow> Some (Some ts, bt_insert ts (writes, source, snapshot) p))"

definition pending_latest :: "('d, 'n) writes_by_ts \<Rightarrow> (timestamp \<times> 'n) option" where
  "pending_latest p = map_option (\<lambda>(ts, _, _, snapshot). (ts, snapshot)) (bt_last p)"

definition pending_latest_snapshot :: "('d, 'n) writes_by_ts \<Rightarrow> 'n option" where
  "pending_latest_snapshot p = map_option (\<lambda>(_, _, _, snapshot). snapshot) (bt_last p)"

fun recompute_pending_snapshots ::
  "('d packed_document_update \<Rightarrow> timestamp \<Rightarrow> 'n \<Rightarrow> 'n option) \<Rightarrow> 'n \<Rightarrow> ('d, 'n) writes_by_ts \<Rightarrow>
   ('d, 'n) writes_by_ts option" where
  "recompute_pending_snapshots update base [] = Some []"
| "recompute_pending_snapshots update base ((ts, (writes, source, _)) # p) =
     (case fold (\<lambda>(_, u) acc. Option.bind acc (update u ts)) writes (Some base) of
        None \<Rightarrow> None
      | Some base' \<Rightarrow>
          map_option ((#) (ts, (writes, source, base'))) (recompute_pending_snapshots update base' p))"

definition writes_iter ::
  "timestamp \<Rightarrow> timestamp \<Rightarrow> ('d, 'n) writes_by_ts \<Rightarrow>
   (timestamp \<times> 'd ordered_document_writes \<times> write_source) list" where
  "writes_iter since until p = map (\<lambda>(ts, w, source, _). (ts, w, source)) (bt_range since until p)"

definition pending_is_stale ::
  "('d, 's, 'v) doc_ops \<Rightarrow> 's read_set \<Rightarrow> timestamp \<Rightarrow> timestamp \<Rightarrow> ('d, 'n) writes_by_ts \<Rightarrow>
   write_log_error + conflicting_read_with_write_source option" where
  "pending_is_stale ops reads reads_ts ts p = Inr (writes_overlap_docs ops reads (writes_iter ts_min ts p))"

definition pending_pop_first ::
  "('d, 'n) writes_by_ts \<Rightarrow>
   (timestamp \<times> 'd ordered_document_writes \<times> write_source \<times> 'n) option \<times> ('d, 'n) writes_by_ts" where
  "pending_pop_first p = (case p of [] \<Rightarrow> (None, []) | (ts, v) # p' \<Rightarrow> (Some (ts, v), p'))"

definition writes_remove ::
  "write_handle \<Rightarrow> ('d, 'n) writes_by_ts \<Rightarrow>
   (timestamp \<times> 'd ordered_document_writes \<times> write_source \<times> 'n) option \<times> ('d, 'n) writes_by_ts" where
  "writes_remove handle p =
     (case handle of
        None \<Rightarrow> (None, p)
      | Some expected_ts \<Rightarrow> (map_option (Pair expected_ts) (bt_get p expected_ts), bt_remove expected_ts p))"

definition writes_min_ts :: "('d, 'n) writes_by_ts \<Rightarrow> timestamp option" where
  "writes_min_ts p = map_option fst (bt_first p)"

definition writes_max_ts :: "('d, 'n) writes_by_ts \<Rightarrow> timestamp option" where
  "writes_max_ts p = map_option fst (bt_last p)"

definition must_commit_ts :: "write_handle \<Rightarrow> timestamp option" where
  "must_commit_ts handle = handle"

definition prepared_insert ::
  "timestamp \<Rightarrow> 'd ordered_document_writes \<Rightarrow> write_source \<Rightarrow> 'n \<Rightarrow> ('d, 'n) writes_by_ts \<Rightarrow>
   anyhow_error + write_handle \<times> ('d, 'n) writes_by_ts" where
  "prepared_insert ts writes source snapshot p =
     (if bt_get p ts \<noteq> None then Inl (anyhow ''prepared write already staged'')
      else Inr (Some ts, bt_insert ts (writes, source, snapshot) p))"

definition prepared_is_stale ::
  "('d, 's, 'v) doc_ops \<Rightarrow> 's read_set \<Rightarrow> timestamp \<Rightarrow> timestamp \<Rightarrow> ('d, 'n) writes_by_ts \<Rightarrow>
   write_log_error + conflicting_read_with_write_source option" where
  "prepared_is_stale ops reads reads_ts ts p =
     (case ts_succ reads_ts of
        Inl e \<Rightarrow> Inl (LogTimestamp e)
      | Inr since \<Rightarrow> Inr (writes_overlap_docs ops reads (writes_iter since ts p)))"

definition conflicts_document_ids ::
  "resolved_document_id list \<Rightarrow> ('d, 'n) writes_by_ts \<Rightarrow> (timestamp \<times> write_source) option" where
  "conflicts_document_ids ids p =
     map_option (\<lambda>(ts, _, source, _). (ts, source))
       (find (\<lambda>(_, writes, _, _). list_ex (\<lambda>(ident, _). ident \<in> set ids) writes) p)"

text \<open>\<open>commit_has_conflict\<close> of the committer asks the log, the pending and the prepared writes.\<close>

definition commit_has_conflict ::
  "('d, 's, 'v) doc_ops \<Rightarrow> 's read_set \<Rightarrow> timestamp \<Rightarrow> timestamp \<Rightarrow> ('d, 'v) write_log \<Rightarrow>
   ('d, 'n) writes_by_ts \<Rightarrow> ('d, 'n) writes_by_ts \<Rightarrow>
   write_log_error + conflicting_read_with_write_source option" where
  "commit_has_conflict ops reads reads_ts commit_ts l pending prepared =
     (case wl_is_stale ops reads reads_ts commit_ts l of
        Inl e \<Rightarrow> Inl e
      | Inr (Some c) \<Rightarrow> Inr (Some c)
      | Inr None \<Rightarrow>
          (case pending_is_stale ops reads reads_ts commit_ts pending of
             Inl e \<Rightarrow> Inl e
           | Inr (Some c) \<Rightarrow> Inr (Some c)
           | Inr None \<Rightarrow> prepared_is_stale ops reads reads_ts commit_ts prepared))"

section \<open>Lookups in the log\<close>

definition wl_wf :: "('d, 'v) write_log \<Rightarrow> bool" where
  "wl_wf l \<longleftrightarrow> sorted_wrt (\<lambda>a b. fst a < fst b) (wl_by_ts l) \<and> (\<forall>e \<in> set (wl_by_ts l). wl_purged_ts l < fst e)"

lemma dropWhile_eq_filter:
  assumes "sorted_wrt (\<lambda>x y. P y \<longrightarrow> P x) xs"
  shows "dropWhile P xs = filter (\<lambda>x. \<not> P x) xs"
  using assms
proof (induction xs)
  case (Cons x xs)
  have "filter (\<lambda>x. \<not> P x) xs = xs" if "\<not> P x"
    by (rule filter_True) (use Cons.prems that in auto)
  with Cons show ?case by simp
qed simp

lemma sorted_by_ts_range:
  fixes es :: "(timestamp \<times> 'a) list"
  assumes "sorted_wrt (\<lambda>a b. fst a < fst b) es"
  shows "takeWhile (\<lambda>e. fst e \<le> hi) (dropWhile (\<lambda>e. fst e < lo) es) = filter (\<lambda>e. lo \<le> fst e \<and> fst e \<le> hi) es"
proof -
  have "sorted_wrt (\<lambda>x y. fst y < lo \<longrightarrow> fst x < lo) es"
    by (rule sorted_wrt_mono_rel [OF _ assms]) auto
  then have drop: "dropWhile (\<lambda>e. fst e < lo) es = filter (\<lambda>e. \<not> fst e < lo) es"
    by (rule dropWhile_eq_filter)
  have "sorted_wrt (\<lambda>x y. fst y \<le> hi \<longrightarrow> fst x \<le> hi) (filter (\<lambda>e. \<not> fst e < lo) es)"
    by (rule sorted_wrt_mono_rel [OF _ sorted_wrt_filter [OF assms]]) auto
  then have "takeWhile (\<lambda>e. fst e \<le> hi) (filter (\<lambda>e. \<not> fst e < lo) es) =
      filter (\<lambda>e. fst e \<le> hi) (filter (\<lambda>e. \<not> fst e < lo) es)"
    by (rule takeWhile_eq_filter)
  then show ?thesis by (simp add: drop not_less)
qed

lemma wl_iter_eq:
  assumes "wl_wf l"
  shows "wl_iter since until l =
    (if wl_purged_ts l < since then Inr (filter (\<lambda>e. since \<le> fst e \<and> fst e \<le> until) (wl_by_ts l))
     else Inl (OutOfRetention since (wl_purged_ts l)))"
  using assms
  by (simp add: wl_iter_def binary_search_start_def wl_wf_def sorted_by_ts_range flip: dropWhile_eq_drop)

text \<open>The conflict of a read set with one commit of the log.\<close>

definition entry_conflict ::
  "('d, 's, 'v) doc_ops \<Rightarrow> 's read_set \<Rightarrow> ('d, 'v) log_entry \<Rightarrow> conflicting_read_with_write_source option" where
  "entry_conflict ops reads e = writes_overlap_index_keys ops reads [e]"

lemma writes_overlap_index_keys_map: "writes_overlap_index_keys ops reads es = find_map (entry_conflict ops reads) es"
proof -
  have "entry_conflict ops reads = (\<lambda>(ts, writes, source). find_map (\<lambda>(ident, u, _). with_write_source ts source
      (find_map (overlaps_index_keys ops reads ident) (versions (ku_new u) (ku_old u)))) writes)"
    by (intro ext) (simp add: entry_conflict_def writes_overlap_index_keys_def case_prod_unfold split: option.split)
  then show ?thesis by (simp add: writes_overlap_index_keys_def)
qed

lemma ts_succ_bounds:
  assumes "ts_succ a = Inr t" shows "t \<le> b \<longleftrightarrow> a < b"
  using ts_succ_Inr [OF assms] by (auto simp: word_le_nat_alt word_less_nat_alt)

lemma wl_is_stale_cases:
  assumes "wl_wf l"
  shows "case wl_is_stale ops reads reads_ts ts l of
      Inl _ \<Rightarrow> reads_ts \<ge> ts_max \<or> reads_ts < wl_purged_ts l
    | Inr None \<Rightarrow> wl_purged_ts l \<le> reads_ts \<and>
        (\<forall>e \<in> set (wl_by_ts l). reads_ts < fst e \<and> fst e \<le> ts \<longrightarrow> entry_conflict ops reads e = None)
    | Inr (Some c) \<Rightarrow> wl_purged_ts l \<le> reads_ts \<and>
        (\<exists>e \<in> set (wl_by_ts l). reads_ts < fst e \<and> fst e \<le> ts \<and> entry_conflict ops reads e = Some c)"
proof (cases "ts_succ reads_ts")
  case (Inl e)
  then show ?thesis by (auto simp: wl_is_stale_def ts_succ_def succ_opt_def not_le split: if_splits)
next
  case (Inr since)
  note b = ts_succ_bounds [OF Inr]
  have "wl_purged_ts l < since \<longleftrightarrow> wl_purged_ts l \<le> reads_ts"
    using ts_succ_Inr(1) [OF Inr] by (auto simp: word_le_nat_alt word_less_nat_alt)
  then have stale: "wl_is_stale ops reads reads_ts ts l =
      (if wl_purged_ts l \<le> reads_ts
       then Inr (find_map (entry_conflict ops reads) (filter (\<lambda>e. reads_ts < fst e \<and> fst e \<le> ts) (wl_by_ts l)))
       else Inl (OutOfRetention since (wl_purged_ts l)))"
    by (simp add: wl_is_stale_def Inr wl_iter_eq [OF assms] writes_overlap_index_keys_map b)
  show ?thesis
  proof (cases "find_map (entry_conflict ops reads) (filter (\<lambda>e. reads_ts < fst e \<and> fst e \<le> ts) (wl_by_ts l))")
    case None
    then have "\<forall>e \<in> set (wl_by_ts l). reads_ts < fst e \<and> fst e \<le> ts \<longrightarrow> entry_conflict ops reads e = None"
      unfolding find_map_None_iff set_filter by blast
    with None stale show ?thesis by (simp add: not_le)
  next
    case (Some c)
    then show ?thesis using stale find_map_Some [OF Some] by (simp add: not_le Bex_def conj_ac)
  qed
qed

lemma wl_is_stale_ok:
  assumes "wl_wf l" "wl_purged_ts l \<le> reads_ts" "reads_ts < ts_max"
  shows "is_ok (wl_is_stale ops reads reads_ts ts l)"
  using wl_is_stale_cases [OF assms(1), where ops = ops and reads = reads and reads_ts = reads_ts and ts = ts] assms(2,3)
  by (auto simp: is_ok_def split: sum.splits)

section \<open>Waiters\<close>

definition wakes :: "(nat \<Rightarrow> bool) \<Rightarrow> timestamp \<Rightarrow> timestamp \<times> nat \<Rightarrow> bool" where
  "wakes closed ts w \<longleftrightarrow> fst w < ts \<or> closed (snd w)"

lemma notify_loop_spec:
  assumes "notify_loop closed ts ws = (ws', sent)"
  shows "mset ws' = filter_mset (\<lambda>w. \<not> wakes closed ts w) (mset ws) \<and>
    mset sent = image_mset snd (filter_mset (wakes closed ts) (mset ws))"
proof -
  have "(\<lambda>(target, channel). ts > target \<or> closed channel) = wakes closed ts"
    by (auto simp: wakes_def fun_eq_iff)
  with assms show ?thesis
    using drain_waiters_spec(1,2) [of "wakes closed ts" ws ws' sent] by (simp add: notify_loop_def)
qed

lemma notify_waiters_spec:
  assumes "notify_waiters closed m = (m', sent)"
  shows "wm_log m' = wm_log m"
    and "mset (wm_waiters m') = filter_mset (\<lambda>w. \<not> wakes closed (wl_max_ts (wm_log m)) w) (mset (wm_waiters m))"
    and "mset sent = image_mset snd (filter_mset (wakes closed (wl_max_ts (wm_log m))) (mset (wm_waiters m)))"
proof -
  obtain ws out where loop: "notify_loop closed (wl_max_ts (wm_log m)) (wm_waiters m) = (ws, out)"
    by fastforce
  with assms have eq: "m' = m\<lparr>wm_waiters := ws\<rparr>" "sent = out" by (auto simp: notify_waiters_def)
  from notify_loop_spec [OF loop] have
    "mset ws = filter_mset (\<lambda>w. \<not> wakes closed (wl_max_ts (wm_log m)) w) (mset (wm_waiters m)) \<and>
     mset out = image_mset snd (filter_mset (wakes closed (wl_max_ts (wm_log m))) (mset (wm_waiters m)))"
    by simp
  then show "wm_log m' = wm_log m"
    "mset (wm_waiters m') = filter_mset (\<lambda>w. \<not> wakes closed (wl_max_ts (wm_log m)) w) (mset (wm_waiters m))"
    "mset sent = image_mset snd (filter_mset (wakes closed (wl_max_ts (wm_log m))) (mset (wm_waiters m)))"
    by (simp_all add: eq)
qed

section \<open>The life of a log\<close>

text \<open>
  The states a manager can reach, with the commits appended since the log was
  created or last reset.
\<close>

inductive wm_reachable :: "('d, 'v) write_log_manager \<Rightarrow> ('d, 'v) log_entry list \<Rightarrow> bool" where
  reach_new: "wm_reachable (wm_new ts) []"
| reach_append: "wm_reachable m h \<Longrightarrow> wm_append closed ts writes source m = Some (m', sent) \<Longrightarrow>
    wm_reachable m' (h @ [(ts, writes, source)])"
| reach_wait: "wm_reachable m h \<Longrightarrow> wait_for_higher_ts closed target fresh m = ((queued, m'), sent) \<Longrightarrow>
    wm_reachable m' h"
| reach_retain: "wm_reachable m h \<Longrightarrow>
    wm_reachable (enforce_retention_policy heap_size soft_max min_retention max_retention ts m) h"
| reach_reset: "wm_reachable m h \<Longrightarrow> wm_reset ts m = (m', sent) \<Longrightarrow> wm_reachable m' []"

definition log_shows :: "('d, 'v) log_entry list \<Rightarrow> ('d, 'v) write_log \<Rightarrow> bool" where
  "log_shows h l \<longleftrightarrow> wl_wf l \<and> wl_by_ts l = filter (\<lambda>e. wl_purged_ts l < fst e) h"

lemma wl_max_ts_ge: "wl_wf l \<Longrightarrow> e \<in> set (wl_by_ts l) \<Longrightarrow> fst e \<le> wl_max_ts l"
proof -
  assume wf: "wl_wf l" and e: "e \<in> set (wl_by_ts l)"
  then obtain es x where es: "wl_by_ts l = es @ [x]" by (cases "wl_by_ts l" rule: rev_cases) auto
  with wf e show ?thesis by (auto simp: wl_wf_def wl_max_ts_def sorted_wrt_append)
qed

lemma wl_max_ts_ge_purged: "wl_wf l \<Longrightarrow> wl_purged_ts l \<le> wl_max_ts l"
  by (auto simp: wl_wf_def wl_max_ts_def intro: less_imp_le)

lemma log_shows_append:
  assumes "log_shows h l" "wl_max_ts l < ts"
  shows "log_shows (h @ [(ts, writes, source)]) (l\<lparr>wl_by_ts := wl_by_ts l @ [(ts, writes, source)]\<rparr>)"
proof -
  from assms(1) have wf: "wl_wf l" and h: "filter (\<lambda>e. wl_purged_ts l < fst e) h = wl_by_ts l"
    by (simp_all add: log_shows_def)
  have "\<forall>e \<in> set (wl_by_ts l). fst e < ts" using wl_max_ts_ge [OF wf] assms(2) le_less_trans by blast
  moreover have "wl_purged_ts l < ts" using wl_max_ts_ge_purged [OF wf] assms(2) by simp
  ultimately show ?thesis using wf by (simp add: log_shows_def h) (simp add: wl_wf_def sorted_wrt_append)
qed

lemma retention_loop_spec:
  assumes "sorted_wrt (\<lambda>a b. fst a < fst b) es" "\<forall>e \<in> set es. purged < fst e"
    and "retention_loop heap_size soft_max max_ts target_ts es purged = l"
  shows "wl_wf l \<and> purged \<le> wl_purged_ts l \<and> wl_by_ts l = filter (\<lambda>e. wl_purged_ts l < fst e) es \<and>
    wl_max_ts l = wl_max_ts \<lparr>wl_by_ts = es, wl_purged_ts = purged\<rparr>"
  using assms
proof (induction es arbitrary: purged)
  case Nil
  then show ?case by (auto simp: wl_wf_def)
next
  case (Cons e es)
  have keep: "filter (\<lambda>x. purged < fst x) (e # es) = e # es"
    by (rule filter_True) (use Cons.prems in auto)
  show ?case
  proof (cases "fst e \<ge> max_ts \<or> fst e \<ge> target_ts \<and> heap_size (e # es) < soft_max")
    case True
    with Cons.prems(3) have "l = \<lparr>wl_by_ts = e # es, wl_purged_ts = purged\<rparr>" by (auto split: if_splits)
    with Cons.prems keep show ?thesis by (simp add: wl_wf_def)
  next
    case False
    with Cons.prems(3) have "retention_loop heap_size soft_max max_ts target_ts es (fst e) = l"
      by (auto split: if_splits)
    with Cons.IH [of "fst e"] Cons.prems have "wl_wf l \<and> fst e \<le> wl_purged_ts l \<and>
        wl_by_ts l = filter (\<lambda>x. wl_purged_ts l < fst x) es \<and>
        wl_max_ts l = wl_max_ts \<lparr>wl_by_ts = es, wl_purged_ts = fst e\<rparr>" by simp
    with Cons.prems show ?thesis by (auto simp: wl_max_ts_def)
  qed
qed

lemma enforce_retention_spec:
  assumes "log_shows h (wm_log m)"
  shows "log_shows h (wm_log (enforce_retention_policy heap_size soft_max min_retention max_retention ts m))"
    and "wl_max_ts (wm_log (enforce_retention_policy heap_size soft_max min_retention max_retention ts m)) =
      wl_max_ts (wm_log m)"
proof -
  let ?l = "wm_log (enforce_retention_policy heap_size soft_max min_retention max_retention ts m)"
  from assms have wf: "wl_wf (wm_log m)"
    and h: "wl_by_ts (wm_log m) = filter (\<lambda>e. wl_purged_ts (wm_log m) < fst e) h"
    unfolding log_shows_def by blast+
  from wf have s: "sorted_wrt (\<lambda>a b. fst a < fst b) (wl_by_ts (wm_log m))"
    "\<forall>e \<in> set (wl_by_ts (wm_log m)). wl_purged_ts (wm_log m) < fst e"
    by (simp_all add: wl_wf_def)
  obtain max_ts target_ts where "retention_loop heap_size soft_max max_ts target_ts
      (wl_by_ts (wm_log m)) (wl_purged_ts (wm_log m)) = ?l"
    by (simp add: enforce_retention_policy_def Let_def)
  note l = retention_loop_spec [OF s this]
  then have "wl_max_ts ?l = wl_max_ts \<lparr>wl_by_ts = wl_by_ts (wm_log m), wl_purged_ts = wl_purged_ts (wm_log m)\<rparr>"
    by blast
  also have "\<dots> = wl_max_ts (wm_log m)" by (simp add: wl_max_ts_def)
  finally show "wl_max_ts ?l = wl_max_ts (wm_log m)" .
  from l have le: "wl_purged_ts (wm_log m) \<le> wl_purged_ts ?l" and wf': "wl_wf ?l" by blast+
  from l have "wl_by_ts ?l = filter (\<lambda>e. wl_purged_ts ?l < fst e) (wl_by_ts (wm_log m))" by blast
  also have "\<dots> = filter (\<lambda>e. wl_purged_ts ?l < fst e) h"
    unfolding h filter_filter by (rule filter_cong) (use le in auto)
  finally show "log_shows h ?l" unfolding log_shows_def by (rule conjI [OF wf'])
qed

text \<open>Every waiter that is queued waits for a timestamp that the log has not passed.\<close>

definition wm_inv :: "('d, 'v) write_log_manager \<Rightarrow> ('d, 'v) log_entry list \<Rightarrow> bool" where
  "wm_inv m h \<longleftrightarrow> log_shows h (wm_log m) \<and> (\<forall>w \<in> set (wm_waiters m). wl_max_ts (wm_log m) \<le> fst w)"

lemma notify_waiters_keeps:
  assumes "notify_waiters closed m = (m', sent)" "w \<in> set (wm_waiters m')"
  shows "wl_max_ts (wm_log m) \<le> fst w"
proof -
  from assms(2) have "w \<in># mset (wm_waiters m')" by simp
  then show ?thesis
    unfolding notify_waiters_spec(2) [OF assms(1)] by (auto simp: wakes_def not_less)
qed

lemma wm_inv_append:
  assumes "wm_inv m h" "wm_append closed ts writes source m = Some (m', sent)"
  shows "wm_inv m' (h @ [(ts, writes, source)])"
proof -
  from assms(2) have lt: "wl_max_ts (wm_log m) < ts"
    and n: "notify_waiters closed (m\<lparr>wm_log := (wm_log m)\<lparr>wl_by_ts := wl_by_ts (wm_log m) @ [(ts, writes, source)]\<rparr>\<rparr>) = (m', sent)"
    by (auto simp: wm_append_def split: if_splits)
  show ?thesis
    using notify_waiters_keeps [OF n] notify_waiters_spec(1) [OF n] log_shows_append [OF _ lt] assms(1)
    by (simp add: wm_inv_def)
qed

lemma wm_inv_wait:
  assumes "wm_inv m h" "wait_for_higher_ts closed target fresh m = ((queued, m'), sent)"
  shows "wm_inv m' h"
proof -
  obtain m1 out where n: "notify_waiters closed m = (m1, out)" by fastforce
  show ?thesis
    using assms notify_waiters_keeps [OF n] notify_waiters_spec(1) [OF n] n
    by (auto simp: wm_inv_def wait_for_higher_ts_def split: if_splits)
qed

lemma wm_reachable_inv: "wm_reachable m h \<Longrightarrow> wm_inv m h"
proof (induction rule: wm_reachable.induct)
  case (reach_new ts)
  then show ?case by (simp add: wm_inv_def wm_new_def wl_new_def log_shows_def wl_wf_def)
next
  case (reach_retain m h heap_size soft_max min_retention max_retention ts)
  have "wm_waiters (enforce_retention_policy heap_size soft_max min_retention max_retention ts m) = wm_waiters m"
    by (simp add: enforce_retention_policy_def Let_def)
  with reach_retain.IH enforce_retention_spec [of h m] show ?case by (simp add: wm_inv_def)
next
  case (reach_reset m h ts m' sent)
  from reach_reset.hyps(2) show ?case
    by (auto simp: wm_inv_def wm_reset_def notify_all_waiters_def wl_new_def log_shows_def wl_wf_def)
qed (use wm_inv_append wm_inv_wait in blast)+

text \<open>What a staleness check of a reachable log says of the whole history.\<close>

lemma stale_history:
  assumes "wm_reachable m h"
  shows "case wl_is_stale ops reads reads_ts ts (wm_log m) of
      Inl _ \<Rightarrow> reads_ts \<ge> ts_max \<or> reads_ts < wl_purged_ts (wm_log m)
    | Inr None \<Rightarrow> \<forall>e \<in> set h. reads_ts < fst e \<and> fst e \<le> ts \<longrightarrow> entry_conflict ops reads e = None
    | Inr (Some c) \<Rightarrow> \<exists>e \<in> set h. reads_ts < fst e \<and> fst e \<le> ts \<and> entry_conflict ops reads e = Some c"
proof -
  let ?l = "wm_log m"
  from wm_reachable_inv [OF assms] have wf: "wl_wf ?l" and h: "set (wl_by_ts ?l) = {e \<in> set h. wl_purged_ts ?l < fst e}"
    unfolding wm_inv_def log_shows_def by (blast, metis set_filter)
  note stale = wl_is_stale_cases [OF wf, where ops = ops and reads = reads and reads_ts = reads_ts and ts = ts]
  show ?thesis
  proof (cases "wl_is_stale ops reads reads_ts ts ?l")
    case (Inl e)
    with stale show ?thesis by simp
  next
    case (Inr r)
    with stale have purged: "wl_purged_ts ?l \<le> reads_ts" by (simp split: option.splits)
    with Inr stale show ?thesis unfolding h
      by (cases r) (simp_all add: Ball_def Bex_def, (meson le_less_trans)+)
  qed
qed

lemma entry_conflict_ts: "entry_conflict ops reads e = Some c \<Longrightarrow> cw_write_ts c = fst e"
  by (auto simp: entry_conflict_def writes_overlap_index_keys_def with_write_source_def case_prod_unfold
      split: option.splits dest!: find_map_Some)

text \<open>The conflict of a read set with writes of full documents.\<close>

definition writes_conflict :: "('d, 's, 'v) doc_ops \<Rightarrow> 's read_set \<Rightarrow> 'd ordered_document_writes \<Rightarrow> bool" where
  "writes_conflict ops reads ws \<longleftrightarrow>
     (\<exists>(_, u) \<in> set ws. \<exists>d. (pu_new u = Some d \<or> pu_old u = Some d) \<and> reads_document ops reads d)"

lemma writes_overlap_docs_conflict:
  assumes "read_set_wf reads"
  shows "writes_overlap_docs ops reads us = None \<longleftrightarrow> (\<forall>(_, ws, _) \<in> set us. \<not> writes_conflict ops reads ws)"
  unfolding writes_overlap_docs_iff [OF assms] writes_conflict_def by (simp add: case_prod_unfold) blast

lemma set_writes_iter:
  "set (writes_iter since until p) = {(ts, w, source). \<exists>n. (ts, w, source, n) \<in> set p \<and> since \<le> ts \<and> ts \<le> until}"
  by (force simp: writes_iter_def bt_range_def)

lemma writes_iter_conflict:
  assumes "read_set_wf reads"
  shows "writes_overlap_docs ops reads (writes_iter since until p) = None \<longleftrightarrow>
    (\<forall>(ts, ws, _) \<in> set p. since \<le> ts \<and> ts \<le> until \<longrightarrow> \<not> writes_conflict ops reads ws)"
  unfolding writes_overlap_docs_conflict [OF assms] set_writes_iter by (simp add: case_prod_unfold) fastforce

lemma commit_has_conflict_iff:
  assumes log: "wl_wf l" and reads: "read_set_wf reads"
  shows "commit_has_conflict ops reads reads_ts commit_ts l pending prepared = Inr None \<longleftrightarrow>
    wl_purged_ts l \<le> reads_ts \<and> reads_ts < ts_max \<and>
    (\<forall>e \<in> set (wl_by_ts l). reads_ts < fst e \<and> fst e \<le> commit_ts \<longrightarrow> entry_conflict ops reads e = None) \<and>
    (\<forall>(ts, ws, _) \<in> set pending. ts \<le> commit_ts \<longrightarrow> \<not> writes_conflict ops reads ws) \<and>
    (\<forall>(ts, ws, _) \<in> set prepared. reads_ts < ts \<and> ts \<le> commit_ts \<longrightarrow> \<not> writes_conflict ops reads ws)"
proof (cases "ts_succ reads_ts")
  case (Inl e)
  then have "\<not> reads_ts < ts_max" by (auto simp: ts_succ_ok)
  with Inl show ?thesis by (simp add: commit_has_conflict_def wl_is_stale_def)
next
  case (Inr since)
  then have max: "reads_ts < ts_max" by (auto simp: ts_succ_def succ_opt_def not_le split: if_splits)
  note stale = wl_is_stale_cases [OF log, where ops = ops and reads = reads and reads_ts = reads_ts and ts = commit_ts]
  have pend: "pending_is_stale ops reads reads_ts commit_ts pending = Inr None \<longleftrightarrow>
      (\<forall>(ts, ws, _) \<in> set pending. ts \<le> commit_ts \<longrightarrow> \<not> writes_conflict ops reads ws)"
    by (simp add: pending_is_stale_def writes_iter_conflict [OF reads] ts_min_def)
  have prep: "prepared_is_stale ops reads reads_ts commit_ts prepared = Inr None \<longleftrightarrow>
      (\<forall>(ts, ws, _) \<in> set prepared. reads_ts < ts \<and> ts \<le> commit_ts \<longrightarrow> \<not> writes_conflict ops reads ws)"
    by (simp add: prepared_is_stale_def Inr writes_iter_conflict [OF reads] ts_succ_bounds [OF Inr])
  have "commit_has_conflict ops reads reads_ts commit_ts l pending prepared = Inr None \<longleftrightarrow>
      wl_is_stale ops reads reads_ts commit_ts l = Inr None \<and>
      pending_is_stale ops reads reads_ts commit_ts pending = Inr None \<and>
      prepared_is_stale ops reads reads_ts commit_ts prepared = Inr None"
    by (auto simp: commit_has_conflict_def pending_is_stale_def split: sum.splits option.splits)
  moreover have "wl_is_stale ops reads reads_ts commit_ts l = Inr None \<longleftrightarrow> wl_purged_ts l \<le> reads_ts \<and>
      (\<forall>e \<in> set (wl_by_ts l). reads_ts < fst e \<and> fst e \<le> commit_ts \<longrightarrow> entry_conflict ops reads e = None)"
    using stale max
    by (cases "wl_is_stale ops reads reads_ts commit_ts l") (fastforce split: option.splits)+
  ultimately show ?thesis using max by (simp only: pend prep simp_thms) blast
qed

definition sample_write :: "(resolved_document_id \<times> binary_key, unit) ordered_index_key_writes" where
  "sample_write = (let ident = ([1], 10001, [7]) in
     [(ident, \<lparr>ku_id = ident, ku_old = None, ku_new = Some [(([1], ''by_id''), Standard [3])]\<rparr>, None)])"

definition sample_manager :: "(resolved_document_id \<times> binary_key, unit) write_log_manager" where
  "sample_manager = fst (the (wm_append (\<lambda>_. False) 7 sample_write None (wm_new 5)))"

lemma sample_manager_reachable: "wm_reachable sample_manager [(7, sample_write, None)]"
proof -
  have "\<exists>sent. wm_append (\<lambda>_. False) 7 sample_write None (wm_new 5) = Some (sample_manager, sent)"
    by (auto simp: sample_manager_def wm_append_def wm_new_def wl_new_def wl_max_ts_def prod_eq_iff)
  then show ?thesis using reach_append [OF reach_new [of 5]] by fastforce
qed

lemma sample_conflict: "entry_conflict sample_ops sample_reads (7, sample_write, None) \<noteq> None"
  by code_simp

lemma sample_manager_log: "wm_log sample_manager = \<lparr>wl_by_ts = [(7, sample_write, None)], wl_purged_ts = 5\<rparr>"
  by (simp add: sample_manager_def wm_append_def wm_new_def wl_new_def wl_max_ts_def notify_waiters_def
      case_prod_unfold Let_def)

section \<open>Properties\<close>

text \<open>
  C15. The write log never misses a conflict.  In every state that the log can
  reach, a staleness check that finds no conflict is right about every commit
  appended since the log was created or reset, also about those the retention
  policy has forgotten; a conflict it reports is the conflict of one of them; and
  it refuses to answer only for reads older than the retained window.
\<close>
theorem write_log_never_misses:
  assumes "wm_reachable m h"
  shows "case wl_is_stale ops reads reads_ts ts (wm_log m) of
      Inl _ \<Rightarrow> reads_ts \<ge> ts_max \<or> reads_ts < wl_purged_ts (wm_log m)
    | Inr None \<Rightarrow> \<forall>e \<in> set h. reads_ts < fst e \<and> fst e \<le> ts \<longrightarrow> entry_conflict ops reads e = None
    | Inr (Some c) \<Rightarrow> \<exists>e \<in> set h. reads_ts < fst e \<and> fst e \<le> ts \<and> entry_conflict ops reads e = Some c"
  by (rule stale_history [OF assms])

theorem write_log_never_misses_witness:
  "\<exists>c. wl_is_stale sample_ops sample_reads 5 9 (wm_log sample_manager) = Inr (Some c)"
  using write_log_never_misses [OF sample_manager_reachable, where ops = sample_ops and reads = sample_reads and reads_ts = 5 and ts = 9] sample_conflict
  by (auto simp: sample_manager_log ts_max_def split: sum.splits option.splits)



text \<open>
  C23. A refreshed token is valid.  Refreshing a token never panics.  A token that
  is refreshed to a later timestamp keeps its read set, is at that timestamp, and
  no commit after its old timestamp and up to the new one conflicts with its
  reads; a refresh that is refused because of a write at some timestamp is
  refused because of a commit with that timestamp which does conflict.
\<close>
theorem refreshed_token_valid:
  assumes "wm_reachable m h" "tok_ts token \<le> ts"
  shows "case reader_refresh_token ops token ts m of
      None \<Rightarrow> False
    | Some (Inr (Inr token')) \<Rightarrow> tok_reads token' = tok_reads token \<and> tok_ts token' = ts \<and>
        (\<forall>e \<in> set h. tok_ts token < fst e \<and> fst e \<le> ts \<longrightarrow> entry_conflict ops (tok_reads token) e = None)
    | Some (Inr (Inl (Some write_ts))) \<Rightarrow>
        \<exists>e \<in> set h. fst e = write_ts \<and> tok_ts token < write_ts \<and> write_ts \<le> ts \<and>
          entry_conflict ops (tok_reads token) e \<noteq> None
    | Some (Inr (Inl None)) \<Rightarrow> tok_ts token \<ge> ts_max \<or> tok_ts token < wl_purged_ts (wm_log m)
    | Some (Inl _) \<Rightarrow> wl_max_ts (wm_log m) < ts \<or> tok_ts token \<ge> ts_max"
proof (cases "tok_ts token = ts")
  case True
  then show ?thesis by (auto simp: reader_refresh_token_def)
next
  case ne: False
  with assms(2) have lt: "tok_ts token < ts" by simp
  note stale = stale_history [OF assms(1), where ops = ops and reads = "tok_reads token" and reads_ts = "tok_ts token" and ts = ts]
  show ?thesis
  proof (cases "ts \<le> wl_max_ts (wm_log m)")
    case False
    with ne show ?thesis by (simp add: reader_refresh_token_def Let_def not_le)
  next
    case True
    with ne have r: "reader_refresh_token ops token ts m = wl_refresh_token ops token ts (wm_log m)"
      by (simp add: reader_refresh_token_def Let_def)
    show ?thesis
    proof (cases "wl_is_stale ops (tok_reads token) (tok_ts token) ts (wm_log m)")
      case (Inl e)
      then have "(\<exists>a b. e = OutOfRetention a b) \<or> tok_ts token \<ge> ts_max"
        by (auto simp: wl_is_stale_def wl_iter_def ts_succ_def succ_opt_def split: sum.splits if_splits)
      with Inl stale show ?thesis
        by (cases e) (simp_all add: r wl_refresh_token_def)
    next
      case (Inr c)
      show ?thesis
      proof (cases c)
        case None
        with Inr stale lt show ?thesis by (simp add: r wl_refresh_token_def advance_ts_def)
      next
        case (Some conflict)
        with Inr stale obtain e where "e \<in> set h" "tok_ts token < fst e" "fst e \<le> ts"
          "entry_conflict ops (tok_reads token) e = Some conflict" by auto
        moreover from this have "cw_write_ts conflict = fst e" by (simp add: entry_conflict_ts)
        ultimately show ?thesis using Inr Some by (auto simp: r wl_refresh_token_def)
      qed
    qed
  qed
qed

theorem refreshed_token_valid_witness:
  "\<exists>write_ts. reader_refresh_token sample_ops \<lparr>tok_reads = sample_reads, tok_ts = 5\<rparr> 7 sample_manager =
     Some (Inr (Inl (Some write_ts)))"
proof -
  let ?token = "\<lparr>tok_reads = sample_reads, tok_ts = 5\<rparr>"
  have "tok_ts ?token \<le> 7" by simp
  note valid = refreshed_token_valid [OF sample_manager_reachable this, where ops = sample_ops]
  show ?thesis
  proof (cases "reader_refresh_token sample_ops ?token 7 sample_manager")
    case None
    with valid show ?thesis by simp
  next
    case (Some x)
    show ?thesis
    proof (cases x)
      case (Inl e)
      with Some valid show ?thesis by (simp add: sample_manager_log wl_max_ts_def ts_max_def)
    next
      case (Inr y)
      with Some valid sample_conflict show ?thesis
        by (cases y) (auto simp: sample_manager_log ts_max_def split: option.splits)
    qed
  qed
qed

end
