(* ===== verification/SearchReads.thy ===== *)
theory SearchReads
  imports ReadSets
begin

text \<open>
  What a transaction or a subscription has read of a text search index, from
  \<open>crates/search/src/query.rs\<close>, with the tokens of a text from
  \<open>crates/common/src/document_index_keys.rs\<close> and filter values from
  \<open>crates/common/src/query.rs\<close>.  Terms are kept twice: as a list, and in tries
  keyed by path, kind of match and token, which the checks search with the tokens
  of a document.

  The radix trees are ordered maps from tokens.  The tokenizer is the parameter
  \<open>tokenize\<close>, the hash the parameter \<open>sha256\<close>; a document is known by the text
  and by the sort key of the value at a path, the fields of \<open>search_doc\<close>.
  \<open>None\<close> is a panic.
\<close>

section \<open>Terms and conditions\<close>

datatype fuzzy_distance = DZero | DOne | DTwo

fun distance_u8 :: "fuzzy_distance \<Rightarrow> u8" where
  "distance_u8 DZero = 0"
| "distance_u8 DOne = 1"
| "distance_u8 DTwo = 2"

definition fuzzy_distance_try_from :: "u8 \<Rightarrow> anyhow_error + fuzzy_distance" where
  "fuzzy_distance_try_from v =
     (if v = 0 then Inr DZero else if v = 1 then Inr DOne else if v = 2 then Inr DTwo
      else Inl (anyhow ''Invalid distance''))"

datatype text_query_term = Exact string | Fuzzy string fuzzy_distance bool

fun fuzzy_params :: "text_query_term \<Rightarrow> string \<times> u8 \<times> bool" where
  "fuzzy_params (Fuzzy token max_distance is_prefix) = (token, distance_u8 max_distance, is_prefix)"
| "fuzzy_params (Exact token) = (token, 0, False)"

record text_query_term_read =
  tq_field_path :: field_path
  tq_term :: text_query_term

type_synonym filter_value = "u8 list"

datatype filter_condition_read = Must field_path filter_value

definition max_filter_field_length :: nat where "max_filter_field_length = 32"
definition undefined_tag :: u8 where "undefined_tag = 0x1"

definition from_search_value :: "(u8 list \<Rightarrow> u8 list) \<Rightarrow> u8 list option \<Rightarrow> filter_value" where
  "from_search_value sha256 value =
     (let sort_key = (case value of Some key \<Rightarrow> key | None \<Rightarrow> [undefined_tag]) in
      if length sort_key < max_filter_field_length then sort_key else sha256 sort_key)"

section \<open>Tokens\<close>

type_synonym search_value_tokens = "string list"

text \<open>The prefixes of a token without the token itself: up to each character but the first.\<close>

definition proper_prefixes :: "string \<Rightarrow> string list" where
  "proper_prefixes token = map (\<lambda>i. take i token) [1..<length token]"

definition calculate_prefixes :: "search_value_tokens \<Rightarrow> string list" where
  "calculate_prefixes tokens =
     fold (\<lambda>token acc. if token \<in> set acc then acc
                       else fold List.insert (proper_prefixes token) (token # acc)) tokens []"

definition tokens_for :: "bool \<Rightarrow> search_value_tokens \<Rightarrow> string list" where
  "tokens_for is_prefix tokens = (if is_prefix then calculate_prefixes tokens else tokens)"

section \<open>Tries\<close>

type_synonym 't trie = "(string, ('t, nat) btree_map) btree_map"
type_synonym 't tries = "(bool \<times> u8, 't trie) btree_map"
type_synonym 't search_term_tries = "(field_path, 't tries) btree_map"

definition tries_extend_one ::
  "'t::linorder \<Rightarrow> text_query_term_read \<Rightarrow> 't search_term_tries \<Rightarrow> 't search_term_tries" where
  "tries_extend_one value q st =
     (let (token, max_distance, is_prefix) = fuzzy_params (tq_term q);
          tries = entry_or_default st (tq_field_path q);
          art = entry_or_default tries (is_prefix, max_distance);
          counts = entry_or_default art token;
          n = (case bt_get counts value of Some n \<Rightarrow> n | None \<Rightarrow> 0)
      in bt_insert (tq_field_path q)
           (bt_insert (is_prefix, max_distance) (bt_insert token (bt_insert value (n + 1) counts) art) tries) st)"

definition tries_extend ::
  "'t::linorder \<Rightarrow> text_query_term_read list \<Rightarrow> 't search_term_tries \<Rightarrow> 't search_term_tries" where
  "tries_extend value queries st = fold (tries_extend_one value) queries st"

definition tries_remove_one ::
  "'t::linorder \<Rightarrow> text_query_term_read \<Rightarrow> 't search_term_tries \<Rightarrow> 't search_term_tries option" where
  "tries_remove_one value q st =
     (let (token, max_distance, is_prefix) = fuzzy_params (tq_term q) in
      case bt_get st (tq_field_path q) of
        None \<Rightarrow> None
      | Some tries \<Rightarrow>
          (case bt_get tries (is_prefix, max_distance) of
             None \<Rightarrow> None
           | Some trie \<Rightarrow>
               (case bt_get trie token of
                  None \<Rightarrow> None
                | Some counts \<Rightarrow>
                    (case bt_get counts value of
                       None \<Rightarrow> None
                     | Some count \<Rightarrow>
                         if count = 0 then None
                         else let counts' = (if count - 1 = 0 then bt_remove value counts
                                             else bt_insert value (count - 1) counts);
                                  trie' = (if counts' = [] then bt_remove token trie
                                           else bt_insert token counts' trie)
                              in Some (bt_insert (tq_field_path q)
                                   (bt_insert (is_prefix, max_distance) trie' tries) st)))))"

fun tries_remove ::
  "'t::linorder \<Rightarrow> text_query_term_read list \<Rightarrow> 't search_term_tries \<Rightarrow> 't search_term_tries option" where
  "tries_remove value [] st = Some st"
| "tries_remove value (q # qs) st =
     (case tries_remove_one value q st of None \<Rightarrow> None | Some st' \<Rightarrow> tries_remove value qs st')"

text \<open>The values that \<open>matching_values\<close> passes to its callback.\<close>

definition matching_values :: "'t tries \<Rightarrow> search_value_tokens \<Rightarrow> 't list" where
  "matching_values tries tokens =
     concat (map (\<lambda>((is_prefix, _), trie).
       concat (map (\<lambda>token. case bt_get trie token of Some counts \<Rightarrow> bt_keys counts | None \<Rightarrow> [])
         (tokens_for is_prefix tokens))) tries)"

section \<open>Documents\<close>

record search_doc =
  sd_text :: "field_path \<Rightarrow> string option"
  sd_sort_key :: "field_path \<Rightarrow> u8 list option"

record search_index_key_value =
  sk_filter_values :: "(field_path, filter_value) btree_map"
  sk_search_field :: field_path
  sk_search_field_value :: "search_value_tokens option"

definition tries_overlap_document ::
  "(string \<Rightarrow> search_value_tokens) \<Rightarrow> search_doc \<Rightarrow> 't search_term_tries \<Rightarrow> bool" where
  "tries_overlap_document tokenize d st =
     list_ex (\<lambda>(path, tries). case sd_text d path of
         None \<Rightarrow> False | Some text \<Rightarrow> matching_values tries (tokenize text) \<noteq> []) st"

definition tries_overlap_key :: "search_index_key_value \<Rightarrow> 't search_term_tries \<Rightarrow> bool" where
  "tries_overlap_key v st =
     (case sk_search_field_value v of
        None \<Rightarrow> False
      | Some tokens \<Rightarrow>
          (case bt_get st (sk_search_field v) of
             None \<Rightarrow> False
           | Some tries \<Rightarrow> matching_values tries tokens \<noteq> []))"

section \<open>Query reads\<close>

record query_reads =
  qr_text_queries :: "text_query_term_read list"
  qr_filter_conditions :: "filter_condition_read list"
  qr_fuzzy_terms :: "unit search_term_tries"

definition qr_new :: "text_query_term_read list \<Rightarrow> filter_condition_read list \<Rightarrow> query_reads" where
  "qr_new queries conditions =
     \<lparr>qr_text_queries = queries, qr_filter_conditions = conditions,
      qr_fuzzy_terms = tries_extend () queries []\<rparr>"

definition qr_empty :: query_reads where
  "qr_empty = \<lparr>qr_text_queries = [], qr_filter_conditions = [], qr_fuzzy_terms = []\<rparr>"

definition qr_merge :: "query_reads \<Rightarrow> query_reads \<Rightarrow> query_reads" where
  "qr_merge r other =
     \<lparr>qr_text_queries = qr_text_queries r @ qr_text_queries other,
      qr_filter_conditions = qr_filter_conditions r @ qr_filter_conditions other,
      qr_fuzzy_terms = tries_extend () (qr_text_queries other) (qr_fuzzy_terms r)\<rparr>"

definition qr_overlaps_document ::
  "(string \<Rightarrow> search_value_tokens) \<Rightarrow> (u8 list \<Rightarrow> u8 list) \<Rightarrow> query_reads \<Rightarrow> search_doc \<Rightarrow> bool" where
  "qr_overlaps_document tokenize sha256 r d =
     (if list_ex (\<lambda>c. case c of Must path v \<Rightarrow> from_search_value sha256 (sd_sort_key d path) \<noteq> v)
           (qr_filter_conditions r) then False
      else if qr_text_queries r = [] then True
      else tries_overlap_document tokenize d (qr_fuzzy_terms r))"

definition qr_overlaps_key :: "query_reads \<Rightarrow> search_index_key_value \<Rightarrow> bool" where
  "qr_overlaps_key r v =
     (if list_ex (\<lambda>c. case c of Must path fv \<Rightarrow>
           (case bt_get (sk_filter_values v) path of None \<Rightarrow> True | Some dv \<Rightarrow> dv \<noteq> fv))
           (qr_filter_conditions r) then False
      else if qr_text_queries r = [] then True
      else tries_overlap_key v (qr_fuzzy_terms r))"

section \<open>Subscriptions\<close>

type_synonym subscriber_id = nat

record text_search_subscriptions =
  ts_fuzzy_searches :: "(tablet_index_name, subscriber_id search_term_tries) btree_map"
  ts_filter_conditions :: "(tablet_index_name, (subscriber_id, filter_condition_read list) btree_map) btree_map"

definition tss_new :: text_search_subscriptions where
  "tss_new = \<lparr>ts_fuzzy_searches = [], ts_filter_conditions = []\<rparr>"

definition tss_insert ::
  "subscriber_id \<Rightarrow> tablet_index_name \<Rightarrow> query_reads \<Rightarrow> text_search_subscriptions \<Rightarrow> text_search_subscriptions" where
  "tss_insert sub index reads t =
     (let conditions = entry_or_default (ts_filter_conditions t) index;
          existing = (case bt_get conditions sub of Some cs \<Rightarrow> cs | None \<Rightarrow> [])
      in t\<lparr>ts_filter_conditions :=
             bt_insert index (bt_insert sub (existing @ qr_filter_conditions reads) conditions)
               (ts_filter_conditions t),
           ts_fuzzy_searches :=
             bt_insert index (tries_extend sub (qr_text_queries reads) (entry_or_default (ts_fuzzy_searches t) index))
               (ts_fuzzy_searches t)\<rparr>)"

definition tss_remove ::
  "subscriber_id \<Rightarrow> tablet_index_name \<Rightarrow> query_reads \<Rightarrow> text_search_subscriptions \<Rightarrow>
   text_search_subscriptions option" where
  "tss_remove sub index reads t =
     (case bt_get (ts_filter_conditions t) index of
        None \<Rightarrow> None
      | Some conditions \<Rightarrow>
          if bt_get conditions sub = None then None
          else let conditions' = bt_remove sub conditions;
                   filters = (if conditions' = [] then bt_remove index (ts_filter_conditions t)
                              else bt_insert index conditions' (ts_filter_conditions t))
               in case bt_get (ts_fuzzy_searches t) index of
                    None \<Rightarrow> None
                  | Some terms \<Rightarrow>
                      map_option (\<lambda>terms'. \<lparr>ts_fuzzy_searches = bt_insert index terms' (ts_fuzzy_searches t),
                                            ts_filter_conditions = filters\<rparr>)
                        (tries_remove sub (qr_text_queries reads) terms))"

text \<open>The subscribers that \<open>add_matches\<close> notifies.\<close>

definition condition_hits ::
  "search_index_key_value \<Rightarrow> subscriber_id \<Rightarrow> filter_condition_read list \<Rightarrow> subscriber_id list" where
  "condition_hits v sub conditions =
     concat (map (\<lambda>c. case c of Must path fv \<Rightarrow>
       (case bt_get (sk_filter_values v) path of
          None \<Rightarrow> [] | Some dv \<Rightarrow> if dv = fv then [sub] else [])) conditions)"

definition index_filter_matches ::
  "resolved_document_id \<Rightarrow> search_index_key_value document_index_keys \<Rightarrow> tablet_index_name \<Rightarrow>
   (subscriber_id, filter_condition_read list) btree_map \<Rightarrow> subscriber_id list" where
  "index_filter_matches ident keys index subs =
     (if fst index \<noteq> fst ident then []
      else case search_key keys index of
             None \<Rightarrow> []
           | Some v \<Rightarrow> concat (map (\<lambda>(sub, conditions). condition_hits v sub conditions) subs))"

definition filter_conditions_matches ::
  "resolved_document_id \<Rightarrow> search_index_key_value document_index_keys \<Rightarrow>
   text_search_subscriptions \<Rightarrow> subscriber_id list" where
  "filter_conditions_matches ident keys t =
     concat (map (\<lambda>(index, subs). index_filter_matches ident keys index subs) (ts_filter_conditions t))"

definition index_fuzzy_matches ::
  "resolved_document_id \<Rightarrow> search_index_key_value document_index_keys \<Rightarrow> tablet_index_name \<Rightarrow>
   subscriber_id search_term_tries \<Rightarrow> subscriber_id list" where
  "index_fuzzy_matches ident keys index terms =
     (if fst index \<noteq> fst ident then []
      else case search_key keys index of
             None \<Rightarrow> []
           | Some v \<Rightarrow>
               (case sk_search_field_value v of
                  None \<Rightarrow> []
                | Some tokens \<Rightarrow>
                    (case bt_get terms (sk_search_field v) of
                       None \<Rightarrow> []
                     | Some tries \<Rightarrow> matching_values tries tokens)))"

definition fuzzy_matches ::
  "resolved_document_id \<Rightarrow> search_index_key_value document_index_keys \<Rightarrow>
   text_search_subscriptions \<Rightarrow> subscriber_id list" where
  "fuzzy_matches ident keys t =
     concat (map (\<lambda>(index, terms). index_fuzzy_matches ident keys index terms) (ts_fuzzy_searches t))"

definition add_matches ::
  "resolved_document_id \<Rightarrow> search_index_key_value document_index_keys \<Rightarrow>
   text_search_subscriptions \<Rightarrow> subscriber_id list" where
  "add_matches ident keys t = filter_conditions_matches ident keys t @ fuzzy_matches ident keys t"

section \<open>Counts in the tries\<close>

definition tr_count :: "'t search_term_tries \<Rightarrow> field_path \<Rightarrow> bool \<times> u8 \<Rightarrow> string \<Rightarrow> 't \<Rightarrow> nat" where
  "tr_count st path kind token v =
     (case bt_get (entry_or_default (entry_or_default (entry_or_default st path) kind) token) v of
        Some n \<Rightarrow> n | None \<Rightarrow> 0)"

definition tries_wf :: "'t::linorder search_term_tries \<Rightarrow> bool" where
  "tries_wf st \<longleftrightarrow> bt_wf st \<and> (\<forall>p. bt_wf (entry_or_default st p)) \<and>
     (\<forall>p k. bt_wf (entry_or_default (entry_or_default st p) k)) \<and>
     (\<forall>p k t. bt_wf (entry_or_default (entry_or_default (entry_or_default st p) k) t)) \<and>
     (\<forall>p k t v. bt_get (entry_or_default (entry_or_default (entry_or_default st p) k) t) v \<noteq> Some 0)"

lemma entry_or_default_insert [simp]:
  "bt_wf m \<Longrightarrow> entry_or_default (bt_insert k x m) k' = (if k' = k then x else entry_or_default m k')"
  by (simp add: entry_or_default_def bt_get_insert)

lemma entry_or_default_remove [simp]:
  "entry_or_default (bt_remove k m) k' = (if k' = k then [] else entry_or_default m k')"
  by (simp add: entry_or_default_def bt_get_remove)

lemma entry_or_default_Nil [simp]: "entry_or_default [] k = []"
  by (simp add: entry_or_default_def)

lemma tries_wf_Nil [simp]: "tries_wf []"
  by (simp add: tries_wf_def)

lemma tries_wfD:
  assumes "tries_wf st"
  shows "bt_wf st" "bt_wf (entry_or_default st p)" "bt_wf (entry_or_default (entry_or_default st p) k)"
    "bt_wf (entry_or_default (entry_or_default (entry_or_default st p) k) t)"
    "bt_get (entry_or_default (entry_or_default (entry_or_default st p) k) t) v \<noteq> Some 0"
  using assms unfolding tries_wf_def by blast+

text \<open>Where a term is counted: its path, its kind of match, its token.\<close>

definition term_kind :: "text_query_term_read \<Rightarrow> bool \<times> u8" where
  "term_kind q = (let (_, max_distance, is_prefix) = fuzzy_params (tq_term q) in (is_prefix, max_distance))"

definition term_token :: "text_query_term_read \<Rightarrow> string" where
  "term_token q = fst (fuzzy_params (tq_term q))"

definition counted_at :: "text_query_term_read \<Rightarrow> field_path \<Rightarrow> bool \<times> u8 \<Rightarrow> string \<Rightarrow> bool" where
  "counted_at q path kind token \<longleftrightarrow> tq_field_path q = path \<and> term_kind q = kind \<and> term_token q = token"

lemma tries_extend_one_eq:
  "tries_extend_one v q st =
     (let tries = entry_or_default st (tq_field_path q); art = entry_or_default tries (term_kind q);
          counts = entry_or_default art (term_token q)
      in bt_insert (tq_field_path q) (bt_insert (term_kind q) (bt_insert (term_token q)
           (bt_insert v (tr_count st (tq_field_path q) (term_kind q) (term_token q) v + 1) counts) art) tries) st)"
  by (simp add: tries_extend_one_def term_kind_def term_token_def tr_count_def Let_def case_prod_unfold)

lemma tries_extend_one_spec:
  assumes wf: "tries_wf st"
  shows "tries_wf (tries_extend_one v q st)"
    and "tr_count (tries_extend_one v q st) path kind token w =
      tr_count st path kind token w + (if w = v \<and> counted_at q path kind token then 1 else 0)"
proof -
  note D = tries_wfD [OF wf]
  show "tries_wf (tries_extend_one v q st)"
    using D by (simp add: tries_extend_one_eq Let_def tries_wf_def bt_get_insert)
  show "tr_count (tries_extend_one v q st) path kind token w =
      tr_count st path kind token w + (if w = v \<and> counted_at q path kind token then 1 else 0)"
    using D by (auto simp: tries_extend_one_eq Let_def tr_count_def counted_at_def bt_get_insert)
qed

lemma tries_extend_spec:
  assumes "tries_wf st"
  shows "tries_wf (tries_extend v qs st)"
    and "tr_count (tries_extend v qs st) path kind token w =
      tr_count st path kind token w + (if w = v then length (filter (\<lambda>q. counted_at q path kind token) qs) else 0)"
proof -
  have "tries_wf (tries_extend v qs st) \<and> tr_count (tries_extend v qs st) path kind token w =
      tr_count st path kind token w + (if w = v then length (filter (\<lambda>q. counted_at q path kind token) qs) else 0)"
    using assms
  proof (induction qs arbitrary: st)
    case (Cons q qs)
    from Cons.IH [OF tries_extend_one_spec(1) [OF Cons.prems, of v q]] show ?case
      by (simp add: tries_extend_def tries_extend_one_spec(2) [OF Cons.prems])
  qed (simp add: tries_extend_def)
  then show "tries_wf (tries_extend v qs st)"
    "tr_count (tries_extend v qs st) path kind token w =
      tr_count st path kind token w + (if w = v then length (filter (\<lambda>q. counted_at q path kind token) qs) else 0)"
    by auto
qed

lemma entry_or_default_Some: "bt_get m k = Some x \<Longrightarrow> entry_or_default m k = x"
  by (simp add: entry_or_default_def)

lemma entry_or_default_ne: "bt_get (entry_or_default m k) v = Some n \<Longrightarrow> \<exists>x. bt_get m k = Some x"
  by (auto simp: entry_or_default_def split: option.splits)

lemma tries_remove_one_spec:
  assumes wf: "tries_wf st" and pos: "0 < tr_count st (tq_field_path q) (term_kind q) (term_token q) v"
  shows "\<exists>st'. tries_remove_one v q st = Some st' \<and> tries_wf st' \<and>
    (\<forall>path kind token w. tr_count st' path kind token w =
       tr_count st path kind token w - (if w = v \<and> counted_at q path kind token then 1 else 0))"
proof -
  note D = tries_wfD [OF wf]
  let ?p = "tq_field_path q" and ?k = "term_kind q" and ?t = "term_token q"
  from pos obtain n where n: "bt_get (entry_or_default (entry_or_default (entry_or_default st ?p) ?k) ?t) v = Some n" "n \<noteq> 0"
    by (auto simp: tr_count_def split: option.splits)
  then obtain counts where counts: "bt_get (entry_or_default (entry_or_default st ?p) ?k) ?t = Some counts"
    by (auto dest: entry_or_default_ne)
  then obtain trie where trie: "bt_get (entry_or_default st ?p) ?k = Some trie" by (auto dest: entry_or_default_ne)
  then obtain tries where tries: "bt_get st ?p = Some tries" by (auto dest: entry_or_default_ne)
  note eod1 = entry_or_default_Some [OF tries]
  note trie' = trie [unfolded eod1]
  note eod2 = entry_or_default_Some [OF trie']
  note counts' = counts [unfolded eod1 eod2]
  note eod = eod1 eod2 entry_or_default_Some [OF counts']
  note n = n [unfolded eod]
  have w: "bt_wf st" "bt_wf tries" "bt_wf trie" "bt_wf counts"
    using D(1) D(2) [of ?p] D(3) [of ?p ?k] D(4) [of ?p ?k ?t] by (simp_all add: eod)
  define c where "c = (if n - 1 = 0 then bt_remove v counts else bt_insert v (n - 1) counts)"
  define tr where "tr = (if c = [] then bt_remove ?t trie else bt_insert ?t c trie)"
  let ?st = "bt_insert ?p (bt_insert ?k tr tries) st"
  have rem: "tries_remove_one v q st = Some ?st"
    using tries trie' counts' n
    by (simp add: tries_remove_one_def Let_def term_kind_def term_token_def case_prod_unfold c_def tr_def)
  have cw: "bt_wf c" and trw: "bt_wf tr" using w by (simp_all add: c_def tr_def)
  have ctr: "entry_or_default tr t = (if t = ?t then c else entry_or_default trie t)" for t
    using w(3) by (auto simp: tr_def)
  have st: "entry_or_default (entry_or_default (entry_or_default ?st p) k) t =
      (if p = ?p \<and> k = ?k \<and> t = ?t then c else entry_or_default (entry_or_default (entry_or_default st p) k) t)" for p k t
    using w by (simp add: ctr eod)
  have getc: "bt_get c x = (if x = v then (if n = 1 then None else Some (n - 1)) else bt_get counts x)" for x
    using w(4) n(2) by (auto simp: c_def bt_get_remove bt_get_insert)
  have "tries_wf ?st"
    using D(2-4) w cw trw D(5) [of ?p ?k ?t, unfolded eod] D(5) D(3) [of ?p, unfolded eod1] n(2)
    unfolding tries_wf_def st by (auto simp: getc)
  moreover have "tr_count ?st path kind token x =
      tr_count st path kind token x - (if x = v \<and> counted_at q path kind token then 1 else 0)" for path kind token x
    unfolding tr_count_def st using n by (auto simp: getc counted_at_def eod split: option.split)
  ultimately show ?thesis using rem by blast
qed

lemma in_matching_values:
  assumes "tries_wf st"
  shows "v \<in> set (matching_values (entry_or_default st path) tokens) \<longleftrightarrow>
    (\<exists>kind token. token \<in> set (tokens_for (fst kind) tokens) \<and> 0 < tr_count st path kind token v)"
proof -
  note D = tries_wfD [OF assms]
  let ?tries = "entry_or_default st path"
  have one: "v \<in> set (case bt_get trie token of Some counts \<Rightarrow> bt_keys counts | None \<Rightarrow> []) \<longleftrightarrow>
      0 < tr_count st path kind token v" if "bt_get ?tries kind = Some trie" for kind trie token
  proof (cases "bt_get trie token")
    case None
    then show ?thesis
      by (simp add: tr_count_def entry_or_default_Some [OF that] entry_or_default_def [of trie])
  next
    case (Some counts)
    have "bt_get counts v \<noteq> Some 0"
      using D(5) [of path kind token v] by (simp add: entry_or_default_Some [OF that] entry_or_default_Some [OF Some])
    then show ?thesis using bt_get_None_iff [of counts v]
      by (cases "bt_get counts v") (simp_all add: Some tr_count_def entry_or_default_Some [OF that] entry_or_default_Some [OF Some])
  qed
  have present: "\<exists>trie. bt_get ?tries kind = Some trie" if "0 < tr_count st path kind token v" for kind token
    using that by (auto simp: tr_count_def entry_or_default_def [of ?tries] split: option.splits)
  have "v \<in> set (matching_values ?tries tokens) \<longleftrightarrow> (\<exists>x \<in> set ?tries. \<exists>token \<in> set (tokens_for (fst (fst x)) tokens).
      v \<in> set (case bt_get (snd x) token of Some counts \<Rightarrow> bt_keys counts | None \<Rightarrow> []))"
    by (simp add: matching_values_def case_prod_unfold)
  also have "\<dots> \<longleftrightarrow> (\<exists>kind trie token. (kind, trie) \<in> set ?tries \<and>
      token \<in> set (tokens_for (fst kind) tokens) \<and>
      v \<in> set (case bt_get trie token of Some counts \<Rightarrow> bt_keys counts | None \<Rightarrow> []))"
    unfolding Bex_def split_paired_Ex fst_conv snd_conv by blast
  also have "\<dots> \<longleftrightarrow> (\<exists>kind token. token \<in> set (tokens_for (fst kind) tokens) \<and> 0 < tr_count st path kind token v)"
    unfolding bt_get_Some_iff [OF D(2), symmetric] using one present by blast
  finally show ?thesis .
qed

section \<open>What a term matches\<close>

definition term_matches :: "text_query_term_read \<Rightarrow> search_value_tokens \<Rightarrow> bool" where
  "term_matches q tokens \<longleftrightarrow>
     (if fst (term_kind q)
      then \<exists>t \<in> set tokens. term_token q = t \<or> term_token q \<noteq> [] \<and> prefix (term_token q) t
      else term_token q \<in> set tokens)"

lemma set_proper_prefixes: "set (proper_prefixes t) = {p. p \<noteq> [] \<and> strict_prefix p t}"
proof (intro set_eqI iffI)
  fix p assume "p \<in> set (proper_prefixes t)"
  then obtain i where "1 \<le> i" "i < length t" "p = take i t" by (auto simp: proper_prefixes_def)
  then show "p \<in> {p. p \<noteq> [] \<and> strict_prefix p t}"
    by (auto simp: strict_prefix_def take_is_prefix)
next
  fix p assume "p \<in> {p. p \<noteq> [] \<and> strict_prefix p t}"
  then have "p = take (length p) t" "1 \<le> length p" "length p < length t"
    by (auto simp: strict_prefix_def prefix_def Suc_le_eq)
  then show "p \<in> set (proper_prefixes t)" by (force simp: proper_prefixes_def)
qed

lemma set_fold_insert: "set (fold List.insert xs ys) = set xs \<union> set ys"
  by (induction xs arbitrary: ys) auto

lemma set_calculate_prefixes:
  "set (calculate_prefixes tokens) = (\<Union>t \<in> set tokens. insert t {p. p \<noteq> [] \<and> strict_prefix p t})"
proof -
  let ?f = "\<lambda>token acc. if token \<in> set acc then acc else fold List.insert (proper_prefixes token) (token # acc)"
  have "set (fold ?f tokens acc) = set acc \<union> (\<Union>t \<in> set tokens. insert t {p. p \<noteq> [] \<and> strict_prefix p t})"
    if "\<forall>x \<in> set acc. {p. p \<noteq> [] \<and> strict_prefix p x} \<subseteq> set acc" for acc
    using that
  proof (induction tokens arbitrary: acc)
    case (Cons t ts)
    have acc: "set (?f t acc) = set acc \<union> insert t {p. p \<noteq> [] \<and> strict_prefix p t}"
      using Cons.prems by (auto simp: set_fold_insert set_proper_prefixes)
    have "\<forall>x \<in> set (?f t acc). {p. p \<noteq> [] \<and> strict_prefix p x} \<subseteq> set (?f t acc)"
      unfolding acc using Cons.prems by (auto dest: prefix_order.less_trans)
    from Cons.IH [OF this] show ?case unfolding fold_simps acc by auto
  qed simp
  from this [of "[]"] show ?thesis by (simp add: calculate_prefixes_def)
qed

lemma term_matches_tokens_for: "term_matches q tokens \<longleftrightarrow> term_token q \<in> set (tokens_for (fst (term_kind q)) tokens)"
  by (auto simp: term_matches_def tokens_for_def set_calculate_prefixes strict_prefix_def)

text \<open>Tries that count the terms of a list, for one value.\<close>

lemma matching_values_counts:
  assumes "tries_wf st" "\<And>kind token. tr_count st path kind token v = length (filter (\<lambda>q. counted_at q path kind token) qs)"
  shows "v \<in> set (matching_values (entry_or_default st path) tokens) \<longleftrightarrow>
    (\<exists>q \<in> set qs. tq_field_path q = path \<and> term_matches q tokens)"
  unfolding in_matching_values [OF assms(1)] assms(2) term_matches_tokens_for
  by (fastforce simp: counted_at_def filter_empty_conv)

definition qr_wf :: "query_reads \<Rightarrow> bool" where
  "qr_wf r \<longleftrightarrow> tries_wf (qr_fuzzy_terms r) \<and>
     (\<forall>path kind token. tr_count (qr_fuzzy_terms r) path kind token () =
        length (filter (\<lambda>q. counted_at q path kind token) (qr_text_queries r)))"

lemma qr_wf_empty: "qr_wf qr_empty"
  by (simp add: qr_wf_def qr_empty_def tr_count_def)

lemma qr_wf_new: "qr_wf (qr_new queries conditions)"
  by (simp add: qr_wf_def qr_new_def tries_extend_spec) (simp add: tr_count_def)

lemma qr_wf_merge: "qr_wf r \<Longrightarrow> qr_wf (qr_merge r other)"
  by (simp add: qr_wf_def qr_merge_def tries_extend_spec)

lemma matching_values_Nil [simp]: "matching_values [] tokens = []"
  by (simp add: matching_values_def)

lemma qr_matching:
  assumes "qr_wf r"
  shows "matching_values (entry_or_default (qr_fuzzy_terms r) path) tokens \<noteq> [] \<longleftrightarrow>
    (\<exists>q \<in> set (qr_text_queries r). tq_field_path q = path \<and> term_matches q tokens)"
proof -
  have ne: "xs \<noteq> [] \<longleftrightarrow> () \<in> set xs" for xs :: "unit list" by (cases xs) auto
  from assms have wf: "tries_wf (qr_fuzzy_terms r)"
    and counts: "\<And>kind token. tr_count (qr_fuzzy_terms r) path kind token () =
      length (filter (\<lambda>q. counted_at q path kind token) (qr_text_queries r))"
    unfolding qr_wf_def by blast+
  show ?thesis unfolding ne by (rule matching_values_counts [OF wf counts])
qed

lemma tries_overlap_document_iff:
  assumes "qr_wf r"
  shows "tries_overlap_document tokenize d (qr_fuzzy_terms r) \<longleftrightarrow>
    (\<exists>q \<in> set (qr_text_queries r). \<exists>text. sd_text d (tq_field_path q) = Some text \<and> term_matches q (tokenize text))"
proof -
  let ?st = "qr_fuzzy_terms r"
  have wf: "bt_wf ?st" using assms by (simp add: qr_wf_def tries_wfD(1))
  have mem: "(path, tries) \<in> set ?st \<longleftrightarrow> bt_get ?st path = Some tries" for path tries
    by (simp add: bt_get_Some_iff [OF wf])
  have "tries_overlap_document tokenize d ?st \<longleftrightarrow>
      (\<exists>path text. sd_text d path = Some text \<and> matching_values (entry_or_default ?st path) (tokenize text) \<noteq> [])"
    unfolding tries_overlap_document_def list_ex_iff
  proof (intro iffI; elim bexE exE conjE)
    fix x assume x: "x \<in> set ?st" "case x of (path, tries) \<Rightarrow> case sd_text d path of None \<Rightarrow> False
        | Some text \<Rightarrow> matching_values tries (tokenize text) \<noteq> []"
    obtain path tries where eq: "x = (path, tries)" by fastforce
    from x [unfolded eq] obtain body where "bt_get ?st path = Some tries" "sd_text d path = Some body"
      "matching_values tries (tokenize body) \<noteq> []"
      by (simp add: mem split: option.splits)
    then show "\<exists>path text. sd_text d path = Some text \<and> matching_values (entry_or_default ?st path) (tokenize text) \<noteq> []"
      by (intro exI [of _ path] exI [of _ body]) (simp add: entry_or_default_Some)
  next
    fix path body
    assume t: "sd_text d path = Some body" and m: "matching_values (entry_or_default ?st path) (tokenize body) \<noteq> []"
    from m obtain tries where "bt_get ?st path = Some tries" "entry_or_default ?st path = tries"
      by (cases "bt_get ?st path") (auto simp: entry_or_default_def)
    with t m show "\<exists>x \<in> set ?st. case x of (path, tries) \<Rightarrow> case sd_text d path of None \<Rightarrow> False
        | Some text \<Rightarrow> matching_values tries (tokenize text) \<noteq> []"
      by (intro bexI [of _ "(path, tries)"]) (auto simp: mem)
  qed
  then show ?thesis unfolding qr_matching [OF assms] by blast
qed

lemma tries_overlap_key_iff:
  assumes "qr_wf r"
  shows "tries_overlap_key v (qr_fuzzy_terms r) \<longleftrightarrow>
    (\<exists>q \<in> set (qr_text_queries r). tq_field_path q = sk_search_field v \<and>
       (\<exists>tokens. sk_search_field_value v = Some tokens \<and> term_matches q tokens))"
proof (cases "sk_search_field_value v")
  case None
  then show ?thesis by (simp add: tries_overlap_key_def)
next
  case (Some tokens)
  have "tries_overlap_key v (qr_fuzzy_terms r) \<longleftrightarrow>
      matching_values (entry_or_default (qr_fuzzy_terms r) (sk_search_field v)) tokens \<noteq> []"
    by (simp add: tries_overlap_key_def Some entry_or_default_def split: option.split)
  then show ?thesis unfolding qr_matching [OF assms] using Some by auto
qed

section \<open>Live subscriptions\<close>

text \<open>
  What the subscriptions stand for: for a subscriber and an index, the reads it
  was inserted with.
\<close>

type_synonym live_searches = "subscriber_id \<times> tablet_index_name \<Rightarrow> query_reads option"

definition tss_rep :: "live_searches \<Rightarrow> text_search_subscriptions \<Rightarrow> bool" where
  "tss_rep live t \<longleftrightarrow> bt_wf (ts_fuzzy_searches t) \<and> bt_wf (ts_filter_conditions t) \<and>
     (\<forall>index. tries_wf (entry_or_default (ts_fuzzy_searches t) index)) \<and>
     (\<forall>index. bt_wf (entry_or_default (ts_filter_conditions t) index)) \<and>
     (\<forall>index sub. bt_get (entry_or_default (ts_filter_conditions t) index) sub =
        map_option qr_filter_conditions (live (sub, index))) \<and>
     (\<forall>index sub. live (sub, index) \<noteq> None \<longrightarrow> bt_get (ts_fuzzy_searches t) index \<noteq> None) \<and>
     (\<forall>index sub path kind token. tr_count (entry_or_default (ts_fuzzy_searches t) index) path kind token sub =
        (case live (sub, index) of None \<Rightarrow> 0
         | Some r \<Rightarrow> length (filter (\<lambda>q. counted_at q path kind token) (qr_text_queries r))))"

lemma tss_repD:
  assumes "tss_rep live t"
  shows "bt_wf (ts_fuzzy_searches t)" "bt_wf (ts_filter_conditions t)"
    "tries_wf (entry_or_default (ts_fuzzy_searches t) index)"
    "bt_wf (entry_or_default (ts_filter_conditions t) index)"
    "bt_get (entry_or_default (ts_filter_conditions t) index) sub = map_option qr_filter_conditions (live (sub, index))"
    "live (sub, index) \<noteq> None \<Longrightarrow> bt_get (ts_fuzzy_searches t) index \<noteq> None"
    "tr_count (entry_or_default (ts_fuzzy_searches t) index) path kind token sub =
       (case live (sub, index) of None \<Rightarrow> 0
        | Some r \<Rightarrow> length (filter (\<lambda>q. counted_at q path kind token) (qr_text_queries r)))"
  using assms unfolding tss_rep_def by blast+

lemma tss_rep_new: "tss_rep (\<lambda>_. None) tss_new"
  by (simp add: tss_rep_def tss_new_def tr_count_def)

lemma tss_rep_insert:
  assumes rep: "tss_rep live t" and fresh: "live (sub, index) = None"
  shows "tss_rep (live((sub, index) \<mapsto> r)) (tss_insert sub index r t)"
proof -
  note D = tss_repD [OF rep]
  have none: "bt_get (entry_or_default (ts_filter_conditions t) index) sub = None" using D(5) fresh by simp
  have fuzzy: "entry_or_default (ts_fuzzy_searches (tss_insert sub index r t)) i =
      (if i = index then tries_extend sub (qr_text_queries r) (entry_or_default (ts_fuzzy_searches t) index)
       else entry_or_default (ts_fuzzy_searches t) i)" for i
    using D(1) by (simp add: tss_insert_def Let_def)
  have filters: "entry_or_default (ts_filter_conditions (tss_insert sub index r t)) i =
      (if i = index then bt_insert sub (qr_filter_conditions r) (entry_or_default (ts_filter_conditions t) index)
       else entry_or_default (ts_filter_conditions t) i)" for i
    using D(2) none by (simp add: tss_insert_def Let_def)
  show ?thesis
    unfolding tss_rep_def fuzzy filters
  proof (intro conjI allI impI)
    fix i s assume "(live((sub, index) \<mapsto> r)) (s, i) \<noteq> None"
    then show "bt_get (ts_fuzzy_searches (tss_insert sub index r t)) i \<noteq> None"
      using D(1) D(6) [of s i] by (auto simp: tss_insert_def Let_def bt_get_insert split: if_splits)
  qed (use D(1-5) D(7) fresh in \<open>auto simp: tss_insert_def Let_def tries_extend_spec bt_get_insert\<close>)
qed

lemma tries_remove_spec:
  assumes "tries_wf st"
    and "\<And>path kind token. length (filter (\<lambda>q. counted_at q path kind token) qs) \<le> tr_count st path kind token v"
  shows "\<exists>st'. tries_remove v qs st = Some st' \<and> tries_wf st' \<and>
    (\<forall>path kind token w. tr_count st' path kind token w = tr_count st path kind token w -
       (if w = v then length (filter (\<lambda>q. counted_at q path kind token) qs) else 0))"
  using assms
proof (induction qs arbitrary: st)
  case (Cons q qs)
  have "counted_at q (tq_field_path q) (term_kind q) (term_token q)" by (simp add: counted_at_def)
  with Cons.prems(2) [of "tq_field_path q" "term_kind q" "term_token q"]
  have "0 < tr_count st (tq_field_path q) (term_kind q) (term_token q) v" by simp
  from tries_remove_one_spec [OF Cons.prems(1) this] obtain st1 where
    st1: "tries_remove_one v q st = Some st1" "tries_wf st1"
      "\<And>path kind token w. tr_count st1 path kind token w =
        tr_count st path kind token w - (if w = v \<and> counted_at q path kind token then 1 else 0)" by blast
  have "length (filter (\<lambda>q. counted_at q path kind token) qs) \<le> tr_count st1 path kind token v" for path kind token
    using Cons.prems(2) [of path kind token] by (auto simp: st1(3))
  from Cons.IH [OF st1(2) this] obtain st2 where st2: "tries_remove v qs st1 = Some st2" "tries_wf st2"
    "\<And>path kind token w. tr_count st2 path kind token w = tr_count st1 path kind token w -
       (if w = v then length (filter (\<lambda>q. counted_at q path kind token) qs) else 0)" by blast
  then show ?case by (simp add: st1)
qed simp

lemma tss_rep_remove:
  assumes rep: "tss_rep live t" and l: "live (sub, index) = Some r"
  shows "\<exists>t'. tss_remove sub index r t = Some t' \<and> tss_rep (live((sub, index) := None)) t'"
proof -
  note D = tss_repD [OF rep]
  have cond: "bt_get (entry_or_default (ts_filter_conditions t) index) sub = Some (qr_filter_conditions r)"
    using D(5) l by simp
  then obtain conditions where c: "bt_get (ts_filter_conditions t) index = Some conditions"
    by (auto dest: entry_or_default_ne)
  note eod_c = entry_or_default_Some [OF c]
  from D(6) [of sub index] l obtain terms where terms: "bt_get (ts_fuzzy_searches t) index = Some terms" by auto
  note eod_t = entry_or_default_Some [OF terms]
  have "length (filter (\<lambda>q. counted_at q path kind token) (qr_text_queries r)) \<le> tr_count terms path kind token sub"
    for path kind token using D(7) [of index path kind token sub] l by (simp add: eod_t)
  from tries_remove_spec [OF D(3) [of index, unfolded eod_t] this] obtain terms' where
    terms': "tries_remove sub (qr_text_queries r) terms = Some terms'" "tries_wf terms'"
      "\<And>path kind token w. tr_count terms' path kind token w = tr_count terms path kind token w -
        (if w = sub then length (filter (\<lambda>q. counted_at q path kind token) (qr_text_queries r)) else 0)" by blast
  let ?filters = "if bt_remove sub conditions = [] then bt_remove index (ts_filter_conditions t)
    else bt_insert index (bt_remove sub conditions) (ts_filter_conditions t)"
  let ?t = "\<lparr>ts_fuzzy_searches = bt_insert index terms' (ts_fuzzy_searches t), ts_filter_conditions = ?filters\<rparr>"
  have rem: "tss_remove sub index r t = Some ?t"
    using cond c terms terms'(1) by (simp add: tss_remove_def eod_c)
  have filters: "entry_or_default ?filters i = (if i = index then bt_remove sub conditions
      else entry_or_default (ts_filter_conditions t) i)" for i
    using D(2) by auto
  have fuzzy: "entry_or_default (ts_fuzzy_searches ?t) i = (if i = index then terms'
      else entry_or_default (ts_fuzzy_searches t) i)" for i
    using D(1) by simp
  have wfc: "bt_wf conditions" using D(4) [of index] by (simp add: eod_c)
  have getc: "bt_get conditions s = map_option qr_filter_conditions (live (s, index))" for s
    using D(5) [of index s] by (simp add: eod_c)
  have getn: "tr_count terms path kind token s = (case live (s, index) of None \<Rightarrow> 0
      | Some r \<Rightarrow> length (filter (\<lambda>q. counted_at q path kind token) (qr_text_queries r)))" for path kind token s
    using D(7) [of index path kind token s] by (simp add: eod_t)
  have "tss_rep (live((sub, index) := None)) ?t"
    unfolding tss_rep_def fuzzy
  proof (intro conjI allI impI)
    fix i s assume "(live((sub, index) := None)) (s, i) \<noteq> None"
    then show "bt_get (ts_fuzzy_searches ?t) i \<noteq> None"
      using D(1) D(6) [of s i] by (auto simp: bt_get_insert split: if_splits)
  qed (use D(1-5) D(7) wfc terms'(2,3) getc getn l filters in
      \<open>auto simp: bt_get_remove simp del: entry_or_default_insert entry_or_default_remove\<close>)
  with rem show ?thesis by blast
qed

text \<open>A subscription is hit when one of its filters or one of its terms matches.\<close>

definition filter_hit :: "query_reads \<Rightarrow> search_index_key_value \<Rightarrow> bool" where
  "filter_hit r v \<longleftrightarrow>
     (\<exists>path fv. Must path fv \<in> set (qr_filter_conditions r) \<and> bt_get (sk_filter_values v) path = Some fv)"

definition term_hit :: "query_reads \<Rightarrow> search_index_key_value \<Rightarrow> bool" where
  "term_hit r v \<longleftrightarrow>
     (\<exists>q \<in> set (qr_text_queries r). tq_field_path q = sk_search_field v \<and>
        (\<exists>tokens. sk_search_field_value v = Some tokens \<and> term_matches q tokens))"

lemma in_concat_map_pairs: "x \<in> set (concat (map (\<lambda>(a, b). f a b) m)) \<longleftrightarrow> (\<exists>a b. (a, b) \<in> set m \<and> x \<in> set (f a b))"
  by (induction m) auto

lemma in_condition_hits:
  "sub \<in> set (condition_hits v s conditions) \<longleftrightarrow>
    sub = s \<and> (\<exists>path fv. Must path fv \<in> set conditions \<and> bt_get (sk_filter_values v) path = Some fv)"
proof (induction conditions)
  case (Cons c cs)
  obtain path fv where c: "c = Must path fv" by (cases c)
  have "sub \<in> set (condition_hits v s (c # cs)) \<longleftrightarrow>
      sub = s \<and> bt_get (sk_filter_values v) path = Some fv \<or> sub \<in> set (condition_hits v s cs)"
    by (cases "bt_get (sk_filter_values v) path") (auto simp: condition_hits_def c)
  with Cons.IH show ?case by (auto simp: c)
qed (simp add: condition_hits_def)

lemma in_index_filter_matches:
  "sub \<in> set (index_filter_matches ident keys index subs) \<longleftrightarrow>
    fst index = fst ident \<and> (\<exists>v conditions. search_key keys index = Some v \<and> (sub, conditions) \<in> set subs \<and>
      (\<exists>path fv. Must path fv \<in> set conditions \<and> bt_get (sk_filter_values v) path = Some fv))"
  by (cases "search_key keys index")
    (auto simp: index_filter_matches_def in_concat_map_pairs in_condition_hits simp del: set_concat)

lemma in_filter_conditions_matches:
  assumes rep: "tss_rep live t"
  shows "sub \<in> set (filter_conditions_matches ident keys t) \<longleftrightarrow>
    (\<exists>index r v. live (sub, index) = Some r \<and> fst index = fst ident \<and> search_key keys index = Some v \<and> filter_hit r v)"
proof -
  note D = tss_repD [OF rep]
  have get: "(\<exists>subs. (index, subs) \<in> set (ts_filter_conditions t) \<and> (sub, conditions) \<in> set subs) \<longleftrightarrow>
      map_option qr_filter_conditions (live (sub, index)) = Some conditions" for index conditions
    unfolding D(5) [symmetric] bt_get_Some_iff [OF D(2), symmetric] bt_get_Some_iff [OF D(4)]
    by (cases "bt_get (ts_filter_conditions t) index") (simp_all add: entry_or_default_def)
  have "sub \<in> set (filter_conditions_matches ident keys t) \<longleftrightarrow>
      (\<exists>index v conditions. (\<exists>subs. (index, subs) \<in> set (ts_filter_conditions t) \<and> (sub, conditions) \<in> set subs) \<and>
        fst index = fst ident \<and> search_key keys index = Some v \<and>
        (\<exists>path fv. Must path fv \<in> set conditions \<and> bt_get (sk_filter_values v) path = Some fv))"
    unfolding filter_conditions_matches_def in_concat_map_pairs in_index_filter_matches by blast
  then show ?thesis unfolding get filter_hit_def by (simp only: map_option_eq_Some) blast
qed

lemma in_index_fuzzy_matches:
  assumes "tries_wf terms"
    and "\<And>path kind token. tr_count terms path kind token sub =
      (case l of None \<Rightarrow> 0 | Some r \<Rightarrow> length (filter (\<lambda>q. counted_at q path kind token) (qr_text_queries r)))"
  shows "sub \<in> set (index_fuzzy_matches ident keys index terms) \<longleftrightarrow>
    fst index = fst ident \<and> (\<exists>v r. search_key keys index = Some v \<and> l = Some r \<and> term_hit r v)"
proof -
  have match: "sub \<in> set (matching_values (entry_or_default terms path) tokens) \<longleftrightarrow>
      (\<exists>r. l = Some r \<and> (\<exists>q \<in> set (qr_text_queries r). tq_field_path q = path \<and> term_matches q tokens))" for path tokens
  proof (cases l)
    case None
    then show ?thesis by (simp add: in_matching_values [OF assms(1)] assms(2))
  next
    case (Some r)
    then show ?thesis
      using matching_values_counts [OF assms(1), of path sub "qr_text_queries r" tokens] assms(2) by simp
  qed
  have eod: "(case bt_get terms path of None \<Rightarrow> [] | Some tries \<Rightarrow> matching_values tries tokens) =
      matching_values (entry_or_default terms path) tokens" for path tokens
    by (simp add: entry_or_default_def split: option.split)
  show ?thesis
    unfolding index_fuzzy_matches_def eod term_hit_def
    by (cases "search_key keys index"; cases "sk_search_field_value (the (search_key keys index))") (auto simp: match)
qed

lemma in_fuzzy_matches:
  assumes rep: "tss_rep live t"
  shows "sub \<in> set (fuzzy_matches ident keys t) \<longleftrightarrow>
    (\<exists>index r v. live (sub, index) = Some r \<and> fst index = fst ident \<and> search_key keys index = Some v \<and> term_hit r v)"
proof -
  note D = tss_repD [OF rep]
  have one: "sub \<in> set (index_fuzzy_matches ident keys index terms) \<longleftrightarrow>
      fst index = fst ident \<and> (\<exists>v r. search_key keys index = Some v \<and> live (sub, index) = Some r \<and> term_hit r v)"
    if "bt_get (ts_fuzzy_searches t) index = Some terms" for index terms
    using in_index_fuzzy_matches [of terms sub "live (sub, index)" ident keys index] D(3) [of index] D(7) [of index]
    unfolding entry_or_default_Some [OF that] by blast
  show ?thesis
    unfolding fuzzy_matches_def in_concat_map_pairs bt_get_Some_iff [OF D(1), symmetric]
    using one D(6) [of sub] by blast
qed

lemma qr_overlaps_key_hit:
  assumes "qr_wf r" "qr_overlaps_key r v" "qr_text_queries r \<noteq> [] \<or> qr_filter_conditions r \<noteq> []"
  shows "filter_hit r v \<or> term_hit r v"
  using assms(2,3) unfolding qr_overlaps_key_def tries_overlap_key_iff [OF assms(1)] filter_hit_def term_hit_def
  by (cases "qr_filter_conditions r")
    (auto split: if_splits filter_condition_read.splits option.splits)

section \<open>Properties\<close>

text \<open>
  C24. The search of the tries is right.  The overlap check of query reads, which
  looks the tokens of a document up in the tries, finds an overlap exactly when
  every filter condition holds of the document and, if there are text terms, one
  of them matches: an exact term or a fuzzy term without prefix is a token of the
  text at its path, a prefix term is a non-empty prefix of one.  The check on the
  index keys kept in the write log gives the same answer.
\<close>
theorem search_overlap_exact:
  assumes wf: "qr_wf r"
  shows "qr_overlaps_document tokenize sha256 r d =
      ((\<forall>path fv. Must path fv \<in> set (qr_filter_conditions r) \<longrightarrow> from_search_value sha256 (sd_sort_key d path) = fv) \<and>
       (qr_text_queries r = [] \<or>
        (\<exists>q \<in> set (qr_text_queries r). \<exists>body. sd_text d (tq_field_path q) = Some body \<and> term_matches q (tokenize body)))) \<and>
    ((\<forall>path fv. Must path fv \<in> set (qr_filter_conditions r) \<longrightarrow>
         bt_get (sk_filter_values v) path = Some (from_search_value sha256 (sd_sort_key d path))) \<and>
       (\<forall>q \<in> set (qr_text_queries r). tq_field_path q = sk_search_field v) \<and>
       sk_search_field_value v = map_option tokenize (sd_text d (sk_search_field v)) \<longrightarrow>
     qr_overlaps_key r v = qr_overlaps_document tokenize sha256 r d)"
proof -
  have conditions: "list_ex (\<lambda>c. case c of Must path fv \<Rightarrow> P path fv) cs \<longleftrightarrow> (\<exists>path fv. Must path fv \<in> set cs \<and> P path fv)"
    for P cs by (induction cs) (auto split: filter_condition_read.splits)
  have doc: "qr_overlaps_document tokenize sha256 r d =
      ((\<forall>path fv. Must path fv \<in> set (qr_filter_conditions r) \<longrightarrow> from_search_value sha256 (sd_sort_key d path) = fv) \<and>
       (qr_text_queries r = [] \<or>
        (\<exists>q \<in> set (qr_text_queries r). \<exists>body. sd_text d (tq_field_path q) = Some body \<and> term_matches q (tokenize body))))"
    unfolding qr_overlaps_document_def conditions tries_overlap_document_iff [OF wf] by auto
  have key: "qr_overlaps_key r v =
      ((\<forall>path fv. Must path fv \<in> set (qr_filter_conditions r) \<longrightarrow> bt_get (sk_filter_values v) path = Some fv) \<and>
       (qr_text_queries r = [] \<or>
        (\<exists>q \<in> set (qr_text_queries r). tq_field_path q = sk_search_field v \<and>
          (\<exists>tokens. sk_search_field_value v = Some tokens \<and> term_matches q tokens))))"
    unfolding qr_overlaps_key_def conditions tries_overlap_key_iff [OF wf] by (auto split: option.splits)
  show ?thesis unfolding doc key by (intro conjI impI refl) (auto; metis option.inject)
qed

definition sample_term :: text_query_term_read where
  "sample_term = \<lparr>tq_field_path = [''body''], tq_term = Fuzzy ''ca'' DZero True\<rparr>"

definition sample_doc :: search_doc where
  "sample_doc = \<lparr>sd_text = (\<lambda>_. Some ''cat''), sd_sort_key = (\<lambda>_. Some [7])\<rparr>"

theorem search_overlap_exact_witness:
  "qr_overlaps_document (\<lambda>body. [body]) id (qr_new [sample_term] [Must [''kind''] [7]]) sample_doc"
  using search_overlap_exact [OF qr_wf_new, of "\<lambda>body. [body]" id "[sample_term]" "[Must [''kind''] [7]]" sample_doc]
  by (simp add: qr_new_def sample_term_def sample_doc_def term_matches_def term_kind_def term_token_def
      from_search_value_def max_filter_field_length_def)

text \<open>
  C38. Two searches of one index can hide each other.  A transaction that searches
  one index twice, with filters that ask for different values of one field, keeps
  a search read that no document overlaps: the filters of the two searches are
  appended and must all hold.  So no write conflicts with either search.
\<close>
theorem merged_searches_hide_conflicts:
  assumes "Must path a \<in> set (qr_filter_conditions r1)" "Must path b \<in> set (qr_filter_conditions r2)" "a \<noteq> b"
  shows "\<exists>s. bt_get (rs_search (record_search qr_empty qr_merge name r2
      (record_search qr_empty qr_merge name r1 rs_empty))) name = Some s \<and>
    \<not> qr_overlaps_document tokenize sha256 s d"
proof -
  let ?s = "qr_merge (qr_merge qr_empty r1) r2"
  have mem: "Must path a \<in> set (qr_filter_conditions ?s)" "Must path b \<in> set (qr_filter_conditions ?s)"
    using assms by (simp_all add: qr_merge_def)
  from assms(3) consider "from_search_value sha256 (sd_sort_key d path) \<noteq> a" | "from_search_value sha256 (sd_sort_key d path) \<noteq> b"
    by auto
  then have "list_ex (\<lambda>c. case c of Must path v \<Rightarrow> from_search_value sha256 (sd_sort_key d path) \<noteq> v) (qr_filter_conditions ?s)"
    unfolding list_ex_iff
  proof cases
    case 1
    with mem(1) show "\<exists>c \<in> set (qr_filter_conditions ?s). case c of Must path v \<Rightarrow> from_search_value sha256 (sd_sort_key d path) \<noteq> v"
      by (intro bexI [of _ "Must path a"]) simp_all
  next
    case 2
    with mem(2) show "\<exists>c \<in> set (qr_filter_conditions ?s). case c of Must path v \<Rightarrow> from_search_value sha256 (sd_sort_key d path) \<noteq> v"
      by (intro bexI [of _ "Must path b"]) simp_all
  qed
  then have "\<not> qr_overlaps_document tokenize sha256 ?s d" by (simp add: qr_overlaps_document_def)
  then show ?thesis by (simp add: record_search_def rs_empty_def bt_get_def)
qed

theorem merged_searches_hide_conflicts_witness:
  "let r1 = qr_new [] [Must [''kind''] [7]]; r2 = qr_new [] [Must [''kind''] [8]] in
    qr_overlaps_document (\<lambda>body. [body]) id r1 sample_doc \<and>
    (\<exists>s. bt_get (rs_search (record_search qr_empty qr_merge ([1], ''by_body'') r2
       (record_search qr_empty qr_merge ([1], ''by_body'') r1 rs_empty))) ([1], ''by_body'') = Some s \<and>
     \<not> qr_overlaps_document (\<lambda>body. [body]) id s sample_doc)"
  unfolding Let_def
  by (rule conjI [OF _ merged_searches_hide_conflicts [of "[''kind'']" "[7]" _ "[8]"]])
    (simp_all add: qr_new_def qr_overlaps_document_def sample_doc_def from_search_value_def max_filter_field_length_def)

text \<open>
  C25. Search subscriptions are notified.  Inserting a subscription that is not
  there and removing one that is never panic and keep the tries and the filters
  in step with the live subscriptions; a written document notifies exactly the
  subscribers that have, for an index of its table, a filter or a term that
  matches its index keys, and so every one whose reads overlap them.
\<close>
theorem search_subscriptions_notified:
  assumes rep: "tss_rep live t"
  shows "(live (sub, index) = None \<longrightarrow> tss_rep (live((sub, index) \<mapsto> r)) (tss_insert sub index r t)) \<and>
    (live (sub, index) = Some r \<longrightarrow>
       (\<exists>t'. tss_remove sub index r t = Some t' \<and> tss_rep (live((sub, index) := None)) t')) \<and>
    (sub \<in> set (add_matches ident keys t)) =
      (\<exists>i r v. live (sub, i) = Some r \<and> fst i = fst ident \<and> search_key keys i = Some v \<and>
         (filter_hit r v \<or> term_hit r v)) \<and>
    (live (sub, index) = Some r \<and> qr_wf r \<and> fst index = fst ident \<and> search_key keys index = Some v \<and>
     qr_overlaps_key r v \<and> (qr_text_queries r \<noteq> [] \<or> qr_filter_conditions r \<noteq> []) \<longrightarrow>
     sub \<in> set (add_matches ident keys t))"
proof -
  have hits: "sub \<in> set (add_matches ident keys t) \<longleftrightarrow>
      (\<exists>i r v. live (sub, i) = Some r \<and> fst i = fst ident \<and> search_key keys i = Some v \<and>
         (filter_hit r v \<or> term_hit r v))"
    unfolding add_matches_def set_append Un_iff in_filter_conditions_matches [OF rep] in_fuzzy_matches [OF rep] by blast
  show ?thesis
    unfolding hits
    using tss_rep_insert [OF rep] tss_rep_remove [OF rep] qr_overlaps_key_hit [of r v]
    by (intro conjI impI refl) blast+
qed

theorem search_subscriptions_notified_witness:
  "let r = qr_new [sample_term] [];
       keys = [(([1], ''by_body''), Search \<lparr>sk_filter_values = [], sk_search_field = [''body''],
                 sk_search_field_value = Some [''cat'']\<rparr>)]
   in 3 \<in> set (add_matches ([1], 10001, [7]) keys (tss_insert 3 ([1], ''by_body'') r tss_new))"
proof -
  let ?r = "qr_new [sample_term] []"
  have rep: "tss_rep ((\<lambda>_. None)((3, [1], ''by_body'') \<mapsto> ?r)) (tss_insert 3 ([1], ''by_body'') ?r tss_new)"
    by (rule tss_rep_insert [OF tss_rep_new]) simp
  show ?thesis
    unfolding Let_def
    by (rule search_subscriptions_notified [OF rep, of 3 "([1], ''by_body'')" ?r _ _ , THEN conjunct2, THEN conjunct2,
          THEN conjunct1, THEN iffD2])
      (auto simp: search_key_def bt_get_def term_hit_def qr_new_def sample_term_def term_matches_def term_kind_def term_token_def)
qed

end
