(* ===== verification/Routing.thy ===== *)
theory Routing
  imports TableRegistry ReadSets
begin

text \<open>
  How a transaction that spans partitions is taken apart, from
  \<open>crates/database/src/two_phase_coordinator.rs\<close> (classification and routing) and
  \<open>crates/database/src/two_phase.rs\<close> (\<open>ParticipantTransaction\<close>).  Every write goes
  to the partition that owns its table; a write of the catalog that is about a
  user table goes to the owner of that table and to the metadata authority; every
  read of a routed table is validated by its owner.

  Documents are the type variable \<open>'d\<close>; what routing reads of a catalog document,
  its table metadata or the tablet it indexes, are the fields of \<open>catalog_ops\<close>.
  Catalog coherence is always enforced, as in production.
\<close>

section \<open>Transactions\<close>

record 'd document_update_with_prev_ts =
  du_id :: resolved_document_id
  du_old :: "('d \<times> timestamp) option"
  du_new :: "'d option"

record ('d, 's) final_transaction =
  ft_begin_timestamp :: repeatable_timestamp
  ft_table_mapping :: table_mapping
  ft_reads :: "'s read_set"
  ft_writes :: "'d document_update_with_prev_ts list"

record 'd catalog_ops =
  parse_table_metadata :: "'d \<Rightarrow> anyhow_error + table_metadata"
  parse_index_tablet :: "'d \<Rightarrow> anyhow_error + tablet_id"

record participant_tablet_metadata =
  ptm_tablet_id :: tablet_id
  ptm_namespace :: table_namespace
  ptm_table_number :: table_number
  ptm_table_name :: table_name

record ('d, 's) participant_transaction =
  pt_begin_timestamp :: repeatable_timestamp
  pt_tablet_metadata :: "(tablet_id, participant_tablet_metadata) btree_map"
  pt_reads :: "'s read_set"
  pt_writes :: "'d document_update_with_prev_ts list"

datatype transaction_classification =
    SinglePartition
  | RemoteSinglePartition partition_id
  | CrossPartition "(partition_id, nat list) btree_map"

section \<open>Catalog writes\<close>

definition update_document :: "'d document_update_with_prev_ts \<Rightarrow> 'd option" where
  "update_document w = (case du_new w of Some d \<Rightarrow> Some d | None \<Rightarrow> map_option fst (du_old w))"

definition indexed_tablet_metadata :: "table_mapping \<Rightarrow> tablet_id \<Rightarrow> anyhow_error + participant_tablet_metadata" where
  "indexed_tablet_metadata mapping tablet =
     (let unknown = with_context ''_index catalog metadata references unknown tablet'' in
      case tablet_namespace mapping tablet of
        Inl e \<Rightarrow> Inl (unknown e)
      | Inr namespace \<Rightarrow>
          (case tablet_number mapping tablet of
             Inl e \<Rightarrow> Inl (unknown e)
           | Inr number \<Rightarrow>
               (case tablet_name mapping tablet of
                  Inl e \<Rightarrow> Inl (unknown e)
                | Inr name \<Rightarrow>
                    Inr \<lparr>ptm_tablet_id = tablet, ptm_namespace = namespace,
                         ptm_table_number = number, ptm_table_name = name\<rparr>)))"

definition catalog_metadata ::
  "'d catalog_ops \<Rightarrow> table_mapping \<Rightarrow> table_name \<Rightarrow> resolved_document_id \<Rightarrow> 'd \<Rightarrow>
   anyhow_error + participant_tablet_metadata" where
  "catalog_metadata cat mapping catalog_table ident d =
     (if catalog_table = tables_table
      then (case parse_table_metadata cat d of
              Inl e \<Rightarrow> Inl (with_context ''failed to parse _tables catalog metadata while routing write'' e)
            | Inr t \<Rightarrow>
                Inr \<lparr>ptm_tablet_id = snd (snd ident), ptm_namespace = tmd_namespace t,
                     ptm_table_number = tmd_number t, ptm_table_name = tmd_name t\<rparr>)
      else (case parse_index_tablet cat d of
              Inl e \<Rightarrow> Inl (with_context ''failed to parse _index catalog metadata while routing write'' e)
            | Inr tablet \<Rightarrow> indexed_tablet_metadata mapping tablet))"

definition is_catalog_table :: "table_name \<Rightarrow> bool" where
  "is_catalog_table name \<longleftrightarrow> name = tables_table \<or> name = index_table"

definition user_catalog_write_target ::
  "'d catalog_ops \<Rightarrow> ('d, 's) final_transaction \<Rightarrow> 'd document_update_with_prev_ts \<Rightarrow>
   anyhow_error + participant_tablet_metadata option" where
  "user_catalog_write_target cat tx w =
     (case tablet_name (ft_table_mapping tx) (fst (du_id w)) of
        Inl _ \<Rightarrow> Inr None
      | Inr catalog_table \<Rightarrow>
          if \<not> is_catalog_table catalog_table then Inr None
          else (case update_document w of
                  None \<Rightarrow> Inr None
                | Some d \<Rightarrow>
                    (case catalog_metadata cat (ft_table_mapping tx) catalog_table (du_id w) d of
                       Inl e \<Rightarrow> Inl e
                     | Inr md \<Rightarrow> Inr (if is_system (ptm_table_name md) then None else Some md))))"

fun has_user_catalog_writes ::
  "'d catalog_ops \<Rightarrow> ('d, 's) final_transaction \<Rightarrow> 'd document_update_with_prev_ts list \<Rightarrow> anyhow_error + bool" where
  "has_user_catalog_writes cat tx [] = Inr False"
| "has_user_catalog_writes cat tx (w # ws) =
     (case user_catalog_write_target cat tx w of
        Inl e \<Rightarrow> Inl e
      | Inr (Some _) \<Rightarrow> Inr True
      | Inr None \<Rightarrow> has_user_catalog_writes cat tx ws)"

definition transaction_has_user_catalog_writes ::
  "'d catalog_ops \<Rightarrow> ('d, 's) final_transaction \<Rightarrow> anyhow_error + bool" where
  "transaction_has_user_catalog_writes cat tx = has_user_catalog_writes cat tx (ft_writes tx)"

text \<open>The partition that validates reads of the catalog, when user tables change in it.\<close>

definition metadata_authority ::
  "'d catalog_ops \<Rightarrow> ('d, 's) final_transaction \<Rightarrow> partition_map \<Rightarrow> anyhow_error + partition_id option" where
  "metadata_authority cat tx pm =
     (case transaction_has_user_catalog_writes cat tx of
        Inl e \<Rightarrow> Inl e
      | Inr b \<Rightarrow> Inr (if b then Some (partition_for_table pm tables_table) else None))"

section \<open>Routing\<close>

definition routed_partition_for_catalog_write ::
  "'d catalog_ops \<Rightarrow> ('d, 's) final_transaction \<Rightarrow> 'd document_update_with_prev_ts \<Rightarrow> partition_map \<Rightarrow>
   anyhow_error + partition_id option" where
  "routed_partition_for_catalog_write cat tx w pm =
     (case user_catalog_write_target cat tx w of
        Inl e \<Rightarrow> Inl e
      | Inr md \<Rightarrow> Inr (map_option (\<lambda>md. partition_for_table pm (ptm_table_name md)) md))"

definition routed_partitions_for_write ::
  "'d catalog_ops \<Rightarrow> ('d, 's) final_transaction \<Rightarrow> 'd document_update_with_prev_ts \<Rightarrow> partition_map \<Rightarrow>
   write_source \<Rightarrow> anyhow_error + partition_id list" where
  "routed_partitions_for_write cat tx w pm source =
     (case tablet_name (ft_table_mapping tx) (fst (du_id w)) of
        Inl _ \<Rightarrow> Inr []
      | Inr table \<Rightarrow>
          (case routed_partition_for_catalog_write cat tx w pm of
             Inl e \<Rightarrow> Inl e
           | Inr (Some owner) \<Rightarrow> Inr (bs_insert owner [partition_for_table pm tables_table])
           | Inr None \<Rightarrow>
               (case routed_partition_for_table table pm source of
                  Some p \<Rightarrow> Inr [p]
                | None \<Rightarrow> Inr [pmap_local pm])))"

text \<open>\<open>entry(participant).or_default().push(index)\<close>.\<close>

definition push_index :: "nat \<Rightarrow> partition_id \<Rightarrow> (partition_id, nat list) btree_map \<Rightarrow> (partition_id, nat list) btree_map" where
  "push_index i p m = bt_insert p ((case bt_get m p of Some is \<Rightarrow> is | None \<Rightarrow> []) @ [i]) m"

fun write_indexes_loop ::
  "'d catalog_ops \<Rightarrow> ('d, 's) final_transaction \<Rightarrow> partition_map \<Rightarrow> write_source \<Rightarrow>
   nat \<Rightarrow> 'd document_update_with_prev_ts list \<Rightarrow> (partition_id, nat list) btree_map \<Rightarrow>
   anyhow_error + (partition_id, nat list) btree_map" where
  "write_indexes_loop cat tx pm source i [] m = Inr m"
| "write_indexes_loop cat tx pm source i (w # ws) m =
     (case routed_partitions_for_write cat tx w pm source of
        Inl e \<Rightarrow> Inl e
      | Inr ps \<Rightarrow> write_indexes_loop cat tx pm source (i + 1) ws (fold (push_index i) ps m))"

definition participant_write_indexes ::
  "'d catalog_ops \<Rightarrow> ('d, 's) final_transaction \<Rightarrow> partition_map \<Rightarrow> write_source \<Rightarrow>
   anyhow_error + (partition_id, nat list) btree_map" where
  "participant_write_indexes cat tx pm source =
     (case write_indexes_loop cat tx pm source 0 (ft_writes tx) [] of
        Inl e \<Rightarrow> Inl e
      | Inr m \<Rightarrow> Inr (filter (\<lambda>(_, is). is \<noteq> []) m))"

text \<open>The owner that \<open>visit_tablet\<close> adds for a tablet, if any.\<close>

definition read_owner ::
  "table_mapping \<Rightarrow> partition_map \<Rightarrow> write_source \<Rightarrow> partition_id option \<Rightarrow> tablet_id \<Rightarrow> partition_id option" where
  "read_owner mapping pm source authority tablet =
     (case tablet_name mapping tablet of
        Inl _ \<Rightarrow> None
      | Inr table \<Rightarrow>
          if authority \<noteq> None \<and> is_catalog_table table then authority
          else routed_partition_for_table table pm source)"

definition read_tablets :: "'s read_set \<Rightarrow> tablet_id list" where
  "read_tablets rs = map (fst \<circ> fst) (rs_indexed rs) @ map (fst \<circ> fst) (rs_search rs)"

definition participant_read_owners ::
  "'d catalog_ops \<Rightarrow> ('d, 's) final_transaction \<Rightarrow> partition_map \<Rightarrow> write_source \<Rightarrow> anyhow_error + partition_id list" where
  "participant_read_owners cat tx pm source =
     (case metadata_authority cat tx pm of
        Inl e \<Rightarrow> Inl e
      | Inr authority \<Rightarrow>
          Inr (bs_collect (List.map_filter (read_owner (ft_table_mapping tx) pm source authority)
                 (read_tablets (ft_reads tx)))))"

definition participant_prepare_indexes ::
  "'d catalog_ops \<Rightarrow> ('d, 's) final_transaction \<Rightarrow> partition_map \<Rightarrow> write_source \<Rightarrow>
   anyhow_error + (partition_id, nat list) btree_map" where
  "participant_prepare_indexes cat tx pm source =
     (case participant_write_indexes cat tx pm source of
        Inl e \<Rightarrow> Inl e
      | Inr m \<Rightarrow>
          (case participant_read_owners cat tx pm source of
             Inl e \<Rightarrow> Inl e
           | Inr ps \<Rightarrow>
               Inr (fold (\<lambda>p m. case bt_get m p of Some _ \<Rightarrow> m | None \<Rightarrow> bt_insert p [] m) ps m)))"

definition classify_transaction ::
  "'d catalog_ops \<Rightarrow> ('d, 's) final_transaction \<Rightarrow> partition_map \<Rightarrow> write_source \<Rightarrow>
   anyhow_error + transaction_classification" where
  "classify_transaction cat tx pm source =
     (case participant_write_indexes cat tx pm source of
        Inl e \<Rightarrow> Inl e
      | Inr partitions \<Rightarrow>
          (case participant_read_owners cat tx pm source of
             Inl e \<Rightarrow> Inl e
           | Inr owners \<Rightarrow>
               let prepare_participants = fold bs_insert owners (bt_keys partitions) in
               Inr (if partitions = [] then SinglePartition
                    else case prepare_participants of
                           [owner] \<Rightarrow> if owner = pmap_local pm then SinglePartition
                                     else RemoteSinglePartition owner
                         | _ \<Rightarrow> CrossPartition partitions)))"

fun invalidated_loop ::
  "'d catalog_ops \<Rightarrow> ('d, 's) final_transaction \<Rightarrow> 'd document_update_with_prev_ts list \<Rightarrow> table_name list \<Rightarrow>
   anyhow_error + table_name list" where
  "invalidated_loop cat tx [] names = Inr names"
| "invalidated_loop cat tx (w # ws) names =
     (let names1 = (case tablet_name (ft_table_mapping tx) (fst (du_id w)) of
                      Inr t \<Rightarrow> bs_insert t names | Inl _ \<Rightarrow> names)
      in case user_catalog_write_target cat tx w of
           Inl e \<Rightarrow> Inl e
         | Inr (Some md) \<Rightarrow> invalidated_loop cat tx ws (bs_insert (ptm_table_name md) names1)
         | Inr None \<Rightarrow> invalidated_loop cat tx ws names1)"

definition invalidated_table_names ::
  "'d catalog_ops \<Rightarrow> ('d, 's) final_transaction \<Rightarrow> anyhow_error + table_name list" where
  "invalidated_table_names cat tx = invalidated_loop cat tx (ft_writes tx) []"

section \<open>Participant transactions\<close>

definition belongs_to_participant ::
  "table_mapping \<Rightarrow> partition_map \<Rightarrow> write_source \<Rightarrow> partition_id option \<Rightarrow> partition_id \<Rightarrow> tablet_id \<Rightarrow> bool" where
  "belongs_to_participant mapping pm source authority p tablet =
     (case tablet_name mapping tablet of
        Inl _ \<Rightarrow> False
      | Inr table \<Rightarrow>
          if authority \<noteq> None \<and> is_catalog_table table then authority = Some p
          else case routed_partition_for_table table pm source of
                 Some owner \<Rightarrow> owner = p
               | None \<Rightarrow> p = pmap_local pm)"

definition select_reads :: "(tablet_id \<Rightarrow> bool) \<Rightarrow> 's read_set \<Rightarrow> 's read_set" where
  "select_reads P rs =
     rs_new (bt_collect (filter (\<lambda>(name, _). P (fst name)) (rs_indexed rs)))
       (bt_collect (filter (\<lambda>(name, _). P (fst name)) (rs_search rs)))"

definition record_tablet ::
  "table_mapping \<Rightarrow> tablet_id \<Rightarrow> (tablet_id, participant_tablet_metadata) btree_map \<Rightarrow>
   anyhow_error + (tablet_id, participant_tablet_metadata) btree_map" where
  "record_tablet mapping tablet mds =
     (if bt_get mds tablet \<noteq> None then Inr mds
      else case tablet_name mapping tablet of
             Inl e \<Rightarrow> Inl e
           | Inr name \<Rightarrow>
               (case tablet_number mapping tablet of
                  Inl e \<Rightarrow> Inl e
                | Inr number \<Rightarrow>
                    (case tablet_namespace mapping tablet of
                       Inl e \<Rightarrow> Inl e
                     | Inr namespace \<Rightarrow>
                         Inr (bt_insert tablet
                                \<lparr>ptm_tablet_id = tablet, ptm_namespace = namespace,
                                 ptm_table_number = number, ptm_table_name = name\<rparr> mds))))"

fun record_tablets ::
  "table_mapping \<Rightarrow> tablet_id list \<Rightarrow> (tablet_id, participant_tablet_metadata) btree_map \<Rightarrow>
   anyhow_error + (tablet_id, participant_tablet_metadata) btree_map" where
  "record_tablets mapping [] mds = Inr mds"
| "record_tablets mapping (t # ts) mds =
     (case record_tablet mapping t mds of Inl e \<Rightarrow> Inl e | Inr mds' \<Rightarrow> record_tablets mapping ts mds')"

fun record_writes ::
  "'d catalog_ops \<Rightarrow> ('d, 's) final_transaction \<Rightarrow> 'd document_update_with_prev_ts list \<Rightarrow>
   (tablet_id, participant_tablet_metadata) btree_map \<Rightarrow> participant_tablet_metadata list \<Rightarrow>
   anyhow_error + (tablet_id, participant_tablet_metadata) btree_map \<times> participant_tablet_metadata list" where
  "record_writes cat tx [] mds targets = Inr (mds, targets)"
| "record_writes cat tx (w # ws) mds targets =
     (case record_tablet (ft_table_mapping tx) (fst (du_id w)) mds of
        Inl e \<Rightarrow> Inl e
      | Inr mds' \<Rightarrow>
          (case user_catalog_write_target cat tx w of
             Inl e \<Rightarrow> Inl e
           | Inr None \<Rightarrow> record_writes cat tx ws mds' targets
           | Inr (Some md) \<Rightarrow> record_writes cat tx ws mds' (targets @ [md])))"

definition or_insert_metadata ::
  "participant_tablet_metadata \<Rightarrow> (tablet_id, participant_tablet_metadata) btree_map \<Rightarrow>
   (tablet_id, participant_tablet_metadata) btree_map" where
  "or_insert_metadata md mds =
     (case bt_get mds (ptm_tablet_id md) of Some _ \<Rightarrow> mds | None \<Rightarrow> bt_insert (ptm_tablet_id md) md mds)"

definition from_final_transaction ::
  "'d catalog_ops \<Rightarrow> ('d, 's) final_transaction \<Rightarrow> partition_id \<Rightarrow> nat list \<Rightarrow> partition_map \<Rightarrow> write_source \<Rightarrow>
   anyhow_error + ('d, 's) participant_transaction" where
  "from_final_transaction cat tx p write_indexes pm source =
     (let selected = map snd (filter (\<lambda>(i, _). i \<in> set write_indexes) (enumerate 0 (ft_writes tx))) in
      case metadata_authority cat tx pm of
        Inl e \<Rightarrow> Inl e
      | Inr authority \<Rightarrow>
          let reads = select_reads (belongs_to_participant (ft_table_mapping tx) pm source authority p) (ft_reads tx) in
          case record_tablets (ft_table_mapping tx) (read_tablets reads) [] of
            Inl e \<Rightarrow> Inl e
          | Inr mds \<Rightarrow>
              (case record_writes cat tx selected mds [] of
                 Inl e \<Rightarrow> Inl e
               | Inr (mds', targets) \<Rightarrow>
                   Inr \<lparr>pt_begin_timestamp = ft_begin_timestamp tx,
                        pt_tablet_metadata = fold or_insert_metadata targets mds',
                        pt_reads = reads, pt_writes = selected\<rparr>))"

definition from_entire_final_transaction ::
  "('d, 's) final_transaction \<Rightarrow> anyhow_error + ('d, 's) participant_transaction" where
  "from_entire_final_transaction tx =
     (case record_tablets (ft_table_mapping tx)
             (read_tablets (ft_reads tx) @ map (fst \<circ> du_id) (ft_writes tx)) [] of
        Inl e \<Rightarrow> Inl e
      | Inr mds \<Rightarrow>
          Inr \<lparr>pt_begin_timestamp = ft_begin_timestamp tx, pt_tablet_metadata = mds,
               pt_reads = ft_reads tx, pt_writes = ft_writes tx\<rparr>)"

definition augment_table_mapping :: "('d, 's) participant_transaction \<Rightarrow> table_mapping \<Rightarrow> table_mapping" where
  "augment_table_mapping pt mapping =
     fold (\<lambda>md m. if tablet_id_exists m (ptm_tablet_id md) then m
                  else insert_tablet (ptm_tablet_id md) (ptm_namespace md) (ptm_table_number md) (ptm_table_name md) m)
       (bt_values (pt_tablet_metadata pt)) mapping"

section \<open>Where writes go\<close>

text \<open>
  The routing rule for a write, stated on its table: a user table goes to its
  owner, a catalog document about a user table to the owner of that table and to
  the metadata owner, and any other system table to the local partition unless
  the source of the write is a push.
\<close>

definition routes_to ::
  "'d catalog_ops \<Rightarrow> ('d, 's) final_transaction \<Rightarrow> partition_map \<Rightarrow> write_source \<Rightarrow> partition_id \<Rightarrow>
   'd document_update_with_prev_ts \<Rightarrow> bool" where
  "routes_to cat tx pm source p w =
     (case tablet_name (ft_table_mapping tx) (fst (du_id w)) of
        Inl _ \<Rightarrow> False
      | Inr table \<Rightarrow>
          (case user_catalog_write_target cat tx w of
             Inr (Some md) \<Rightarrow> p = partition_for_table pm (ptm_table_name md) \<or> p = default_partition
           | _ \<Rightarrow> p = (if is_system table \<and> \<not> uses_metadata_owner source then pmap_local pm
                       else partition_for_table pm table)))"

lemma catalog_tables_system [simp]: "is_system tables_table" "is_system index_table"
  by (simp_all add: tables_table_def index_table_def is_system_def)

lemma partition_for_system: "is_system t \<Longrightarrow> partition_for_table pm t = default_partition"
  by (simp add: partition_for_table_def)

lemma routed_partitions_spec:
  assumes "routed_partitions_for_write cat tx w pm source = Inr ps"
  shows "distinct ps \<and> set ps = {p. routes_to cat tx pm source p w}"
  using assms
  by (cases "tablet_name (ft_table_mapping tx) (fst (du_id w))"; cases "user_catalog_write_target cat tx w")
    (auto simp: routed_partitions_for_write_def routes_to_def routed_partition_for_catalog_write_def
      routed_partition_for_table_def partition_for_system
      split: option.splits if_splits)

lemma routed_partitions_target:
  assumes "routed_partitions_for_write cat tx w pm source = Inr ps"
  shows "\<exists>md. user_catalog_write_target cat tx w = Inr md"
proof (cases "tablet_name (ft_table_mapping tx) (fst (du_id w))")
  case (Inl e)
  then show ?thesis by (simp add: user_catalog_write_target_def)
next
  case (Inr t)
  with assms show ?thesis
    by (cases "user_catalog_write_target cat tx w")
      (simp_all add: routed_partitions_for_write_def routed_partition_for_catalog_write_def)
qed

definition indexes_of :: "(partition_id, nat list) btree_map \<Rightarrow> partition_id \<Rightarrow> nat list" where
  "indexes_of m p = (case bt_get m p of Some is \<Rightarrow> is | None \<Rightarrow> [])"

lemma push_index_spec:
  assumes "bt_wf m"
  shows "bt_wf (push_index i q m)" "indexes_of (push_index i q m) p = indexes_of m p @ (if p = q then [i] else [])"
  using assms by (auto simp: push_index_def indexes_of_def bt_get_insert split: option.splits)

lemma fold_push_index_spec:
  "bt_wf m \<Longrightarrow> distinct ps \<Longrightarrow> bt_wf (fold (push_index i) ps m) \<and>
    indexes_of (fold (push_index i) ps m) p = indexes_of m p @ (if p \<in> set ps then [i] else [])"
  by (induction ps arbitrary: m) (auto simp: push_index_spec)

lemma write_indexes_loop_spec:
  assumes "write_indexes_loop cat tx pm source i ws m = Inr m'" "bt_wf m"
  shows "bt_wf m' \<and> (\<forall>w \<in> set ws. \<exists>ps. routed_partitions_for_write cat tx w pm source = Inr ps) \<and>
    (\<forall>p. indexes_of m' p = indexes_of m p @
      map fst (filter (\<lambda>(_, w). routes_to cat tx pm source p w) (enumerate i ws)))"
  using assms
proof (induction ws arbitrary: i m)
  case (Cons w ws)
  then obtain ps where ps: "routed_partitions_for_write cat tx w pm source = Inr ps"
    and loop: "write_indexes_loop cat tx pm source (i + 1) ws (fold (push_index i) ps m) = Inr m'"
    by (auto split: sum.splits)
  note spec = routed_partitions_spec [OF ps]
  note step = fold_push_index_spec [OF Cons.prems(2) spec [THEN conjunct1], of i]
  from Cons.IH [OF loop] step spec ps show ?case by simp
qed simp

lemma bt_get_filter:
  "bt_wf m \<Longrightarrow> bt_get (filter (\<lambda>(k, v). P v) m) k = (case bt_get m k of Some v \<Rightarrow> if P v then Some v else None | None \<Rightarrow> None)"
proof (induction m)
  case (Cons kv m)
  then show ?case
    by (cases kv) (auto simp: bt_get_def bt_wf_Cons map_of_eq_None_iff split: option.splits dest!: map_of_SomeD)
qed simp

definition indexes_routed ::
  "'d catalog_ops \<Rightarrow> ('d, 's) final_transaction \<Rightarrow> partition_map \<Rightarrow> write_source \<Rightarrow> partition_id \<Rightarrow> nat list" where
  "indexes_routed cat tx pm source p =
     map fst (filter (\<lambda>(_, w). routes_to cat tx pm source p w) (enumerate 0 (ft_writes tx)))"

lemma participant_write_indexes_spec:
  assumes "participant_write_indexes cat tx pm source = Inr m"
  shows "bt_wf m" "\<forall>w \<in> set (ft_writes tx). \<exists>ps. routed_partitions_for_write cat tx w pm source = Inr ps"
    "bt_get m p = (let is = indexes_routed cat tx pm source p in if is = [] then None else Some is)"
proof -
  from assms obtain n where n: "write_indexes_loop cat tx pm source 0 (ft_writes tx) [] = Inr n"
    and m: "m = filter (\<lambda>(_, is). is \<noteq> []) n"
    by (auto simp: participant_write_indexes_def split: sum.splits)
  note spec = write_indexes_loop_spec [OF n bt_wf_Nil]
  from spec m show "bt_wf m" by simp
  from spec show "\<forall>w \<in> set (ft_writes tx). \<exists>ps. routed_partitions_for_write cat tx w pm source = Inr ps" by blast
  from spec have "indexes_of n p = indexes_routed cat tx pm source p"
    by (simp add: indexes_routed_def indexes_of_def)
  then show "bt_get m p = (let is = indexes_routed cat tx pm source p in if is = [] then None else Some is)"
    unfolding m bt_get_filter [OF spec [THEN conjunct1]] Let_def
    by (cases "bt_get n p") (auto simp: indexes_of_def)
qed

lemma indexes_routed_Nil: "indexes_routed cat tx pm source p = [] \<longleftrightarrow> \<not> (\<exists>w \<in> set (ft_writes tx). routes_to cat tx pm source p w)"
proof -
  have "set (ft_writes tx) = snd ` set (enumerate 0 (ft_writes tx))"
    by (metis list.set_map map_snd_enumerate)
  then show ?thesis by (auto simp: indexes_routed_def filter_empty_conv)
qed

section \<open>Who takes part\<close>

definition owns_read ::
  "('d, 's) final_transaction \<Rightarrow> partition_map \<Rightarrow> write_source \<Rightarrow> partition_id option \<Rightarrow> partition_id \<Rightarrow> bool" where
  "owns_read tx pm source authority p \<longleftrightarrow>
     (\<exists>t \<in> set (read_tablets (ft_reads tx)). read_owner (ft_table_mapping tx) pm source authority t = Some p)"

lemma set_map_filter_Some: "x \<in> set (List.map_filter f xs) \<longleftrightarrow> (\<exists>y \<in> set xs. f y = Some x)"
  by (induction xs) (auto simp: List.map_filter_simps split: option.splits)

lemma participant_read_owners_spec:
  assumes "participant_read_owners cat tx pm source = Inr ps"
  obtains authority where "metadata_authority cat tx pm = Inr authority"
    "\<And>p. p \<in> set ps \<longleftrightarrow> owns_read tx pm source authority p"
  using assms
  by (auto simp: participant_read_owners_def owns_read_def set_map_filter_Some split: sum.splits)

lemma fold_or_default_spec:
  "bt_wf m \<Longrightarrow> bt_wf (fold (\<lambda>p m. case bt_get m p of Some _ \<Rightarrow> m | None \<Rightarrow> bt_insert p [] m) ps m) \<and>
    bt_get (fold (\<lambda>p m. case bt_get m p of Some _ \<Rightarrow> m | None \<Rightarrow> bt_insert p [] m) ps m) p =
      (case bt_get m p of Some is \<Rightarrow> Some is | None \<Rightarrow> if p \<in> set ps then Some [] else None)"
proof (induction ps arbitrary: m)
  case (Cons q ps)
  then show ?case by (cases "bt_get m q") (auto simp: bt_get_insert split: option.splits)
qed (simp split: option.splits)

text \<open>
  A participant is prepared exactly when a write is routed to it or it owns a
  read, with the indexes of its writes in order.
\<close>

lemma participant_prepare_indexes_spec:
  assumes "participant_prepare_indexes cat tx pm source = Inr m"
  obtains authority where "metadata_authority cat tx pm = Inr authority" "bt_wf m"
    "\<forall>w \<in> set (ft_writes tx). \<exists>ps. routed_partitions_for_write cat tx w pm source = Inr ps"
    "\<And>p. bt_get m p =
       (if indexes_routed cat tx pm source p \<noteq> [] \<or> owns_read tx pm source authority p
        then Some (indexes_routed cat tx pm source p) else None)"
proof -
  from assms obtain n ps where n: "participant_write_indexes cat tx pm source = Inr n"
    and ps: "participant_read_owners cat tx pm source = Inr ps"
    and m: "m = fold (\<lambda>p m. case bt_get m p of Some _ \<Rightarrow> m | None \<Rightarrow> bt_insert p [] m) ps n"
    by (auto simp: participant_prepare_indexes_def split: sum.splits)
  note w = participant_write_indexes_spec [OF n]
  from ps obtain authority where a: "metadata_authority cat tx pm = Inr authority"
    "\<And>p. p \<in> set ps \<longleftrightarrow> owns_read tx pm source authority p" by (rule participant_read_owners_spec) blast
  show ?thesis
  proof (rule that [OF a(1)])
    show "bt_wf m" unfolding m using fold_or_default_spec [OF w(1)] by blast
    show "bt_get m p = (if indexes_routed cat tx pm source p \<noteq> [] \<or> owns_read tx pm source authority p
        then Some (indexes_routed cat tx pm source p) else None)" for p
      unfolding m using fold_or_default_spec [OF w(1), of ps p] w(3) [of p] a(2) [of p] by (auto simp: Let_def)
  qed (rule w(2))
qed

section \<open>What a participant is given\<close>

lemma map_snd_filter_enumerate:
  "map snd (filter (\<lambda>(i, _). i \<in> set (map fst (filter (\<lambda>(_, w). P w) (enumerate n ws)))) (enumerate n ws)) = filter P ws"
proof -
  have "filter (\<lambda>(i, _). i \<in> set (map fst (filter (\<lambda>(_, w). P w) (enumerate n ws)))) (enumerate n ws) =
      filter (\<lambda>(_, w). P w) (enumerate n ws)"
    by (rule filter_cong [OF refl]) (force simp: in_set_enumerate_eq)
  moreover have "map snd (filter (\<lambda>(_, w). P w) (enumerate n ws)) = filter P ws"
    by (induction ws arbitrary: n) auto
  ultimately show ?thesis by simp
qed

lemma tablet_lookups_agree:
  "tablet_name m t = Inr name \<Longrightarrow> \<exists>number ns. tablet_number m t = Inr number \<and> tablet_namespace m t = Inr ns"
  by (auto simp: tablet_name_def tablet_number_def tablet_namespace_def split: option.splits)

definition known_tablet :: "table_mapping \<Rightarrow> tablet_id \<Rightarrow> bool" where
  "known_tablet m t \<longleftrightarrow> bt_get (tablet_to_table m) t \<noteq> None"

lemma known_tablet_name: "known_tablet m t \<longleftrightarrow> (\<exists>name. tablet_name m t = Inr name)"
  by (auto simp: known_tablet_def tablet_name_def split: option.splits)

definition metadata_of :: "table_mapping \<Rightarrow> tablet_id \<Rightarrow> participant_tablet_metadata option" where
  "metadata_of m t = map_option (\<lambda>(ns, number, name). \<lparr>ptm_tablet_id = t, ptm_namespace = ns,
     ptm_table_number = number, ptm_table_name = name\<rparr>) (bt_get (tablet_to_table m) t)"

text \<open>The metadata that is recorded agrees with the coordinator's table mapping.\<close>

definition metadata_sound :: "table_mapping \<Rightarrow> (tablet_id, participant_tablet_metadata) btree_map \<Rightarrow> bool" where
  "metadata_sound m mds \<longleftrightarrow> bt_wf mds \<and> (\<forall>t md. bt_get mds t = Some md \<longrightarrow> metadata_of m t = Some md)"

lemma record_tablet_spec:
  assumes "metadata_sound m mds" "known_tablet m t"
  shows "\<exists>mds'. record_tablet m t mds = Inr mds' \<and> metadata_sound m mds' \<and>
    fst ` set mds' = insert t (fst ` set mds)"
proof (cases "bt_get mds t")
  case None
  from assms(2) obtain ns number name where e: "bt_get (tablet_to_table m) t = Some (ns, number, name)"
    by (auto simp: known_tablet_def)
  with None assms(1) show ?thesis
    by (simp add: record_tablet_def tablet_name_def tablet_number_def tablet_namespace_def metadata_sound_def
        bt_get_insert fst_set_bt_insert metadata_of_def)
next
  case (Some md)
  then have "t \<in> fst ` set mds" by (metis bt_get_None_iff option.distinct(1))
  with Some assms(1) show ?thesis by (auto simp: record_tablet_def)
qed

lemma record_tablets_spec:
  assumes "metadata_sound m mds" "\<forall>t \<in> set ts. known_tablet m t"
  shows "\<exists>mds'. record_tablets m ts mds = Inr mds' \<and> metadata_sound m mds' \<and>
    fst ` set mds' = set ts \<union> fst ` set mds"
  using assms
proof (induction ts arbitrary: mds)
  case (Cons t ts)
  from record_tablet_spec [OF Cons.prems(1), of t] Cons.prems(2) obtain mds' where
    "record_tablet m t mds = Inr mds'" "metadata_sound m mds'" "fst ` set mds' = insert t (fst ` set mds)" by auto
  with Cons.IH [of mds'] Cons.prems(2) show ?case by auto
qed simp

lemma record_writes_spec:
  assumes "metadata_sound (ft_table_mapping tx) mds"
    "\<forall>w \<in> set ws. known_tablet (ft_table_mapping tx) (fst (du_id w)) \<and> (\<exists>md. user_catalog_write_target cat tx w = Inr md)"
  shows "\<exists>mds'. record_writes cat tx ws mds targets =
      Inr (mds', targets @ List.map_filter (\<lambda>w. case user_catalog_write_target cat tx w of Inr md \<Rightarrow> md | Inl _ \<Rightarrow> None) ws) \<and>
    metadata_sound (ft_table_mapping tx) mds' \<and> fst ` set mds' = (fst \<circ> du_id) ` set ws \<union> fst ` set mds"
  using assms
proof (induction ws arbitrary: mds targets)
  case (Cons w ws)
  from Cons.prems(2) obtain md where md: "user_catalog_write_target cat tx w = Inr md"
    and known: "known_tablet (ft_table_mapping tx) (fst (du_id w))" by auto
  from record_tablet_spec [OF Cons.prems(1) known] obtain mds' where
    m: "record_tablet (ft_table_mapping tx) (fst (du_id w)) mds = Inr mds'" "metadata_sound (ft_table_mapping tx) mds'"
      "fst ` set mds' = insert (fst (du_id w)) (fst ` set mds)" by auto
  from Cons.IH [OF m(2), of "targets @ (case md of None \<Rightarrow> [] | Some x \<Rightarrow> [x])"] Cons.prems(2) m md show ?case
    by (auto simp: List.map_filter_simps split: option.splits)
qed (simp add: List.map_filter_simps)

lemma bt_collect_filter: "bt_wf m \<Longrightarrow> bt_collect (filter P m) = filter P m"
  by (simp add: bt_collect_id)

lemma select_reads_simps [simp]:
  assumes "read_set_wf rs"
  shows "rs_indexed (select_reads P rs) = filter (\<lambda>(name, _). P (fst name)) (rs_indexed rs)"
    "rs_search (select_reads P rs) = filter (\<lambda>(name, _). P (fst name)) (rs_search rs)"
  using assms by (simp_all add: select_reads_def rs_new_def read_set_wf_def names_wf_def bt_collect_filter)

lemma read_set_wf_select: "read_set_wf rs \<Longrightarrow> read_set_wf (select_reads P rs)"
  by (auto simp: read_set_wf_def names_wf_def select_reads_def rs_new_def bt_collect_filter)

lemma reads_document_select:
  "read_set_wf rs \<Longrightarrow> reads_document ops (select_reads P rs) d \<longleftrightarrow> P (fst (doc_id ops d)) \<and> reads_document ops rs d"
  unfolding reads_document_def select_reads_simps Bex_def by auto

lemma select_reads_overlaps:
  assumes "read_set_wf rs"
  shows "overlaps_document ops (select_reads P rs) d \<noteq> None \<longleftrightarrow>
    P (fst (doc_id ops d)) \<and> overlaps_document ops rs d \<noteq> None"
  unfolding overlaps_document_iff [OF assms] overlaps_document_iff [OF read_set_wf_select [OF assms]]
    reads_document_select [OF assms] by simp

lemma belongs_known: "belongs_to_participant m pm source authority p t \<Longrightarrow> known_tablet m t"
  by (auto simp: belongs_to_participant_def known_tablet_name split: sum.splits)

lemma read_tablets_select:
  "read_set_wf rs \<Longrightarrow> set (read_tablets (select_reads P rs)) = {t \<in> set (read_tablets rs). P t}"
  by (auto simp: read_tablets_def)

lemma routes_to_known:
  "routes_to cat tx pm source p w \<Longrightarrow> known_tablet (ft_table_mapping tx) (fst (du_id w))"
  by (auto simp: routes_to_def known_tablet_name split: sum.splits)

lemma fold_or_insert_keeps:
  "bt_wf n \<Longrightarrow> bt_wf (fold or_insert_metadata xs n) \<and>
    (\<forall>t md. bt_get n t = Some md \<longrightarrow> bt_get (fold or_insert_metadata xs n) t = Some md)"
proof (induction xs arbitrary: n)
  case (Cons x xs)
  have "bt_wf (or_insert_metadata x n)" using Cons.prems by (simp add: or_insert_metadata_def split: option.split)
  moreover have "bt_get (or_insert_metadata x n) t = Some md" if "bt_get n t = Some md" for t md
    using that Cons.prems by (auto simp: or_insert_metadata_def bt_get_insert split: option.split)
  ultimately show ?case using Cons.IH by simp
qed simp

text \<open>
  Once the participants are determined, no participant transaction fails: each
  holds the writes routed to it, in order, and the reads that belong to it, and
  the metadata of every tablet among them.
\<close>

lemma from_final_transaction_spec:
  assumes wf: "read_set_wf (ft_reads tx)" and authority: "metadata_authority cat tx pm = Inr authority"
    and targets: "\<forall>w \<in> set (ft_writes tx). \<exists>ps. routed_partitions_for_write cat tx w pm source = Inr ps"
  obtains pt where "from_final_transaction cat tx p (indexes_routed cat tx pm source p) pm source = Inr pt"
    "pt_begin_timestamp pt = ft_begin_timestamp tx"
    "pt_writes pt = filter (routes_to cat tx pm source p) (ft_writes tx)"
    "pt_reads pt = select_reads (belongs_to_participant (ft_table_mapping tx) pm source authority p) (ft_reads tx)"
    "\<And>t. t \<in> set (read_tablets (pt_reads pt)) \<union> (fst \<circ> du_id) ` set (pt_writes pt) \<Longrightarrow>
       known_tablet (ft_table_mapping tx) t \<and> bt_get (pt_tablet_metadata pt) t = metadata_of (ft_table_mapping tx) t"
    "bt_wf (pt_tablet_metadata pt)"
proof -
  let ?m = "ft_table_mapping tx"
  let ?ws = "filter (routes_to cat tx pm source p) (ft_writes tx)"
  let ?rs = "select_reads (belongs_to_participant ?m pm source authority p) (ft_reads tx)"
  have sound: "metadata_sound ?m []" by (simp add: metadata_sound_def)
  have "\<forall>t \<in> set (read_tablets ?rs). known_tablet ?m t"
    by (auto simp: read_tablets_select [OF wf] belongs_known)
  from record_tablets_spec [OF sound this] obtain mds where
    mds: "record_tablets ?m (read_tablets ?rs) [] = Inr mds" "metadata_sound ?m mds" "fst ` set mds = set (read_tablets ?rs)"
    by auto
  have "\<forall>w \<in> set ?ws. known_tablet ?m (fst (du_id w)) \<and> (\<exists>md. user_catalog_write_target cat tx w = Inr md)"
    using targets routed_partitions_target routes_to_known by fastforce
  from record_writes_spec [OF mds(2) this, of "[]"] obtain mds' targets where
    mds': "record_writes cat tx ?ws mds [] = Inr (mds', targets)" "metadata_sound ?m mds'"
      "fst ` set mds' = (fst \<circ> du_id) ` set ?ws \<union> fst ` set mds" by auto
  let ?pt = "\<lparr>pt_begin_timestamp = ft_begin_timestamp tx, pt_tablet_metadata = fold or_insert_metadata targets mds',
      pt_reads = ?rs, pt_writes = ?ws\<rparr>"
  show ?thesis
  proof (rule that [of ?pt])
    show "from_final_transaction cat tx p (indexes_routed cat tx pm source p) pm source = Inr ?pt"
      unfolding from_final_transaction_def indexes_routed_def map_snd_filter_enumerate Let_def
      by (simp add: authority mds(1) mds'(1))
    from fold_or_insert_keeps [of mds' targets] mds'(2) show "bt_wf (pt_tablet_metadata ?pt)" by (simp add: metadata_sound_def)
    fix t assume "t \<in> set (read_tablets (pt_reads ?pt)) \<union> (fst \<circ> du_id) ` set (pt_writes ?pt)"
    then have "t \<in> fst ` set mds'" using mds(3) mds'(3) by auto
    then obtain md where md: "bt_get mds' t = Some md" by (metis bt_get_None_iff option.exhaust)
    with mds'(2) have "metadata_of ?m t = Some md" "bt_wf mds'" unfolding metadata_sound_def by blast+
    moreover from this(2) md fold_or_insert_keeps [of mds' targets] have "bt_get (pt_tablet_metadata ?pt) t = Some md" by simp
    moreover from calculation(1) have "known_tablet ?m t" unfolding known_tablet_def metadata_of_def by auto
    ultimately show "known_tablet ?m t \<and> bt_get (pt_tablet_metadata ?pt) t = metadata_of ?m t" by simp
  qed simp_all
qed

lemma belongs_iff_owner:
  assumes "read_owner m pm source authority t = Some q"
  shows "belongs_to_participant m pm source authority p t \<longleftrightarrow> p = q"
  using assms by (auto simp: read_owner_def belongs_to_participant_def split: sum.splits if_splits option.splits)

lemma belongs_unrouted:
  assumes "known_tablet m t" "read_owner m pm source authority t = None"
  shows "belongs_to_participant m pm source authority p t \<longleftrightarrow> p = pmap_local pm"
  using assms
  by (auto simp: known_tablet_name read_owner_def belongs_to_participant_def split: sum.splits if_splits option.splits)

lemma reads_document_tablet: "reads_document ops rs d \<Longrightarrow> fst (doc_id ops d) \<in> set (read_tablets rs)"
  by (force simp: reads_document_def read_tablets_def)

section \<open>The split is exact\<close>

lemma participants_spec:
  assumes wf: "read_set_wf (ft_reads tx)" and m: "participant_prepare_indexes cat tx pm source = Inr m"
  obtains authority where "metadata_authority cat tx pm = Inr authority"
    "\<And>p. p \<in> fst ` set m \<longleftrightarrow> (\<exists>w \<in> set (ft_writes tx). routes_to cat tx pm source p w) \<or> owns_read tx pm source authority p"
    "\<And>p is. bt_get m p = Some is \<Longrightarrow> \<exists>pt. from_final_transaction cat tx p is pm source = Inr pt \<and>
       pt_begin_timestamp pt = ft_begin_timestamp tx \<and>
       pt_writes pt = filter (routes_to cat tx pm source p) (ft_writes tx) \<and>
       pt_reads pt = select_reads (belongs_to_participant (ft_table_mapping tx) pm source authority p) (ft_reads tx)"
proof -
  from m obtain authority where a: "metadata_authority cat tx pm = Inr authority" "bt_wf m"
    "\<forall>w \<in> set (ft_writes tx). \<exists>ps. routed_partitions_for_write cat tx w pm source = Inr ps"
    "\<And>p. bt_get m p =
       (if indexes_routed cat tx pm source p \<noteq> [] \<or> owns_read tx pm source authority p
        then Some (indexes_routed cat tx pm source p) else None)"
    by (rule participant_prepare_indexes_spec) blast
  show ?thesis
  proof (rule that [OF a(1)])
    show "p \<in> fst ` set m \<longleftrightarrow> (\<exists>w \<in> set (ft_writes tx). routes_to cat tx pm source p w) \<or> owns_read tx pm source authority p" for p
      using a(4) [of p] bt_get_None_iff [of m p] by (auto simp: indexes_routed_Nil split: if_splits)
  next
    fix p "is" assume "bt_get m p = Some is"
    with a(4) [of p] have "is = indexes_routed cat tx pm source p" by (simp split: if_splits)
    moreover obtain pt where "from_final_transaction cat tx p (indexes_routed cat tx pm source p) pm source = Inr pt"
      "pt_begin_timestamp pt = ft_begin_timestamp tx"
      "pt_writes pt = filter (routes_to cat tx pm source p) (ft_writes tx)"
      "pt_reads pt = select_reads (belongs_to_participant (ft_table_mapping tx) pm source authority p) (ft_reads tx)"
      by (rule from_final_transaction_spec [OF wf a(1,3), of p])
    ultimately show "\<exists>pt. from_final_transaction cat tx p is pm source = Inr pt \<and>
       pt_begin_timestamp pt = ft_begin_timestamp tx \<and>
       pt_writes pt = filter (routes_to cat tx pm source p) (ft_writes tx) \<and>
       pt_reads pt = select_reads (belongs_to_participant (ft_table_mapping tx) pm source authority p) (ft_reads tx)"
      by simp
  qed
qed

lemma known_write_routed:
  "known_tablet (ft_table_mapping tx) (fst (du_id w)) \<Longrightarrow> \<exists>p. routes_to cat tx pm source p w"
proof -
  assume "known_tablet (ft_table_mapping tx) (fst (du_id w))"
  then obtain table where "tablet_name (ft_table_mapping tx) (fst (du_id w)) = Inr table"
    by (auto simp: known_tablet_name)
  then show ?thesis
    by (cases "\<exists>md. user_catalog_write_target cat tx w = Inr (Some md)")
      (auto simp: routes_to_def split: sum.split option.split)
qed

text \<open>
  C5. A transaction is split without losing or inventing a write.  When the
  participants of a transaction can be determined, the transaction of every
  participant can be built, starts at the same timestamp and holds exactly the
  writes routed to it in their order, and every write of a known table is held by
  some participant.
\<close>
theorem writes_split_exact:
  assumes wf: "read_set_wf (ft_reads tx)" and m: "participant_prepare_indexes cat tx pm source = Inr m"
  shows "(\<forall>(p, is) \<in> set m. \<exists>pt. from_final_transaction cat tx p is pm source = Inr pt \<and>
      pt_begin_timestamp pt = ft_begin_timestamp tx \<and>
      pt_writes pt = filter (routes_to cat tx pm source p) (ft_writes tx)) \<and>
    (\<forall>w \<in> set (ft_writes tx). tablet_id_exists (ft_table_mapping tx) (fst (du_id w)) \<longrightarrow>
      (\<exists>(p, is) \<in> set m. routes_to cat tx pm source p w))"
proof -
  from m have "bt_wf m" by (rule participant_prepare_indexes_spec)
  then have get: "bt_get m p = Some is \<longleftrightarrow> (p, is) \<in> set m" for p "is" by (rule bt_get_Some_iff)
  from wf m obtain authority where
    parts: "\<And>p. p \<in> fst ` set m \<longleftrightarrow> (\<exists>w \<in> set (ft_writes tx). routes_to cat tx pm source p w) \<or> owns_read tx pm source authority p"
    and tx: "\<And>p is. bt_get m p = Some is \<Longrightarrow> \<exists>pt. from_final_transaction cat tx p is pm source = Inr pt \<and>
       pt_begin_timestamp pt = ft_begin_timestamp tx \<and>
       pt_writes pt = filter (routes_to cat tx pm source p) (ft_writes tx) \<and>
       pt_reads pt = select_reads (belongs_to_participant (ft_table_mapping tx) pm source authority p) (ft_reads tx)"
    by (rule participants_spec) blast
  have "\<exists>(p, is) \<in> set m. routes_to cat tx pm source p w"
    if "w \<in> set (ft_writes tx)" "tablet_id_exists (ft_table_mapping tx) (fst (du_id w))" for w
  proof -
    from that(2) known_write_routed [of tx w cat pm source] obtain p where p: "routes_to cat tx pm source p w"
      by (auto simp: known_tablet_def tablet_id_exists_def)
    with parts that(1) have "p \<in> fst ` set m" by blast
    with p show ?thesis by auto
  qed
  moreover have "\<exists>pt. from_final_transaction cat tx p is pm source = Inr pt \<and>
      pt_begin_timestamp pt = ft_begin_timestamp tx \<and>
      pt_writes pt = filter (routes_to cat tx pm source p) (ft_writes tx)" if "(p, is) \<in> set m" for p "is"
    using tx that get by blast
  ultimately show ?thesis by blast
qed

lemma metadata_authority_cases:
  assumes "metadata_authority cat tx pm = Inr authority"
  shows "authority = None \<or> authority = Some default_partition"
  using assms by (auto simp: metadata_authority_def partition_for_system split: sum.splits if_splits)

lemma has_user_catalog_writes_iff:
  "has_user_catalog_writes cat tx ws = Inr b \<Longrightarrow> b \<longleftrightarrow> (\<exists>w \<in> set ws. \<exists>md. user_catalog_write_target cat tx w = Inr (Some md))"
  by (induction ws) (auto split: sum.splits option.splits)

lemma metadata_authority_iff:
  assumes "metadata_authority cat tx pm = Inr authority"
  shows "authority \<noteq> None \<longleftrightarrow> (\<exists>w \<in> set (ft_writes tx). \<exists>md. user_catalog_write_target cat tx w = Inr (Some md))"
  using assms has_user_catalog_writes_iff [of cat tx "ft_writes tx"]
  by (auto simp: metadata_authority_def transaction_has_user_catalog_writes_def split: sum.splits if_splits)

text \<open>The tables whose reads are validated by their owner.\<close>

definition validated_by_owner ::
  "'d catalog_ops \<Rightarrow> ('d, 's) final_transaction \<Rightarrow> write_source \<Rightarrow> table_name \<Rightarrow> bool" where
  "validated_by_owner cat tx source table \<longleftrightarrow>
     \<not> is_system table \<or> uses_metadata_owner source \<or>
     is_catalog_table table \<and> (\<exists>w \<in> set (ft_writes tx). \<exists>md. user_catalog_write_target cat tx w = Inr (Some md))"

lemma read_owner_eq:
  assumes authority: "metadata_authority cat tx pm = Inr authority" and "tablet_name m t = Inr table"
  shows "read_owner m pm source authority t =
    (if validated_by_owner cat tx source table then Some (partition_for_table pm table) else None)"
proof -
  have "is_catalog_table table \<Longrightarrow> is_system table" by (auto simp: is_catalog_table_def)
  with metadata_authority_cases [OF authority] metadata_authority_iff [OF authority] assms(2) show ?thesis
    by (auto simp: read_owner_def validated_by_owner_def routed_partition_for_table_def partition_for_system)
qed


text \<open>
  C27. Reads of other system tables are validated only at the coordinator's own
  partition, and only when that partition is a participant for another reason.
  A participant can find a conflicting document of such a table exactly when the
  reads conflict with it, the local partition is among the participants and the
  participant is the local partition.
\<close>
theorem local_reads_unchecked:
  assumes wf: "read_set_wf (ft_reads tx)" and m: "participant_prepare_indexes cat tx pm source = Inr m"
    and table: "tablet_name (ft_table_mapping tx) (fst (doc_id ops d)) = Inr table"
    and unowned: "\<not> validated_by_owner cat tx source table"
  shows "(\<exists>is pt. bt_get m p = Some is \<and> from_final_transaction cat tx p is pm source = Inr pt \<and>
      overlaps_document ops (pt_reads pt) d \<noteq> None) \<longleftrightarrow>
    overlaps_document ops (ft_reads tx) d \<noteq> None \<and> p = pmap_local pm \<and> p \<in> set (bt_keys m)"
proof -
  from wf m obtain authority where authority: "metadata_authority cat tx pm = Inr authority"
    and tx: "\<And>p is. bt_get m p = Some is \<Longrightarrow> \<exists>pt. from_final_transaction cat tx p is pm source = Inr pt \<and>
       pt_begin_timestamp pt = ft_begin_timestamp tx \<and>
       pt_writes pt = filter (routes_to cat tx pm source p) (ft_writes tx) \<and>
       pt_reads pt = select_reads (belongs_to_participant (ft_table_mapping tx) pm source authority p) (ft_reads tx)"
    by (rule participants_spec) blast
  have "known_tablet (ft_table_mapping tx) (fst (doc_id ops d))" using table by (auto simp: known_tablet_name)
  moreover have "read_owner (ft_table_mapping tx) pm source authority (fst (doc_id ops d)) = None"
    using read_owner_eq [OF authority table] unowned by simp
  ultimately have owner: "belongs_to_participant (ft_table_mapping tx) pm source authority p (fst (doc_id ops d)) \<longleftrightarrow> p = pmap_local pm"
    by (rule belongs_unrouted)
  have "overlaps_document ops (pt_reads pt) d \<noteq> None \<longleftrightarrow> p = pmap_local pm \<and> overlaps_document ops (ft_reads tx) d \<noteq> None"
    if "bt_get m p = Some is" "from_final_transaction cat tx p is pm source = Inr pt" for "is" pt
  proof -
    from tx [OF that(1)] that(2) have reads: "pt_reads pt =
      select_reads (belongs_to_participant (ft_table_mapping tx) pm source authority p) (ft_reads tx)" by auto
    show ?thesis unfolding reads select_reads_overlaps [OF wf] owner ..
  qed
  moreover have "p \<in> set (bt_keys m) \<longleftrightarrow> (\<exists>is. bt_get m p = Some is)"
    by (metis bt_get_None_iff not_None_eq set_bt_keys)
  ultimately show ?thesis using tx by blast
qed

section \<open>Classification\<close>

lemma classify_transaction_cases:
  assumes c: "classify_transaction cat tx pm source = Inr c"
    and w: "w \<in> set (ft_writes tx)" "tablet_id_exists (ft_table_mapping tx) (fst (du_id w))"
  obtains parts ps m where "participant_write_indexes cat tx pm source = Inr parts" "parts \<noteq> []"
    "participant_prepare_indexes cat tx pm source = Inr m" "sorted_wrt (<) ps" "set ps = set (bt_keys m)"
    "c = (case ps of [owner] \<Rightarrow> if owner = pmap_local pm then SinglePartition else RemoteSinglePartition owner
          | _ \<Rightarrow> CrossPartition parts)"
proof -
  from c obtain parts owners where parts: "participant_write_indexes cat tx pm source = Inr parts"
    and owners: "participant_read_owners cat tx pm source = Inr owners"
    by (auto simp: classify_transaction_def split: sum.splits)
  note spec = participant_write_indexes_spec [OF parts]
  let ?ps = "fold bs_insert owners (bt_keys parts)"
  obtain m where m: "participant_prepare_indexes cat tx pm source = Inr m"
    by (simp add: participant_prepare_indexes_def parts owners)
  then have get: "bt_get m p = (case bt_get parts p of Some is \<Rightarrow> Some is | None \<Rightarrow> if p \<in> set owners then Some [] else None)" for p
    using fold_or_default_spec [OF spec(1), of owners p] by (simp add: participant_prepare_indexes_def parts owners)
  from w(2) known_write_routed [of tx w cat pm source] obtain p where "routes_to cat tx pm source p w"
    by (auto simp: known_tablet_def tablet_id_exists_def)
  with w(1) have "indexes_routed cat tx pm source p \<noteq> []" by (auto simp: indexes_routed_Nil)
  with spec(3) [of p] have ne: "parts \<noteq> []" by auto
  have "p \<in> fst ` set m \<longleftrightarrow> p \<in> fst ` set parts \<or> p \<in> set owners" for p
    using get [of p] bt_get_None_iff [of m p] bt_get_None_iff [of parts p] by (auto split: option.splits if_splits)
  then have keys: "set ?ps = set (bt_keys m)" by (auto simp: set_fold_bs_insert)
  have "sorted_wrt (<) ?ps" using spec(1) by (auto simp: bs_wf_fold_insert bt_keys_def bt_wf_def)
  moreover have "c = (case ?ps of [owner] \<Rightarrow> if owner = pmap_local pm then SinglePartition else RemoteSinglePartition owner
      | _ \<Rightarrow> CrossPartition parts)"
    using c by (simp add: classify_transaction_def parts owners ne Let_def)
  ultimately show ?thesis using that [OF parts ne m _ keys] by blast
qed

text \<open>
  C17. The classification decides the commit path from all participants, not only
  from the writes.  A transaction that writes a known table is single-partition
  exactly when the local partition is its only participant, is handed to a remote
  owner exactly when that owner is its only participant, and otherwise is
  committed in two phases over at least two participants with the writes grouped
  by partition.
\<close>
theorem classification_exact:
  assumes c: "classify_transaction cat tx pm source = Inr c"
    and w: "w \<in> set (ft_writes tx)" "tablet_id_exists (ft_table_mapping tx) (fst (du_id w))"
  shows "\<exists>m parts. participant_prepare_indexes cat tx pm source = Inr m \<and>
    participant_write_indexes cat tx pm source = Inr parts \<and>
    (c = SinglePartition \<longleftrightarrow> set (bt_keys m) = {pmap_local pm}) \<and>
    (\<forall>owner. c = RemoteSinglePartition owner \<longleftrightarrow> owner \<noteq> pmap_local pm \<and> set (bt_keys m) = {owner}) \<and>
    (\<forall>ps. c = CrossPartition ps \<longleftrightarrow> ps = parts \<and> 2 \<le> card (set (bt_keys m)))"
proof -
  from assms obtain parts ps m where parts: "participant_write_indexes cat tx pm source = Inr parts" "parts \<noteq> []"
    and m: "participant_prepare_indexes cat tx pm source = Inr m" and ps: "sorted_wrt (<) ps" "set ps = set (bt_keys m)"
    and c: "c = (case ps of [owner] \<Rightarrow> if owner = pmap_local pm then SinglePartition else RemoteSinglePartition owner
          | _ \<Rightarrow> CrossPartition parts)" by (rule classify_transaction_cases)
  have card: "card (set (bt_keys m)) = length ps"
    using distinct_card [of ps] ps by (simp add: strict_sorted_iff)
  have "bt_keys m \<noteq> []"
  proof -
    from m obtain authority where "\<And>p. bt_get m p =
       (if indexes_routed cat tx pm source p \<noteq> [] \<or> owns_read tx pm source authority p
        then Some (indexes_routed cat tx pm source p) else None)"
      by (rule participant_prepare_indexes_spec) blast
    moreover obtain p "is" qs where "parts = (p, is) # qs" using parts(2) by (cases parts) auto
    with participant_write_indexes_spec(3) [OF parts(1), of p] have "indexes_routed cat tx pm source p \<noteq> []"
      by (auto simp: bt_get_def Let_def split: if_splits)
    ultimately have "bt_get m p \<noteq> None" by simp
    then show ?thesis by (auto simp: bt_get_def bt_keys_def)
  qed
  then have "ps \<noteq> []" using ps(2) by (metis list.set(1) set_empty)
  show ?thesis
  proof (cases "length ps = 1")
    case True
    then obtain owner where [simp]: "ps = [owner]" by (cases ps) auto
    with ps(2) have "set (bt_keys m) = {owner}" by simp
    then show ?thesis using parts(1) m c by auto
  next
    case False
    with \<open>ps \<noteq> []\<close> obtain a b qs where qs: "ps = a # b # qs" by (cases ps; cases "tl ps") auto
    then have "a < b" "2 \<le> card (set (bt_keys m))" using ps(1) card by auto
    moreover have "set (bt_keys m) \<noteq> {x}" for x using ps(2) qs \<open>a < b\<close> by (metis list.set_intros less_irrefl singletonD)
    ultimately show ?thesis using parts(1) m c qs by auto
  qed
qed

section \<open>An example\<close>

definition sample_catalog :: "(resolved_document_id \<times> binary_key) catalog_ops" where
  "sample_catalog = \<lparr>parse_table_metadata = (\<lambda>_. Inl (anyhow ''not a table'')),
     parse_index_tablet = (\<lambda>_. Inl (anyhow ''not an index''))\<rparr>"

definition sample_mapping :: table_mapping where
  "sample_mapping = tm_insert [1] Global 10001 ''messages'' (tm_insert [2] Global 10002 ''users''
     (tm_insert [3] Global 20 ''_modules'' tm_new))"

definition sample_placement :: partition_map where
  "sample_placement = \<lparr>pmap_assignments = [(''messages'', 1), (''users'', 2)], pmap_local = 0,
     pmap_num_partitions = 3, pmap_version = 0\<rparr>"

definition sample_update :: "tablet_id \<Rightarrow> table_number \<Rightarrow> (resolved_document_id \<times> binary_key) document_update_with_prev_ts" where
  "sample_update t n = \<lparr>du_id = (t, n, [7]), du_old = None, du_new = Some ((t, n, [7]), [3])\<rparr>"

text \<open>
  It writes a message and a user, on partitions 1 and 2, and has read messages
  and modules on partition 0.
\<close>

definition sample_transaction :: "(resolved_document_id \<times> binary_key, unit) final_transaction" where
  "sample_transaction = \<lparr>ft_begin_timestamp = Repeatable 5, ft_table_mapping = sample_mapping,
     ft_reads = rs_new [(([1], ''by_id''), \<lparr>ir_fields = [], ir_intervals = Intervals [([2], Excluded [4])], ir_stack_traces = None\<rparr>),
       (([3], ''by_id''), \<lparr>ir_fields = [], ir_intervals = Intervals [([2], Excluded [4])], ir_stack_traces = None\<rparr>)] [],
     ft_writes = [sample_update [1] 10001, sample_update [2] 10002]\<rparr>"

lemma sample_transaction_wf: "read_set_wf (ft_reads sample_transaction)"
  by (simp add: sample_transaction_def rs_new_def read_set_wf_def names_wf_def bt_wf_def iset_wf_def entries_wf_def
      is_valid_identifier_def) code_simp

lemma sample_prepare_indexes:
  "participant_prepare_indexes sample_catalog sample_transaction sample_placement None = Inr [(1, [0]), (2, [1])]"
  by code_simp

theorem writes_split_exact_witness:
  "\<exists>pt. from_final_transaction sample_catalog sample_transaction 1 [0] sample_placement None = Inr pt \<and>
    pt_writes pt = [sample_update [1] 10001]"
proof -
  have "\<exists>pt. from_final_transaction sample_catalog sample_transaction 1 [0] sample_placement None = Inr pt \<and>
    pt_begin_timestamp pt = ft_begin_timestamp sample_transaction \<and>
    pt_writes pt = filter (routes_to sample_catalog sample_transaction sample_placement None 1) (ft_writes sample_transaction)"
    using writes_split_exact [OF sample_transaction_wf sample_prepare_indexes] by simp
  moreover have "filter (routes_to sample_catalog sample_transaction sample_placement None 1) (ft_writes sample_transaction) =
    [sample_update [1] 10001]" by code_simp
  ultimately show ?thesis by auto
qed


text \<open>A module changes between the start and the prepare, and no participant can tell.\<close>

theorem local_reads_unchecked_witness:
  "overlaps_document sample_ops (ft_reads sample_transaction) (([3], 20, [7]), [3]) \<noteq> None \<and>
   \<not> (\<exists>is pt. bt_get [(1 :: partition_id, [0]), (2, [1])] 0 = Some is \<and>
       from_final_transaction sample_catalog sample_transaction 0 is sample_placement None = Inr pt \<and>
       overlaps_document sample_ops (pt_reads pt) (([3], 20, [7]), [3]) \<noteq> None)"
proof -
  have "tablet_name (ft_table_mapping sample_transaction) (fst (doc_id sample_ops (([3], 20, [7]), [3]))) = Inr ''_modules''"
    by code_simp
  moreover have "\<not> validated_by_owner sample_catalog sample_transaction None ''_modules''"
    by (simp add: validated_by_owner_def is_system_def uses_metadata_owner_def is_catalog_table_def tables_table_def index_table_def)
  moreover have "overlaps_document sample_ops (ft_reads sample_transaction) (([3], 20, [7]), [3]) \<noteq> None" by code_simp
  ultimately show ?thesis
    using local_reads_unchecked [OF sample_transaction_wf sample_prepare_indexes,
        where ops = sample_ops and d = "(([3], 20, [7]), [3])" and p = 0]
    by (simp add: bt_keys_def)
qed

theorem classification_exact_witness:
  "classify_transaction sample_catalog sample_transaction sample_placement None = Inr (CrossPartition [(1, [0]), (2, [1])]) \<and>
   2 \<le> card (set (bt_keys [(1 :: partition_id, [0 :: nat]), (2, [1])]))"
proof -
  have c: "classify_transaction sample_catalog sample_transaction sample_placement None = Inr (CrossPartition [(1, [0]), (2, [1])])"
    by code_simp
  have "sample_update [1] 10001 \<in> set (ft_writes sample_transaction)" by (simp add: sample_transaction_def)
  moreover have "tablet_id_exists (ft_table_mapping sample_transaction) (fst (du_id (sample_update [1] 10001)))" by code_simp
  ultimately show ?thesis using classification_exact [OF c] c by (simp add: sample_prepare_indexes)
qed

end
