(* ===== verification/SnapshotManager.thy ===== *)
theory SnapshotManager
  imports Waiters Partition AnyhowErrors
begin

text \<open>
  The snapshot manager, from \<open>crates/database/src/snapshot_manager.rs\<close>, with the
  write throughput limiter of \<open>write_throughput_limiter.rs\<close>.  It keeps the recent
  versions of the in-memory state, the frontiers up to which other partitions
  have been replicated, and the tasks that wait for either.

  A snapshot is a value of the type variable \<open>'n\<close>.  \<open>closed\<close> tells which channels
  have lost their receiver; operations that wake tasks return the channels they
  send to.  Durations are in nanoseconds.  \<open>None\<close> is a panic.
\<close>

section \<open>The write throughput limiter\<close>

record write_throughput_limiter =
  wt_bytes_written :: "(timestamp \<times> u64) list"
  wt_total :: u64
  wt_max :: u64
  wt_proposed_max :: u64

definition limiter_new :: "u64 \<Rightarrow> u64 \<Rightarrow> u64 \<Rightarrow> write_throughput_limiter" where
  "limiter_new max_per_second proposed_per_second window_millis =
     \<lparr>wt_bytes_written = [], wt_total = 0,
      wt_max = max_per_second * window_millis div 1000,
      wt_proposed_max = proposed_per_second * window_millis div 1000\<rparr>"

text \<open>\<open>Sub\<close> of two timestamps, a \<open>Duration\<close>; the caller has \<open>ts\<close> after \<open>since\<close>.\<close>

definition ts_since :: "timestamp \<Rightarrow> timestamp \<Rightarrow> nat" where
  "ts_since ts since = unat (ts - since)"

fun evict_writes :: "nat \<Rightarrow> timestamp \<Rightarrow> (timestamp \<times> u64) list \<Rightarrow> u64 \<Rightarrow> (timestamp \<times> u64) list \<times> u64" where
  "evict_writes window ts [] in_window = ([], in_window)"
| "evict_writes window ts ((event_ts, bytes) # ws) in_window =
     (if ts_since ts event_ts > window then evict_writes window ts ws (saturating_sub in_window bytes)
      else ((event_ts, bytes) # ws, in_window))"

definition record_write ::
  "nat \<Rightarrow> timestamp \<Rightarrow> u64 \<Rightarrow> write_throughput_limiter \<Rightarrow> write_throughput_limiter" where
  "record_write window ts bytes l =
     (let (ws, in_window) = evict_writes window ts (wt_bytes_written l) (wt_total l)
      in l\<lparr>wt_bytes_written := ws @ [(ts, bytes)], wt_total := in_window + bytes\<rparr>)"

definition check_limit :: "write_throughput_limiter \<Rightarrow> bool" where
  "check_limit l = (\<not> wt_total l > wt_max l)"

section \<open>The manager\<close>

record 'n snapshot_manager =
  sm_persisted_max_repeatable_ts :: timestamp
  sm_versions :: "(timestamp \<times> 'n) list"
  sm_replication_frontiers :: "(partition_id, timestamp) btree_map"
  sm_replication_write_frontiers :: "(partition_id, timestamp) btree_map"
  sm_applied_delta_watermarks :: "(partition_id, timestamp) btree_map"
  sm_limiter :: write_throughput_limiter
  sm_waiters :: "waiter list"
  sm_replication_waiters :: "(partition_id, waiter list) btree_map"
  sm_replication_write_waiters :: "(partition_id, waiter list) btree_map"
  sm_applied_delta_watermark_waiters :: "(partition_id, waiter list) btree_map"

definition cap_frontiers :: "timestamp \<Rightarrow> (partition_id, timestamp) btree_map \<Rightarrow> (partition_id, timestamp) btree_map" where
  "cap_frontiers ts frontiers = map (\<lambda>(p, f). (p, min f ts)) frontiers"

definition sm_new ::
  "write_throughput_limiter \<Rightarrow> timestamp \<Rightarrow> 'n \<Rightarrow> (partition_id, timestamp) btree_map \<Rightarrow>
   (partition_id, timestamp) btree_map \<Rightarrow> 'n snapshot_manager" where
  "sm_new limiter initial_ts initial_snapshot frontiers watermarks =
     \<lparr>sm_persisted_max_repeatable_ts = initial_ts, sm_versions = [(initial_ts, initial_snapshot)],
      sm_replication_frontiers = frontiers,
      sm_replication_write_frontiers = cap_frontiers initial_ts frontiers,
      sm_applied_delta_watermarks = watermarks, sm_limiter = limiter, sm_waiters = [],
      sm_replication_waiters = [], sm_replication_write_waiters = [],
      sm_applied_delta_watermark_waiters = []\<rparr>"

definition sm_latest :: "'n snapshot_manager \<Rightarrow> (repeatable_timestamp \<times> 'n) option" where
  "sm_latest sm = (if sm_versions sm = [] then None
                   else Some (Repeatable (fst (last (sm_versions sm))), snd (last (sm_versions sm))))"

definition sm_latest_snapshot :: "'n snapshot_manager \<Rightarrow> 'n option" where
  "sm_latest_snapshot sm = map_option snd (sm_latest sm)"

definition sm_earliest_ts :: "'n snapshot_manager \<Rightarrow> timestamp option" where
  "sm_earliest_ts sm = (case sm_versions sm of [] \<Rightarrow> None | (ts, _) # _ \<Rightarrow> Some ts)"

definition sm_latest_ts :: "'n snapshot_manager \<Rightarrow> repeatable_timestamp option" where
  "sm_latest_ts sm = (if sm_versions sm = [] then None else Some (Repeatable (fst (last (sm_versions sm)))))"

definition sm_notify_waiters ::
  "(nat \<Rightarrow> bool) \<Rightarrow> 'n snapshot_manager \<Rightarrow> ('n snapshot_manager \<times> nat list) option" where
  "sm_notify_waiters closed sm =
     (case sm_latest_ts sm of
        None \<Rightarrow> None
      | Some ts \<Rightarrow>
          let (ws, sent) = drain_waiters (\<lambda>(target, channel). repeatable_ts ts > target \<or> closed channel) 0
                             (sm_waiters sm) []
          in Some (sm\<lparr>sm_waiters := ws\<rparr>, sent))"

text \<open>The three functions that wake the waiters of one partition are the same code on other fields.\<close>

definition notify_partition_waiters ::
  "(nat \<Rightarrow> bool) \<Rightarrow> (partition_id, timestamp) btree_map \<Rightarrow> partition_id \<Rightarrow>
   (partition_id, waiter list) btree_map \<Rightarrow> (partition_id, waiter list) btree_map \<times> nat list" where
  "notify_partition_waiters closed frontiers p waiters =
     (case bt_get frontiers p of
        None \<Rightarrow> (waiters, [])
      | Some frontier \<Rightarrow>
          (case bt_get waiters p of
             None \<Rightarrow> (waiters, [])
           | Some ws \<Rightarrow>
               let (ws', sent) = drain_waiters (\<lambda>(target, channel). frontier \<ge> target \<or> closed channel) 0 ws []
               in (if ws' = [] then bt_remove p waiters else bt_insert p ws' waiters, sent)))"

definition notify_replication_waiters ::
  "(nat \<Rightarrow> bool) \<Rightarrow> partition_id \<Rightarrow> 'n snapshot_manager \<Rightarrow> 'n snapshot_manager \<times> nat list" where
  "notify_replication_waiters closed p sm =
     (let (ws, sent) = notify_partition_waiters closed (sm_replication_frontiers sm) p (sm_replication_waiters sm)
      in (sm\<lparr>sm_replication_waiters := ws\<rparr>, sent))"

definition notify_replication_write_waiters ::
  "(nat \<Rightarrow> bool) \<Rightarrow> partition_id \<Rightarrow> 'n snapshot_manager \<Rightarrow> 'n snapshot_manager \<times> nat list" where
  "notify_replication_write_waiters closed p sm =
     (let (ws, sent) = notify_partition_waiters closed (sm_replication_write_frontiers sm) p (sm_replication_write_waiters sm)
      in (sm\<lparr>sm_replication_write_waiters := ws\<rparr>, sent))"

definition notify_applied_delta_watermark_waiters ::
  "(nat \<Rightarrow> bool) \<Rightarrow> partition_id \<Rightarrow> 'n snapshot_manager \<Rightarrow> 'n snapshot_manager \<times> nat list" where
  "notify_applied_delta_watermark_waiters closed p sm =
     (let (ws, sent) = notify_partition_waiters closed (sm_applied_delta_watermarks sm) p (sm_applied_delta_watermark_waiters sm)
      in (sm\<lparr>sm_applied_delta_watermark_waiters := ws\<rparr>, sent))"

text \<open>The result tells whether the channel \<open>fresh\<close> is queued.\<close>

definition sm_wait_for_higher_ts ::
  "(nat \<Rightarrow> bool) \<Rightarrow> timestamp \<Rightarrow> nat \<Rightarrow> 'n snapshot_manager \<Rightarrow> ((bool \<times> 'n snapshot_manager) \<times> nat list) option" where
  "sm_wait_for_higher_ts closed target fresh sm =
     (case sm_notify_waiters closed sm of
        None \<Rightarrow> None
      | Some (sm1, sent) \<Rightarrow>
          (case sm_latest_ts sm1 of
             None \<Rightarrow> None
           | Some ts \<Rightarrow>
               Some (if repeatable_ts ts \<le> target
                     then ((True, sm1\<lparr>sm_waiters := sm_waiters sm1 @ [(target, fresh)]\<rparr>), sent)
                     else ((False, sm1), sent))))"

definition replication_frontier :: "'n snapshot_manager \<Rightarrow> partition_id \<Rightarrow> timestamp option" where
  "replication_frontier sm p = bt_get (sm_replication_frontiers sm) p"

definition replication_write_frontier :: "'n snapshot_manager \<Rightarrow> partition_id \<Rightarrow> timestamp option" where
  "replication_write_frontier sm p = bt_get (sm_replication_write_frontiers sm) p"

definition applied_delta_watermark :: "'n snapshot_manager \<Rightarrow> partition_id \<Rightarrow> timestamp option" where
  "applied_delta_watermark sm p = bt_get (sm_applied_delta_watermarks sm) p"

definition went_backward :: "string \<Rightarrow> partition_id \<Rightarrow> anyhow_error" where
  "went_backward what p = anyhow (what @ '' for '' @ decimal (unat p) @ '' went backward'')"

definition update_replication_frontier ::
  "(nat \<Rightarrow> bool) \<Rightarrow> partition_id \<Rightarrow> timestamp \<Rightarrow> 'n snapshot_manager \<Rightarrow>
   (anyhow_error + bool) \<times> 'n snapshot_manager \<times> nat list" where
  "update_replication_frontier closed p ts sm =
     (let insert_frontier = (Inr True, notify_replication_waiters closed p
            (sm\<lparr>sm_replication_frontiers := bt_insert p ts (sm_replication_frontiers sm)\<rparr>)) in
      case bt_get (sm_replication_frontiers sm) p of
        Some current \<Rightarrow>
          if \<not> ts \<ge> current then (Inl (went_backward ''replication frontier'' p), sm, [])
          else if ts = current then (Inr False, sm, []) else insert_frontier
      | None \<Rightarrow> insert_frontier)"

definition update_replication_write_frontier ::
  "(nat \<Rightarrow> bool) \<Rightarrow> partition_id \<Rightarrow> timestamp \<Rightarrow> 'n snapshot_manager \<Rightarrow>
   (anyhow_error + bool) \<times> 'n snapshot_manager \<times> nat list" where
  "update_replication_write_frontier closed p ts sm =
     (let insert_frontier = (Inr True, notify_replication_write_waiters closed p
            (sm\<lparr>sm_replication_write_frontiers := bt_insert p ts (sm_replication_write_frontiers sm)\<rparr>)) in
      case bt_get (sm_replication_write_frontiers sm) p of
        Some current \<Rightarrow>
          if \<not> ts \<ge> current then (Inl (went_backward ''replication write frontier'' p), sm, [])
          else if ts = current then (Inr False, sm, []) else insert_frontier
      | None \<Rightarrow> insert_frontier)"

definition update_applied_delta_watermark ::
  "(nat \<Rightarrow> bool) \<Rightarrow> partition_id \<Rightarrow> timestamp \<Rightarrow> 'n snapshot_manager \<Rightarrow>
   (anyhow_error + bool) \<times> 'n snapshot_manager \<times> nat list" where
  "update_applied_delta_watermark closed p ts sm =
     (let insert_watermark = (Inr True, notify_applied_delta_watermark_waiters closed p
            (sm\<lparr>sm_applied_delta_watermarks := bt_insert p ts (sm_applied_delta_watermarks sm)\<rparr>)) in
      case bt_get (sm_applied_delta_watermarks sm) p of
        Some current \<Rightarrow>
          if \<not> ts \<ge> current then (Inl (went_backward ''applied delta watermark'' p), sm, [])
          else if ts = current then (Inr False, sm, []) else insert_watermark
      | None \<Rightarrow> insert_watermark)"

definition reached :: "(partition_id, timestamp) btree_map \<Rightarrow> partition_id \<Rightarrow> timestamp \<Rightarrow> bool" where
  "reached frontiers p target = (case bt_get frontiers p of None \<Rightarrow> False | Some f \<Rightarrow> f \<ge> target)"

definition push_waiter ::
  "partition_id \<Rightarrow> waiter \<Rightarrow> (partition_id, waiter list) btree_map \<Rightarrow> (partition_id, waiter list) btree_map" where
  "push_waiter p w waiters = bt_insert p ((case bt_get waiters p of None \<Rightarrow> [] | Some ws \<Rightarrow> ws) @ [w]) waiters"

definition wait_for_replication_frontier ::
  "(nat \<Rightarrow> bool) \<Rightarrow> partition_id \<Rightarrow> timestamp \<Rightarrow> nat \<Rightarrow> 'n snapshot_manager \<Rightarrow> (bool \<times> 'n snapshot_manager) \<times> nat list" where
  "wait_for_replication_frontier closed p target fresh sm =
     (let (sm1, sent) = notify_replication_waiters closed p sm in
      (if reached (sm_replication_frontiers sm1) p target then (False, sm1)
       else (True, sm1\<lparr>sm_replication_waiters := push_waiter p (target, fresh) (sm_replication_waiters sm1)\<rparr>), sent))"

definition wait_for_replication_write_frontier ::
  "(nat \<Rightarrow> bool) \<Rightarrow> partition_id \<Rightarrow> timestamp \<Rightarrow> nat \<Rightarrow> 'n snapshot_manager \<Rightarrow> (bool \<times> 'n snapshot_manager) \<times> nat list" where
  "wait_for_replication_write_frontier closed p target fresh sm =
     (let (sm1, sent) = notify_replication_write_waiters closed p sm in
      (if reached (sm_replication_write_frontiers sm1) p target then (False, sm1)
       else (True, sm1\<lparr>sm_replication_write_waiters := push_waiter p (target, fresh) (sm_replication_write_waiters sm1)\<rparr>), sent))"

definition wait_for_applied_delta_watermark ::
  "(nat \<Rightarrow> bool) \<Rightarrow> partition_id \<Rightarrow> timestamp \<Rightarrow> nat \<Rightarrow> 'n snapshot_manager \<Rightarrow> (bool \<times> 'n snapshot_manager) \<times> nat list" where
  "wait_for_applied_delta_watermark closed p target fresh sm =
     (let (sm1, sent) = notify_applied_delta_watermark_waiters closed p sm in
      (if reached (sm_applied_delta_watermarks sm1) p target then (False, sm1)
       else (True, sm1\<lparr>sm_applied_delta_watermark_waiters := push_waiter p (target, fresh) (sm_applied_delta_watermark_waiters sm1)\<rparr>), sent))"

definition persisted_max_repeatable_ts :: "'n snapshot_manager \<Rightarrow> repeatable_timestamp option" where
  "persisted_max_repeatable_ts sm =
     (case sm_latest_ts sm of
        None \<Rightarrow> None
      | Some latest \<Rightarrow>
          (case prior_ts latest (sm_persisted_max_repeatable_ts sm) of Inl _ \<Rightarrow> None | Inr ts \<Rightarrow> Some ts))"

section \<open>Versions\<close>

text \<open>
  \<open>binary_search_by_key\<close> on the ascending versions: the last version at or
  before the timestamp.
\<close>

definition sm_snapshot :: "timestamp \<Rightarrow> 'n snapshot_manager \<Rightarrow> (anyhow_error + 'n) option" where
  "sm_snapshot ts sm =
     (case (sm_earliest_ts sm, sm_latest_ts sm) of
        (Some earliest, Some latest) \<Rightarrow>
          Some (if ts < earliest then Inl (anyhow ''Timestamp is too early, retry with a higher timestamp'')
                else if \<not> ts \<le> repeatable_ts latest then Inl (anyhow ''Timestamp is more recent than latest_ts'')
                else Inr (snd (sm_versions sm ! (length (takeWhile (\<lambda>v. fst v \<le> ts) (sm_versions sm)) - 1))))
      | _ \<Rightarrow> None)"

text \<open>The oldest version is dropped when its successor has left the transaction window.\<close>

fun prune_versions :: "nat \<Rightarrow> timestamp \<Rightarrow> (timestamp \<times> 'n) list \<Rightarrow> (timestamp \<times> 'n) list" where
  "prune_versions window ts (v # successor # vs) =
     (if ts_since ts (fst successor) > window then prune_versions window ts (successor # vs)
      else v # successor # vs)"
| "prune_versions window ts vs = vs"

definition sm_push ::
  "(nat \<Rightarrow> bool) \<Rightarrow> nat \<Rightarrow> nat \<Rightarrow> timestamp \<Rightarrow> 'n \<Rightarrow> u64 \<Rightarrow> 'n snapshot_manager \<Rightarrow>
   ('n snapshot_manager \<times> nat list) option" where
  "sm_push closed transaction_window throughput_window ts snapshot write_bytes sm =
     (case sm_latest_ts sm of
        None \<Rightarrow> None
      | Some latest \<Rightarrow>
          if \<not> repeatable_ts latest < ts then None
          else
            (case sm_notify_waiters closed
                    (sm\<lparr>sm_versions := prune_versions transaction_window ts (sm_versions sm) @ [(ts, snapshot)]\<rparr>) of
               None \<Rightarrow> None
             | Some (sm1, sent) \<Rightarrow>
                 Some (sm1\<lparr>sm_limiter := record_write throughput_window ts write_bytes (sm_limiter sm1)\<rparr>, sent)))"

definition notify_each ::
  "(partition_id \<Rightarrow> 'n snapshot_manager \<Rightarrow> 'n snapshot_manager \<times> nat list) \<Rightarrow> partition_id list \<Rightarrow>
   'n snapshot_manager \<times> nat list \<Rightarrow> 'n snapshot_manager \<times> nat list" where
  "notify_each notify ps = fold (\<lambda>p (sm, sent). let (sm', sent') = notify p sm in (sm', sent @ sent')) ps"

definition sm_replace ::
  "(nat \<Rightarrow> bool) \<Rightarrow> timestamp \<Rightarrow> 'n \<Rightarrow> (partition_id, timestamp) btree_map \<Rightarrow> (partition_id, timestamp) btree_map \<Rightarrow>
   'n snapshot_manager \<Rightarrow> ('n snapshot_manager \<times> nat list) option" where
  "sm_replace closed ts snapshot frontiers watermarks sm =
     map_option
       (notify_each (notify_applied_delta_watermark_waiters closed) (bt_keys watermarks) \<circ>
        notify_each (\<lambda>p sm. let (sm1, sent1) = notify_replication_waiters closed p sm;
                                (sm2, sent2) = notify_replication_write_waiters closed p sm1
                            in (sm2, sent1 @ sent2)) (bt_keys frontiers))
       (sm_notify_waiters closed
          (sm\<lparr>sm_versions := [(ts, snapshot)], sm_persisted_max_repeatable_ts := ts,
             sm_replication_frontiers := frontiers,
             sm_replication_write_frontiers := cap_frontiers ts frontiers,
             sm_applied_delta_watermarks := watermarks\<rparr>))"

definition check_write_throughput_limit :: "'n snapshot_manager \<Rightarrow> anyhow_error + unit" where
  "check_write_throughput_limit sm =
     (if \<not> check_limit (sm_limiter sm) then Inl (anyhow ''TooManyWrites'') else Inr ())"

definition bump_persisted_max_repeatable_ts ::
  "(nat \<Rightarrow> bool) \<Rightarrow> nat \<Rightarrow> nat \<Rightarrow> timestamp \<Rightarrow> 'n snapshot_manager \<Rightarrow>
   ((anyhow_error + bool) \<times> 'n snapshot_manager \<times> nat list) option" where
  "bump_persisted_max_repeatable_ts closed transaction_window throughput_window ts sm =
     (if \<not> ts \<ge> sm_persisted_max_repeatable_ts sm
      then Some (Inl (anyhow ''persisted_max_repeatable_ts went backward''), sm, [])
      else
        let sm1 = sm\<lparr>sm_persisted_max_repeatable_ts := ts\<rparr> in
        case sm_latest sm1 of
          None \<Rightarrow> None
        | Some (latest, snapshot) \<Rightarrow>
            if ts > repeatable_ts latest
            then map_option (\<lambda>(sm2, sent). (Inr True, sm2, sent))
                   (sm_push closed transaction_window throughput_window ts snapshot 0 sm1)
            else Some (Inr False, sm1, []))"

section \<open>Waiters\<close>

named_theorems sm_defs \<open>operations that only wake tasks or move frontiers\<close>

lemmas [sm_defs] = notify_replication_waiters_def notify_replication_write_waiters_def
  notify_applied_delta_watermark_waiters_def

text \<open>Nobody in a queue waits for a timestamp that the frontier of the partition has reached.\<close>

definition queues_wait_but ::
  "partition_id set \<Rightarrow> (partition_id, timestamp) btree_map \<Rightarrow> (partition_id, waiter list) btree_map \<Rightarrow> bool" where
  "queues_wait_but Q frontiers waiters \<longleftrightarrow> bt_wf frontiers \<and> bt_wf waiters \<and>
     (\<forall>p ws target channel. p \<notin> Q \<and> bt_get waiters p = Some ws \<and> (target, channel) \<in> set ws \<longrightarrow>
        \<not> reached frontiers p target)"

abbreviation queues_wait ::
  "(partition_id, timestamp) btree_map \<Rightarrow> (partition_id, waiter list) btree_map \<Rightarrow> bool" where
  "queues_wait \<equiv> queues_wait_but {}"

lemma notify_partition_wait:
  assumes q: "queues_wait_but (insert p Q) frontiers waiters" and n: "notify_partition_waiters closed frontiers p waiters = (waiters', sent)"
  shows "queues_wait_but Q frontiers waiters'"
proof (cases "\<exists>frontier ws. bt_get frontiers p = Some frontier \<and> bt_get waiters p = Some ws")
  case False
  then have eq: "waiters' = waiters" using n by (auto simp: notify_partition_waiters_def split: option.splits)
  from q have wf: "bt_wf frontiers" "bt_wf waiters" by (simp_all add: queues_wait_but_def)
  have "\<not> reached frontiers r target" if "r \<notin> Q" "bt_get waiters r = Some ws" "(target, channel) \<in> set ws" for r ws target channel
  proof (cases "r = p")
    case True
    with False that(2) show ?thesis by (auto simp: reached_def)
  next
    case False
    with q that show ?thesis unfolding queues_wait_but_def by blast
  qed
  with wf show ?thesis unfolding eq queues_wait_but_def by blast
next
  case True
  then obtain frontier ws where get: "bt_get frontiers p = Some frontier" "bt_get waiters p = Some ws" by blast
  obtain ws' out where d: "drain_waiters (\<lambda>(target, channel). frontier \<ge> target \<or> closed channel) 0 ws [] = (ws', out)"
    by fastforce
  have eq: "waiters' = (if ws' = [] then bt_remove p waiters else bt_insert p ws' waiters)"
    using n by (simp add: notify_partition_waiters_def get d)
  from q have wf: "bt_wf frontiers" "bt_wf waiters" by (simp_all add: queues_wait_but_def)
  have "\<not> reached frontiers r target" if r: "r \<notin> Q" "bt_get waiters' r = Some vs" "(target, channel) \<in> set vs" for r vs target channel
  proof (cases "r = p")
    case True
    with r eq have "(target, channel) \<in> set ws'"
      by (auto simp: bt_get_remove bt_get_insert [OF wf(2)] split: if_splits)
    then show ?thesis using drain_waiters_spec(3) [OF d] get(1) True by (auto simp: reached_def)
  next
    case False
    with r(2) have "bt_get waiters r = Some vs"
      by (auto simp: eq bt_get_remove bt_get_insert [OF wf(2)] split: if_splits)
    with False q r(1,3) show ?thesis unfolding queues_wait_but_def by blast
  qed
  moreover have "bt_wf waiters'" using wf(2) by (simp add: eq)
  ultimately show ?thesis using wf(1) unfolding queues_wait_but_def by blast
qed

lemma queues_wait_but_insert:
  assumes "queues_wait frontiers waiters"
  shows "queues_wait_but {p} (bt_insert p ts frontiers) waiters"
proof -
  from assms have wf: "bt_wf frontiers" "bt_wf waiters" by (simp_all add: queues_wait_but_def)
  have "reached (bt_insert p ts frontiers) r target = reached frontiers r target" if "r \<noteq> p" for r target
    using that by (simp add: reached_def bt_get_insert [OF wf(1)])
  with assms wf show ?thesis unfolding queues_wait_but_def by auto
qed

lemma queues_wait_weaken: "queues_wait frontiers waiters \<Longrightarrow> queues_wait_but {p} frontiers waiters"
  by (auto simp: queues_wait_but_def)

lemma queues_wait_push:
  assumes q: "queues_wait frontiers waiters" and "\<not> reached frontiers p target"
  shows "queues_wait frontiers (push_waiter p (target, fresh) waiters)"
proof -
  from q have wf: "bt_wf frontiers" "bt_wf waiters" by (simp_all add: queues_wait_but_def)
  have "\<not> reached frontiers r t" if "bt_get (push_waiter p (target, fresh) waiters) r = Some ws" "(t, c) \<in> set ws" for r ws t c
  proof (cases "r = p")
    case True
    with that have "(t, c) = (target, fresh) \<or> (\<exists>vs. bt_get waiters p = Some vs \<and> (t, c) \<in> set vs)"
      by (auto simp: push_waiter_def bt_get_insert [OF wf(2)] split: option.splits)
    with True assms(2) q show ?thesis unfolding queues_wait_but_def by blast
  next
    case False
    with that(1) have "bt_get waiters r = Some ws" by (simp add: push_waiter_def bt_get_insert [OF wf(2)])
    with that(2) q show ?thesis unfolding queues_wait_but_def by blast
  qed
  moreover have "bt_wf (push_waiter p (target, fresh) waiters)" using wf(2) by (simp add: push_waiter_def)
  ultimately show ?thesis using wf(1) unfolding queues_wait_but_def by blast
qed

definition waits_past :: "timestamp \<Rightarrow> waiter list \<Rightarrow> bool" where
  "waits_past ts ws \<longleftrightarrow> (\<forall>w \<in> set ws. ts \<le> fst w)"

lemma waits_past_simps [simp]: "waits_past ts []" "waits_past ts (ws @ vs) \<longleftrightarrow> waits_past ts ws \<and> waits_past ts vs"
  "waits_past ts (w # ws) \<longleftrightarrow> ts \<le> fst w \<and> waits_past ts ws"
  by (auto simp: waits_past_def)

definition waiting :: "'n snapshot_manager \<Rightarrow> bool" where
  "waiting sm \<longleftrightarrow> sm_versions sm \<noteq> [] \<and>
     waits_past (fst (last (sm_versions sm))) (sm_waiters sm) \<and>
     queues_wait (sm_replication_frontiers sm) (sm_replication_waiters sm) \<and>
     queues_wait (sm_replication_write_frontiers sm) (sm_replication_write_waiters sm) \<and>
     queues_wait (sm_applied_delta_watermarks sm) (sm_applied_delta_watermark_waiters sm)"

text \<open>What an operation that only wakes tasks or moves frontiers keeps.\<close>

definition same_versions :: "'n snapshot_manager \<Rightarrow> 'n snapshot_manager \<Rightarrow> bool" where
  "same_versions sm sm' \<longleftrightarrow> sm_versions sm' = sm_versions sm \<and>
     sm_persisted_max_repeatable_ts sm' = sm_persisted_max_repeatable_ts sm"

lemma sm_notify_waiters_spec:
  assumes "sm_notify_waiters closed sm = Some (sm', sent)"
  shows "\<exists>ws. sm' = sm\<lparr>sm_waiters := ws\<rparr> \<and> sm_versions sm \<noteq> [] \<and>
    waits_past (fst (last (sm_versions sm))) ws"
proof -
  from assms have v: "sm_versions sm \<noteq> []" by (auto simp: sm_notify_waiters_def sm_latest_ts_def)
  obtain ws out where d: "drain_waiters (\<lambda>(target, channel). fst (last (sm_versions sm)) > target \<or> closed channel) 0
      (sm_waiters sm) [] = (ws, out)" by fastforce
  with assms v have "sm' = sm\<lparr>sm_waiters := ws\<rparr>" by (simp add: sm_notify_waiters_def sm_latest_ts_def)
  with v drain_waiters_spec(3) [OF d] show ?thesis by (intro exI [of _ ws]) (auto simp: waits_past_def)
qed

lemma sm_notify_waiters_total: "sm_versions sm \<noteq> [] \<Longrightarrow> sm_notify_waiters closed sm \<noteq> None"
  by (simp add: sm_notify_waiters_def sm_latest_ts_def split: prod.split)

lemma waiting_notify_partition:
  "waiting sm \<Longrightarrow> notify_replication_waiters closed p sm = (sm', sent) \<Longrightarrow> waiting sm' \<and> same_versions sm sm'"
  "waiting sm \<Longrightarrow> notify_replication_write_waiters closed p sm = (sm', sent) \<Longrightarrow> waiting sm' \<and> same_versions sm sm'"
  "waiting sm \<Longrightarrow> notify_applied_delta_watermark_waiters closed p sm = (sm', sent) \<Longrightarrow> waiting sm' \<and> same_versions sm sm'"
  by (auto simp: waiting_def sm_defs same_versions_def split: prod.splits
      dest: notify_partition_wait [OF queues_wait_weaken])

lemma waiting_update_frontier:
  assumes "waiting sm"
  shows "update_replication_frontier closed p ts sm = (r, sm', sent) \<Longrightarrow> waiting sm' \<and> same_versions sm sm'"
    "update_replication_write_frontier closed p ts sm = (r, sm', sent) \<Longrightarrow> waiting sm' \<and> same_versions sm sm'"
    "update_applied_delta_watermark closed p ts sm = (r, sm', sent) \<Longrightarrow> waiting sm' \<and> same_versions sm sm'"
  using assms
  by (auto simp: waiting_def update_replication_frontier_def update_replication_write_frontier_def
      update_applied_delta_watermark_def sm_defs same_versions_def Let_def
      split: prod.splits option.splits if_splits
      dest: notify_partition_wait [OF queues_wait_but_insert])

lemma queues_wait_wait:
  assumes "queues_wait frontiers waiters" "notify_partition_waiters closed frontiers p waiters = (waiters', sent)"
  shows "queues_wait frontiers waiters'"
    "\<not> reached frontiers p target \<Longrightarrow> queues_wait frontiers (push_waiter p (target, fresh) waiters')"
  using notify_partition_wait [OF queues_wait_weaken [OF assms(1)] assms(2)] by (simp_all add: queues_wait_push)

lemma waiting_wait_frontier:
  assumes "waiting sm"
  shows "wait_for_replication_frontier closed p target fresh sm = ((q, sm'), sent) \<Longrightarrow> waiting sm' \<and> same_versions sm sm'"
    "wait_for_replication_write_frontier closed p target fresh sm = ((q, sm'), sent) \<Longrightarrow> waiting sm' \<and> same_versions sm sm'"
    "wait_for_applied_delta_watermark closed p target fresh sm = ((q, sm'), sent) \<Longrightarrow> waiting sm' \<and> same_versions sm sm'"
proof -
  note wait_defs = wait_for_replication_frontier_def wait_for_replication_write_frontier_def
    wait_for_applied_delta_watermark_def sm_defs
  note [simp] = waiting_def same_versions_def
  show "waiting sm' \<and> same_versions sm sm'" if "wait_for_replication_frontier closed p target fresh sm = ((q, sm'), sent)"
  proof -
    obtain ws out where "notify_partition_waiters closed (sm_replication_frontiers sm) p (sm_replication_waiters sm) = (ws, out)"
      by fastforce
    with queues_wait_wait [OF _ this] assms that show ?thesis by (auto simp: wait_defs split: if_splits)
  qed
  show "waiting sm' \<and> same_versions sm sm'" if "wait_for_replication_write_frontier closed p target fresh sm = ((q, sm'), sent)"
  proof -
    obtain ws out where "notify_partition_waiters closed (sm_replication_write_frontiers sm) p (sm_replication_write_waiters sm) = (ws, out)"
      by fastforce
    with queues_wait_wait [OF _ this] assms that show ?thesis by (auto simp: wait_defs split: if_splits)
  qed
  show "waiting sm' \<and> same_versions sm sm'" if "wait_for_applied_delta_watermark closed p target fresh sm = ((q, sm'), sent)"
  proof -
    obtain ws out where "notify_partition_waiters closed (sm_applied_delta_watermarks sm) p (sm_applied_delta_watermark_waiters sm) = (ws, out)"
      by fastforce
    with queues_wait_wait [OF _ this] assms that show ?thesis by (auto simp: wait_defs split: if_splits)
  qed
qed

lemma waiting_wait_for_higher_ts:
  assumes "waiting sm" "sm_wait_for_higher_ts closed target fresh sm = Some ((q, sm'), sent)"
  shows "waiting sm' \<and> same_versions sm sm'"
proof -
  from assms(2) obtain sm1 where n: "sm_notify_waiters closed sm = Some (sm1, sent)"
    and q: "(if fst (last (sm_versions sm1)) \<le> target then sm1\<lparr>sm_waiters := sm_waiters sm1 @ [(target, fresh)]\<rparr> else sm1) = sm'"
    by (auto simp: sm_wait_for_higher_ts_def sm_latest_ts_def split: option.splits if_splits)
  from sm_notify_waiters_spec [OF n] assms(1) q show ?thesis
    by (auto simp: waiting_def same_versions_def split: if_splits)
qed

lemma waiting_push:
  assumes "waiting sm" "sm_push closed w tw ts snapshot bytes sm = Some (sm', sent)"
  shows "waiting sm' \<and> sm_versions sm' = prune_versions w ts (sm_versions sm) @ [(ts, snapshot)] \<and>
    sm_persisted_max_repeatable_ts sm' = sm_persisted_max_repeatable_ts sm \<and> fst (last (sm_versions sm)) < ts"
proof -
  let ?vs = "prune_versions w ts (sm_versions sm) @ [(ts, snapshot)]"
  from assms have lt: "fst (last (sm_versions sm)) < ts"
    by (auto simp: sm_push_def sm_latest_ts_def split: if_splits)
  with assms obtain sm1 where n: "sm_notify_waiters closed (sm\<lparr>sm_versions := ?vs\<rparr>) = Some (sm1, sent)"
    and sm': "sm' = sm1\<lparr>sm_limiter := record_write tw ts bytes (sm_limiter sm1)\<rparr>"
    by (auto simp: sm_push_def sm_latest_ts_def split: if_splits option.splits)
  from sm_notify_waiters_spec [OF n] assms(1) sm' lt show ?thesis by (auto simp: waiting_def)
qed

lemma sm_push_total:
  "sm_versions sm \<noteq> [] \<Longrightarrow> fst (last (sm_versions sm)) < ts \<Longrightarrow> \<exists>sm' sent. sm_push closed w tw ts snapshot bytes sm = Some (sm', sent)"
  using sm_notify_waiters_total [of "sm\<lparr>sm_versions := prune_versions w ts (sm_versions sm) @ [(ts, snapshot)]\<rparr>" closed]
  by (auto simp: sm_push_def sm_latest_ts_def split: option.splits)

lemma waiting_bump:
  assumes "waiting sm" "bump_persisted_max_repeatable_ts closed w tw ts sm = Some (r, sm', sent)"
  shows "waiting sm' \<and> (if r = Inr True
    then sm_versions sm' = prune_versions w ts (sm_versions sm) @ [(ts, snd (last (sm_versions sm)))] \<and>
      fst (last (sm_versions sm)) < ts
    else sm_versions sm' = sm_versions sm)"
proof -
  have w: "waiting (sm\<lparr>sm_persisted_max_repeatable_ts := ts\<rparr>)" using assms(1) by (simp add: waiting_def)
  show ?thesis
  proof (cases "sm_persisted_max_repeatable_ts sm \<le> ts \<and> fst (last (sm_versions sm)) < ts")
    case True
    with assms have "sm_push closed w tw ts (snd (last (sm_versions sm))) 0 (sm\<lparr>sm_persisted_max_repeatable_ts := ts\<rparr>) = Some (sm', sent) \<and> r = Inr True"
      by (auto simp: bump_persisted_max_repeatable_ts_def sm_latest_def waiting_def)
    with waiting_push [OF w, of closed w] show ?thesis by auto
  next
    case False
    with assms w show ?thesis
      by (auto simp: bump_persisted_max_repeatable_ts_def sm_latest_def waiting_def split: if_splits)
  qed
qed

text \<open>The state of \<open>replace\<close> while the waiters of the partitions in \<open>R\<close>, \<open>W\<close> and \<open>D\<close> are still to be woken.\<close>

definition waiting_but :: "partition_id set \<Rightarrow> partition_id set \<Rightarrow> partition_id set \<Rightarrow> 'n snapshot_manager \<Rightarrow> bool" where
  "waiting_but R W D sm \<longleftrightarrow> sm_versions sm \<noteq> [] \<and> waits_past (fst (last (sm_versions sm))) (sm_waiters sm) \<and>
     queues_wait_but R (sm_replication_frontiers sm) (sm_replication_waiters sm) \<and>
     queues_wait_but W (sm_replication_write_frontiers sm) (sm_replication_write_waiters sm) \<and>
     queues_wait_but D (sm_applied_delta_watermarks sm) (sm_applied_delta_watermark_waiters sm)"

lemma waiting_but_notify:
  "waiting_but (insert p R) W D sm \<Longrightarrow> notify_replication_waiters closed p sm = (sm', sent) \<Longrightarrow>
     waiting_but R W D sm' \<and> same_versions sm sm'"
  "waiting_but R (insert p W) D sm \<Longrightarrow> notify_replication_write_waiters closed p sm = (sm', sent) \<Longrightarrow>
     waiting_but R W D sm' \<and> same_versions sm sm'"
  "waiting_but R W (insert p D) sm \<Longrightarrow> notify_applied_delta_watermark_waiters closed p sm = (sm', sent) \<Longrightarrow>
     waiting_but R W D sm' \<and> same_versions sm sm'"
  by (auto simp: waiting_but_def sm_defs same_versions_def split: prod.splits dest: notify_partition_wait)

lemma notify_each_frontiers:
  assumes "waiting_but (set ps) (set ps) D sm"
    "notify_each (\<lambda>p sm. let (sm1, sent1) = notify_replication_waiters closed p sm;
                           (sm2, sent2) = notify_replication_write_waiters closed p sm1
                       in (sm2, sent1 @ sent2)) ps (sm, sent) = (sm', sent')"
  shows "waiting_but {} {} D sm' \<and> same_versions sm sm'"
  using assms
proof (induction ps arbitrary: sm sent)
  case Nil
  then show ?case by (simp add: notify_each_def same_versions_def)
next
  case (Cons p ps)
  obtain sm1 sent1 where n1: "notify_replication_waiters closed p sm = (sm1, sent1)" by fastforce
  obtain sm2 sent2 where n2: "notify_replication_write_waiters closed p sm1 = (sm2, sent2)" by fastforce
  from waiting_but_notify(1) [of p "set ps" "insert p (set ps)" D sm, OF _ n1] Cons.prems(1)
  have 1: "waiting_but (set ps) (insert p (set ps)) D sm1" "same_versions sm sm1" by simp_all
  from waiting_but_notify(2) [OF 1(1) n2] have 2: "waiting_but (set ps) (set ps) D sm2" "same_versions sm1 sm2" by simp_all
  from Cons.IH [OF 2(1)] Cons.prems(2) 1(2) 2(2) show ?case
    by (simp add: notify_each_def n1 n2 same_versions_def)
qed

lemma notify_each_watermarks:
  assumes "waiting_but R W (set ps) sm" "notify_each (notify_applied_delta_watermark_waiters closed) ps (sm, sent) = (sm', sent')"
  shows "waiting_but R W {} sm' \<and> same_versions sm sm'"
  using assms
proof (induction ps arbitrary: sm sent)
  case Nil
  then show ?case by (simp add: notify_each_def same_versions_def)
next
  case (Cons p ps)
  obtain sm1 sent1 where n1: "notify_applied_delta_watermark_waiters closed p sm = (sm1, sent1)" by fastforce
  from waiting_but_notify(3) [of R W p "set ps" sm, OF _ n1] Cons.prems(1)
  have 1: "waiting_but R W (set ps) sm1" "same_versions sm sm1" by simp_all
  from Cons.IH [OF 1(1)] Cons.prems(2) 1(2) show ?case
    by (simp add: notify_each_def n1 same_versions_def)
qed

lemma queues_wait_but_keys: "bt_wf frontiers \<Longrightarrow> bt_wf waiters \<Longrightarrow> queues_wait_but (fst ` set frontiers) frontiers waiters"
  by (auto simp: queues_wait_but_def reached_def simp flip: bt_get_None_iff)

lemma bt_wf_cap [simp]: "bt_wf (cap_frontiers ts f) = bt_wf f"
  by (simp add: bt_wf_def cap_frontiers_def case_prod_unfold comp_def)

lemma fst_set_cap [simp]: "fst ` set (cap_frontiers ts f) = fst ` set f"
  by (force simp: cap_frontiers_def)

lemma waiting_replace:
  assumes "waiting sm" "bt_wf frontiers" "bt_wf watermarks"
    "sm_replace closed ts snapshot frontiers watermarks sm = Some (sm', sent)"
  shows "waiting sm' \<and> sm_versions sm' = [(ts, snapshot)]"
proof -
  let ?sm = "sm\<lparr>sm_versions := [(ts, snapshot)], sm_persisted_max_repeatable_ts := ts,
             sm_replication_frontiers := frontiers, sm_replication_write_frontiers := cap_frontiers ts frontiers,
             sm_applied_delta_watermarks := watermarks\<rparr>"
  let ?both = "\<lambda>p sm. let (sm1, sent1) = notify_replication_waiters closed p sm;
                         (sm2, sent2) = notify_replication_write_waiters closed p sm1 in (sm2, sent1 @ sent2)"
  from assms(4) obtain sm1 s1 where n: "sm_notify_waiters closed ?sm = Some (sm1, s1)"
    and rest: "notify_each (notify_applied_delta_watermark_waiters closed) (bt_keys watermarks)
       (notify_each ?both (bt_keys frontiers) (sm1, s1)) = (sm', sent)"
    by (auto simp: sm_replace_def)
  obtain sm2 s2 where n2: "notify_each ?both (bt_keys frontiers) (sm1, s1) = (sm2, s2)" by fastforce
  from sm_notify_waiters_spec [OF n] obtain ws where ws: "sm1 = ?sm\<lparr>sm_waiters := ws\<rparr>" "waits_past ts ws" by auto
  have wf: "bt_wf (sm_replication_waiters sm)" "bt_wf (sm_replication_write_waiters sm)"
    "bt_wf (sm_applied_delta_watermark_waiters sm)"
    using assms(1) by (auto simp: waiting_def queues_wait_but_def)
  have "waiting_but (set (bt_keys frontiers)) (set (bt_keys frontiers)) (set (bt_keys watermarks)) sm1"
    using wf assms(2,3) ws(2) queues_wait_but_keys [of frontiers] queues_wait_but_keys [of watermarks]
      queues_wait_but_keys [of "cap_frontiers ts frontiers"]
    by (simp add: waiting_but_def ws(1))
  from notify_each_frontiers [OF this n2] have 2: "waiting_but {} {} (set (bt_keys watermarks)) sm2" "same_versions sm1 sm2"
    by simp_all
  from notify_each_watermarks [OF 2(1) rest [unfolded n2]] 2(2) show ?thesis
    by (auto simp: waiting_but_def waiting_def same_versions_def ws(1))
qed

section \<open>The life of a manager\<close>

text \<open>
  The states that a manager reaches through its operations, with the versions
  published since it was created or last replaced.
\<close>

inductive sm_reachable :: "nat \<Rightarrow> 'n snapshot_manager \<Rightarrow> (timestamp \<times> 'n) list \<Rightarrow> bool" for window where
  sm_new: "bt_wf frontiers \<Longrightarrow> bt_wf watermarks \<Longrightarrow>
    sm_reachable window (sm_new limiter ts snapshot frontiers watermarks) [(ts, snapshot)]"
| sm_push: "sm_reachable window sm h \<Longrightarrow> sm_push closed window tw ts snapshot bytes sm = Some (sm', sent) \<Longrightarrow>
    sm_reachable window sm' (h @ [(ts, snapshot)])"
| sm_bump: "sm_reachable window sm h \<Longrightarrow> bump_persisted_max_repeatable_ts closed window tw ts sm = Some (r, sm', sent) \<Longrightarrow>
    sm_reachable window sm' (if r = Inr True then h @ [(ts, snd (last h))] else h)"
| sm_replace: "sm_reachable window sm h \<Longrightarrow> bt_wf frontiers \<Longrightarrow> bt_wf watermarks \<Longrightarrow>
    sm_replace closed ts snapshot frontiers watermarks sm = Some (sm', sent) \<Longrightarrow> sm_reachable window sm' [(ts, snapshot)]"
| sm_wait: "sm_reachable window sm h \<Longrightarrow> sm_wait_for_higher_ts closed target fresh sm = Some ((q, sm'), sent) \<Longrightarrow>
    sm_reachable window sm' h"
| sm_frontier: "sm_reachable window sm h \<Longrightarrow>
    (r, sm', sent) \<in> {update_replication_frontier closed p ts sm, update_replication_write_frontier closed p ts sm,
      update_applied_delta_watermark closed p ts sm} \<Longrightarrow> sm_reachable window sm' h"
| sm_wait_frontier: "sm_reachable window sm h \<Longrightarrow>
    ((q, sm'), sent) \<in> {wait_for_replication_frontier closed p target fresh sm,
      wait_for_replication_write_frontier closed p target fresh sm,
      wait_for_applied_delta_watermark closed p target fresh sm} \<Longrightarrow> sm_reachable window sm' h"

text \<open>The versions are the end of the history, cut where the next version has left the window.\<close>

definition shows_history :: "nat \<Rightarrow> (timestamp \<times> 'n) list \<Rightarrow> (timestamp \<times> 'n) list \<Rightarrow> bool" where
  "shows_history window vs h \<longleftrightarrow> vs \<noteq> [] \<and> sorted_wrt (\<lambda>a b. fst a < fst b) h \<and>
     (\<exists>old. h = old @ vs \<and> (old \<noteq> [] \<longrightarrow> window < unat (fst (last h)) - unat (fst (hd vs))))"

lemma ts_since_eq: "since \<le> ts \<Longrightarrow> ts_since ts since = unat ts - unat since"
  by (simp add: ts_since_def unat_sub)

lemma prune_versions_suffix:
  assumes "vs \<noteq> []" "sorted_wrt (\<lambda>a b. fst a < fst b) vs" "fst (last vs) < ts"
  shows "\<exists>old. vs = old @ prune_versions window ts vs \<and> prune_versions window ts vs \<noteq> [] \<and>
    (old \<noteq> [] \<longrightarrow> window < unat ts - unat (fst (hd (prune_versions window ts vs))))"
  using assms
proof (induction window ts vs rule: prune_versions.induct)
  case (1 window ts v successor vs)
  have le: "fst successor \<le> fst (last (successor # vs))"
    using "1.prems"(2) by (cases "vs = []") (auto intro: less_imp_le)
  then have lt: "fst successor < ts" using "1.prems"(3) by simp
  show ?case
  proof (cases "ts_since ts (fst successor) > window")
    case True
    with "1.IH" "1.prems" obtain old where old: "successor # vs = old @ prune_versions window ts (successor # vs)"
      "prune_versions window ts (successor # vs) \<noteq> []"
      "old \<noteq> [] \<longrightarrow> window < unat ts - unat (fst (hd (prune_versions window ts (successor # vs))))" by auto
    moreover have "old = [] \<Longrightarrow> window < unat ts - unat (fst (hd (prune_versions window ts (successor # vs))))"
      using True lt old(1) by (metis append_Nil list.sel(1) ts_since_eq less_imp_le)
    ultimately show ?thesis using True by (intro exI [of _ "v # old"]) auto
  next
    case False
    then show ?thesis by auto
  qed
qed auto

lemma shows_history_append:
  assumes h: "shows_history window vs h" and ts: "fst (last vs) < ts"
  shows "shows_history window (prune_versions window ts vs @ [(ts, snapshot)]) (h @ [(ts, snapshot)])"
proof -
  from h obtain old where old: "h = old @ vs" "vs \<noteq> []" "sorted_wrt (\<lambda>a b. fst a < fst b) h"
    "old \<noteq> [] \<longrightarrow> window < unat (fst (last h)) - unat (fst (hd vs))" by (auto simp: shows_history_def)
  then have sorted: "sorted_wrt (\<lambda>a b. fst a < fst b) vs" by (simp add: sorted_wrt_append)
  from prune_versions_suffix [OF old(2) sorted ts, of window] obtain dropped where
    d: "vs = dropped @ prune_versions window ts vs" "prune_versions window ts vs \<noteq> []"
      "dropped \<noteq> [] \<longrightarrow> window < unat ts - unat (fst (hd (prune_versions window ts vs)))" by blast
  have last: "last h = last vs" using old(1,2) by simp
  have before: "fst e < ts" if "e \<in> set h" for e
  proof -
    have "fst e \<le> fst (last h)"
      using that old(3) by (cases h rule: rev_cases) (auto simp: sorted_wrt_append intro: less_imp_le)
    with ts last show ?thesis by simp
  qed
  have "window < unat ts - unat (fst (hd (prune_versions window ts vs)))" if "old @ dropped \<noteq> []"
  proof (cases "dropped = []")
    case True
    with that have "old \<noteq> []" by simp
    with old(4) have "window < unat (fst (last h)) - unat (fst (hd vs))" by simp
    moreover have "unat (fst (last h)) < unat ts" using ts last by (simp add: word_less_nat_alt)
    ultimately show ?thesis using True d(1) by simp
  qed (use d(3) in blast)
  moreover have "h @ [(ts, snapshot)] = (old @ dropped) @ prune_versions window ts vs @ [(ts, snapshot)]"
    using old(1) d(1) by simp
  moreover have "sorted_wrt (\<lambda>a b. fst a < fst b) (h @ [(ts, snapshot)])"
    using old(3) before by (simp add: sorted_wrt_append)
  ultimately show ?thesis unfolding shows_history_def using d(2)
    by (intro conjI exI [of _ "old @ dropped"]) auto
qed

lemma shows_history_last: "shows_history window vs h \<Longrightarrow> last h = last vs"
  by (auto simp: shows_history_def)

lemma sm_reachable_inv: "sm_reachable window sm h \<Longrightarrow> waiting sm \<and> shows_history window (sm_versions sm) h"
proof (induction rule: sm_reachable.induct)
  case (sm_new frontiers watermarks limiter ts snapshot)
  then show ?case
    by (auto simp: waiting_def sm_new_def shows_history_def queues_wait_but_def)
next
  case (sm_push sm h closed tw ts snapshot bytes sm' sent)
  then have inv: "waiting sm" "shows_history window (sm_versions sm) h" by simp_all
  from waiting_push [OF inv(1) sm_push.hyps(2)] shows_history_append [OF inv(2), of ts snapshot] show ?case by simp
next
  case (sm_bump sm h closed tw ts r sm' sent)
  then have inv: "waiting sm" "shows_history window (sm_versions sm) h" by simp_all
  from waiting_bump [OF inv(1) sm_bump.hyps(2)] inv(2)
    shows_history_append [OF inv(2), of ts "snd (last h)"] shows_history_last [OF inv(2)]
  show ?case by (simp split: if_splits)
next
  case (sm_replace sm h frontiers watermarks closed ts snapshot sm' sent)
  then show ?case using waiting_replace [of sm frontiers watermarks closed ts snapshot sm' sent]
    by (auto simp: shows_history_def)
next
  case (sm_wait sm h closed target fresh q sm' sent)
  then show ?case using waiting_wait_for_higher_ts [of sm closed target fresh q sm' sent]
    by (auto simp: same_versions_def)
next
  case (sm_frontier sm h r sm' sent closed p ts)
  then have "waiting sm' \<and> same_versions sm sm'"
    using waiting_update_frontier [of sm closed p ts r sm' sent] by (elim insertE) auto
  with sm_frontier.IH show ?case by (simp add: same_versions_def)
next
  case (sm_wait_frontier sm h q sm' sent closed p target fresh)
  then have "waiting sm' \<and> same_versions sm sm'"
    using waiting_wait_frontier [of sm closed p target fresh q sm' sent] by (elim insertE) auto
  with sm_wait_frontier.IH show ?case by (simp add: same_versions_def)
qed

section \<open>Properties\<close>

lemma sm_snapshot_spec:
  assumes "shows_history window (sm_versions sm) h"
  shows "sm_snapshot ts sm =
    Some (if ts < fst (hd (sm_versions sm)) then Inl (anyhow ''Timestamp is too early, retry with a higher timestamp'')
          else if \<not> ts \<le> fst (last h) then Inl (anyhow ''Timestamp is more recent than latest_ts'')
          else Inr (snd (last (filter (\<lambda>v. fst v \<le> ts) h))))"
proof -
  let ?vs = "sm_versions sm"
  from assms obtain old where old: "h = old @ ?vs" "?vs \<noteq> []" "sorted_wrt (\<lambda>a b. fst a < fst b) h"
    by (auto simp: shows_history_def)
  have "snd (?vs ! (length (takeWhile (\<lambda>v. fst v \<le> ts) ?vs) - 1)) = snd (last (filter (\<lambda>v. fst v \<le> ts) h))"
    if ge: "fst (hd ?vs) \<le> ts"
  proof -
    have sorted: "sorted_wrt (\<lambda>a b. fst a < fst b) ?vs" using old(1,3) by (metis sorted_wrt_append)
    have eq: "takeWhile (\<lambda>v. fst v \<le> ts) ?vs = filter (\<lambda>v. fst v \<le> ts) ?vs"
      by (rule takeWhile_eq_filter, rule sorted_wrt_mono_rel [OF _ sorted]) auto
    have ne: "filter (\<lambda>v. fst v \<le> ts) ?vs \<noteq> []" using old(2) ge by (cases ?vs) auto
    have "last (filter (\<lambda>v. fst v \<le> ts) h) = last (takeWhile (\<lambda>v. fst v \<le> ts) ?vs)"
      using ne by (simp add: eq old(1))
    also have "\<dots> = takeWhile (\<lambda>v. fst v \<le> ts) ?vs ! (length (takeWhile (\<lambda>v. fst v \<le> ts) ?vs) - 1)"
      using ne by (simp add: last_conv_nth eq)
    also have "\<dots> = ?vs ! (length (takeWhile (\<lambda>v. fst v \<le> ts) ?vs) - 1)"
      by (rule takeWhile_nth) (use ne in \<open>simp add: eq\<close>)
    finally show ?thesis by simp
  qed
  with old(2) shows_history_last [OF assms] show ?thesis
    by (cases ?vs) (auto simp: sm_snapshot_def sm_earliest_ts_def sm_latest_ts_def not_less)
qed

text \<open>
  C16. Reads at a timestamp are repeatable.  In every reachable state, asking for
  the snapshot at a timestamp never panics, and an answer is the last version
  published at or before the timestamp since the manager was created or
  replaced, however many versions have been dropped since.  Every timestamp
  between the first and the latest version that lies within the transaction
  window of the latest one is answered.
\<close>
theorem snapshots_repeatable:
  assumes "sm_reachable window sm h"
  shows "\<exists>r. sm_snapshot ts sm = Some r \<and>
    (\<forall>n. r = Inr n \<longrightarrow> fst (hd h) \<le> ts \<and> ts \<le> fst (last h) \<and> n = snd (last (filter (\<lambda>v. fst v \<le> ts) h))) \<and>
    (fst (hd h) \<le> ts \<and> ts \<le> fst (last h) \<and> unat (fst (last h)) - unat ts \<le> window \<longrightarrow> is_ok r)"
proof -
  from sm_reachable_inv [OF assms] have h: "shows_history window (sm_versions sm) h" by simp
  then obtain old where old: "h = old @ sm_versions sm" "sm_versions sm \<noteq> []" "sorted_wrt (\<lambda>a b. fst a < fst b) h"
    "old \<noteq> [] \<longrightarrow> window < unat (fst (last h)) - unat (fst (hd (sm_versions sm)))" by (auto simp: shows_history_def)
  have hd: "fst (hd h) \<le> fst (hd (sm_versions sm))"
    using old(1-3) by (cases old; cases "sm_versions sm") (auto intro: less_imp_le)
  have "fst (hd (sm_versions sm)) \<le> ts" if "fst (hd h) \<le> ts" "unat (fst (last h)) - unat ts \<le> window"
  proof (cases "old = []")
    case True
    with that(1) old(1) show ?thesis by simp
  next
    case False
    with old(4) that(2) have "unat (fst (hd (sm_versions sm))) \<le> unat ts" by simp
    then show ?thesis by (simp add: word_le_nat_alt)
  qed
  with sm_snapshot_spec [OF h, of ts] hd show ?thesis by (auto simp: is_ok_def)
qed

definition sample_limiter :: write_throughput_limiter where
  "sample_limiter = limiter_new 1000 1000 1000"

definition sample_sm :: "nat snapshot_manager" where
  "sample_sm = (let sm0 = sm_new sample_limiter 5 0 [] [] in
     fst (the (sm_push (\<lambda>_. False) 10 1000 40 2 0 (fst (the (sm_push (\<lambda>_. False) 10 1000 20 1 0 sm0))))))"

lemma sample_sm_reachable: "sm_reachable 10 sample_sm [(5, 0), (20, 1), (40, 2)]"
proof -
  let ?sm0 = "sm_new sample_limiter 5 0 [] [] :: nat snapshot_manager"
  have 1: "sm_push (\<lambda>_. False) 10 1000 20 1 0 ?sm0 = Some (the (sm_push (\<lambda>_. False) 10 1000 20 1 0 ?sm0))"
    by code_simp
  let ?sm1 = "fst (the (sm_push (\<lambda>_. False) 10 1000 20 1 0 ?sm0))"
  have 2: "sm_push (\<lambda>_. False) 10 1000 40 2 0 ?sm1 = Some (the (sm_push (\<lambda>_. False) 10 1000 40 2 0 ?sm1))"
    by code_simp
  have "sm_reachable 10 ?sm0 [(5, 0)]" by (rule sm_reachable.sm_new) simp_all
  from sm_reachable.sm_push [OF this, of "\<lambda>_. False" 1000 20 1 0] 1 have "sm_reachable 10 ?sm1 [(5, 0), (20, 1)]"
    by (metis append_Cons append_Nil prod.collapse)
  from sm_reachable.sm_push [OF this, of "\<lambda>_. False" 1000 40 2 0] 2 show ?thesis
    by (metis append_Cons append_Nil prod.collapse sample_sm_def)
qed

theorem snapshots_repeatable_witness: "sm_snapshot 33 sample_sm = Some (Inr 1)"
proof -
  from snapshots_repeatable [OF sample_sm_reachable, of 33] obtain r where r: "sm_snapshot 33 sample_sm = Some r" "is_ok r"
    "\<forall>n. r = Inr n \<longrightarrow> n = 1" by auto
  then show ?thesis by (cases r) (auto simp: is_ok_def)
qed

text \<open>
  C29. Nobody waits for a frontier that has been reached.  In every reachable
  state a task queued on the replication frontier of a partition waits for a
  timestamp above it; an update to that timestamp or a later one is accepted,
  wakes the task, and leaves nobody waiting for a timestamp up to the new
  frontier.
\<close>
theorem frontier_waiters_woken:
  assumes reach: "sm_reachable window sm h"
    and queued: "bt_get (sm_replication_waiters sm) p = Some ws" "(target, channel) \<in> set ws" and ts: "target \<le> ts"
  shows "\<not> reached (sm_replication_frontiers sm) p target \<and>
    (\<exists>sm' sent. update_replication_frontier closed p ts sm = (Inr True, sm', sent) \<and> channel \<in> set sent \<and>
       replication_frontier sm' p = Some ts \<and>
       (\<forall>ws t c. bt_get (sm_replication_waiters sm') p = Some ws \<and> (t, c) \<in> set ws \<longrightarrow> ts < t))"
proof -
  let ?f = "bt_insert p ts (sm_replication_frontiers sm)"
  from sm_reachable_inv [OF reach] have w: "waiting sm" by simp
  then have q: "queues_wait (sm_replication_frontiers sm) (sm_replication_waiters sm)" by (simp add: waiting_def)
  then have wf: "bt_wf (sm_replication_frontiers sm)" by (simp add: queues_wait_but_def)
  from q queued have not: "\<not> reached (sm_replication_frontiers sm) p target" unfolding queues_wait_but_def by blast
  obtain ws' sent where d: "drain_waiters (\<lambda>(target, channel). ts \<ge> target \<or> closed channel) 0 ws [] = (ws', sent)" by fastforce
  obtain qs where n: "notify_partition_waiters closed ?f p (sm_replication_waiters sm) = (qs, sent)"
    by (simp add: notify_partition_waiters_def bt_get_insert [OF wf] queued(1) d)
  let ?sm' = "sm\<lparr>sm_replication_frontiers := ?f, sm_replication_waiters := qs\<rparr>"
  have upd: "update_replication_frontier closed p ts sm = (Inr True, ?sm', sent)"
    using not ts
    by (cases "bt_get (sm_replication_frontiers sm) p")
      (auto simp: update_replication_frontier_def notify_replication_waiters_def n reached_def Let_def)
  from waiting_update_frontier(1) [OF w upd] have w': "queues_wait ?f qs" by (simp add: waiting_def)
  have "ts < t" if "bt_get qs p = Some vs" "(t, c) \<in> set vs" for vs t c
  proof -
    from w' that have "\<not> reached ?f p t" unfolding queues_wait_but_def by blast
    then show ?thesis by (simp add: reached_def bt_get_insert [OF wf])
  qed
  moreover have "channel \<in> set sent" using drain_waiters_spec(4) [OF d] queued(2) ts by force
  moreover have "replication_frontier ?sm' p = Some ts" by (simp add: replication_frontier_def bt_get_insert [OF wf])
  ultimately show ?thesis using not upd by (intro conjI exI [of _ ?sm'] exI [of _ sent]) auto
qed

theorem frontier_waiters_woken_witness:
  "let sm = snd (fst (wait_for_replication_frontier (\<lambda>_. False) 3 50 7 sample_sm))
   in \<exists>sm' sent. update_replication_frontier (\<lambda>_. False) 3 60 sm = (Inr True, sm', sent) \<and> 7 \<in> set sent"
proof -
  let ?r = "wait_for_replication_frontier (\<lambda>_. False) 3 50 7 sample_sm"
  have "sm_reachable 10 (snd (fst ?r)) [(5, 0), (20, 1), (40, 2)]"
    by (rule sm_reachable.sm_wait_frontier [OF sample_sm_reachable, of "fst (fst ?r)" _ "snd ?r" "\<lambda>_. False" 3 50 7]) simp
  moreover have "bt_get (sm_replication_waiters (snd (fst ?r))) 3 = Some [(50, 7)]" by code_simp
  ultimately show ?thesis
    unfolding Let_def using frontier_waiters_woken [where p = 3 and target = 50 and channel = 7 and ts = 60 and closed = "\<lambda>_. False"]
    by fastforce
qed

end
