(* ===== verification/Committer.thy ===== *)
theory Committer
  imports WriteLog Routing SnapshotManager Decisions
begin

text \<open>
  The committer of a partition, from \<open>crates/database/src/committer.rs\<close>: how
  commit timestamps are assigned, how a transaction is validated and published,
  and the participant's side of two-phase commit, from staging a prepare to
  publishing or rolling it back.  The committer is one task that handles one
  message after another; each handler is a function on its state.

  Documents, search reads and search keys are the type variables \<open>'d\<close>, \<open>'s\<close> and
  \<open>'v\<close>; a snapshot is \<open>'n\<close>, and \<open>commit_env\<close> holds what the committer asks of
  snapshots and documents.  The answers of the timestamp oracle, of Raft and of
  persistence are arguments.  Index entries, sizes and the replication of deltas
  are left out, and so are debug renderings in messages.  \<open>None\<close> is a panic.  A
  snapshot manager always holds a version, so its latest version is the last of
  the list.
\<close>

section \<open>State\<close>

record ('d, 's, 'v, 'n) commit_env =
  ce_ops :: "('d, 's, 'v) doc_ops"
  ce_catalog :: "'d catalog_ops"
  ce_update :: "'d packed_document_update \<Rightarrow> timestamp \<Rightarrow> 'n \<Rightarrow> anyhow_error + 'n"
  ce_transaction_window :: nat
  ce_throughput_window :: nat
  ce_table_mapping :: "'n \<Rightarrow> table_mapping"
  ce_index_keys :: "'n \<Rightarrow> 'd packed_document_update \<Rightarrow> 'v document_index_keys_update"
  ce_index_materialized :: "'n \<Rightarrow> 'd \<Rightarrow> anyhow_error + bool"
  ce_remap_document :: "resolved_document_id \<Rightarrow> 'd \<Rightarrow> anyhow_error + 'd"

record 'd validated_document_write =
  vw_commit_ts :: timestamp
  vw_id :: resolved_document_id
  vw_write :: "'d option"
  vw_prev_ts :: "timestamp option"

record 'd prepared_transaction =
  ptx_prepared_write :: write_handle
  ptx_origin_commit_ts :: timestamp
  ptx_commit_ts :: timestamp
  ptx_document_writes :: "'d validated_document_write list"

text \<open>What the committer asks of the state of its Raft group.\<close>

record raft_view =
  rv_genesis_ready :: bool
  rv_leader_ready :: bool
  rv_serving_lease :: bool

record ('d, 'v, 'n) committer =
  cm_pending_writes :: "('d, 'n) writes_by_ts"
  cm_prepared_writes :: "('d, 'n) writes_by_ts"
  cm_log :: "('d, 'v) write_log_manager"
  cm_snapshots :: "'n snapshot_manager"
  cm_last_assigned_ts :: timestamp
  cm_read_barrier_floor :: timestamp
  cm_closed_read_timestamps :: "timestamp list"
  cm_placement :: "partition_map option"
  cm_prepared_transactions :: "(string, 'd prepared_transaction) btree_map"
  cm_commit_waiters :: "(string, nat list) btree_map"
  cm_rollback_waiters :: "(string, nat list) btree_map"
  cm_queued_snapshots :: "(nat \<times> timestamp \<times> 'n) list"
  cm_raft :: "raft_view option"
  cm_redo :: "(string, two_phase_redo_entry) btree_map"

definition cm_latest_ts :: "('d, 'v, 'n) committer \<Rightarrow> timestamp" where
  "cm_latest_ts cm = fst (last (sm_versions (cm_snapshots cm)))"

definition cm_latest_snapshot :: "('d, 'v, 'n) committer \<Rightarrow> 'n" where
  "cm_latest_snapshot cm = snd (last (sm_versions (cm_snapshots cm)))"

definition latest_queued_snapshot :: "('d, 'v, 'n) committer \<Rightarrow> (timestamp \<times> 'n) option" where
  "latest_queued_snapshot cm =
     (if cm_queued_snapshots cm = [] then None else Some (snd (last (cm_queued_snapshots cm))))"

definition base_snapshot_for_new_writes :: "('d, 'v, 'n) committer \<Rightarrow> 'n" where
  "base_snapshot_for_new_writes cm =
     (case (latest_queued_snapshot cm, pending_latest (cm_pending_writes cm)) of
        (Some (queued_ts, queued), Some (pending_ts, pending)) \<Rightarrow> if queued_ts \<ge> pending_ts then queued else pending
      | (Some (_, queued), None) \<Rightarrow> queued
      | (None, Some (_, pending)) \<Rightarrow> pending
      | (None, None) \<Rightarrow> cm_latest_snapshot cm)"

definition enqueue_snapshot ::
  "nat \<Rightarrow> timestamp \<Rightarrow> 'n \<Rightarrow> ('d, 'v, 'n) committer \<Rightarrow> ('d, 'v, 'n) committer option" where
  "enqueue_snapshot commit_id ts snapshot cm =
     (if cm_queued_snapshots cm \<noteq> [] \<and>
         \<not> (fst (last (cm_queued_snapshots cm)) < commit_id \<and> fst (snd (last (cm_queued_snapshots cm))) \<le> ts)
      then None
      else Some (cm\<lparr>cm_queued_snapshots := cm_queued_snapshots cm @ [(commit_id, ts, snapshot)]\<rparr>))"

definition dequeue_snapshot :: "nat \<Rightarrow> ('d, 'v, 'n) committer \<Rightarrow> ('d, 'v, 'n) committer option" where
  "dequeue_snapshot commit_id cm =
     (case cm_queued_snapshots cm of
        [] \<Rightarrow> None
      | (queued_id, _) # rest \<Rightarrow> if queued_id = commit_id then Some (cm\<lparr>cm_queued_snapshots := rest\<rparr>) else None)"

definition local_partition_for_two_phase :: "('d, 'v, 'n) committer \<Rightarrow> partition_id" where
  "local_partition_for_two_phase cm = (case cm_placement cm of Some pm \<Rightarrow> pmap_local pm | None \<Rightarrow> 0)"

definition opt_min :: "'a::linorder option \<Rightarrow> 'a option \<Rightarrow> 'a option" where
  "opt_min a b = (case (a, b) of (Some x, Some y) \<Rightarrow> Some (min x y) | (Some x, None) \<Rightarrow> Some x
                  | (None, Some y) \<Rightarrow> Some y | (None, None) \<Rightarrow> None)"

definition list_min :: "'a::linorder list \<Rightarrow> 'a option" where
  "list_min xs = (case xs of [] \<Rightarrow> None | x # ys \<Rightarrow> Some (fold min ys x))"

definition prepare_admission_blocker_ts :: "('d, 'v, 'n) committer \<Rightarrow> timestamp option" where
  "prepare_admission_blocker_ts cm =
     opt_min (writes_min_ts (cm_pending_writes cm))
       (list_min (List.map_filter (\<lambda>t. map_option ptx_commit_ts (bt_get (cm_prepared_transactions cm) t))
          (bt_keys (cm_commit_waiters cm))))"

section \<open>Timestamps\<close>

definition local_commit_floor :: "('d, 'v, 'n) committer \<Rightarrow> anyhow_error + timestamp" where
  "local_commit_floor cm =
     and_then (lift_ts (ts_succ (wl_max_ts (wm_log (cm_log cm))))) (\<lambda>log_floor.
     and_then (lift_ts (ts_succ (cm_latest_ts cm))) (\<lambda>latest.
     and_then (lift_ts (ts_succ (cm_last_assigned_ts cm))) (\<lambda>assigned.
     Inr (max log_floor (max latest assigned)))))"

definition explicit_prepare_commit_floor :: "('d, 'v, 'n) committer \<Rightarrow> anyhow_error + timestamp" where
  "explicit_prepare_commit_floor cm =
     and_then (lift_ts (ts_succ (wl_max_ts (wm_log (cm_log cm))))) (\<lambda>log_floor.
     and_then (lift_ts (ts_succ (cm_read_barrier_floor cm))) (\<lambda>read_barrier_floor.
     and_then (case latest_queued_snapshot cm of None \<Rightarrow> Inr ts_min | Some (ts, _) \<Rightarrow> lift_ts (ts_succ ts)) (\<lambda>queued_floor.
     and_then (lift_ts (ts_succ (cm_latest_ts cm))) (\<lambda>latest.
     Inr (max read_barrier_floor (max log_floor (max latest queued_floor)))))))"

definition replayed_prepare_commit_floor :: "('d, 'v, 'n) committer \<Rightarrow> anyhow_error + timestamp" where
  "replayed_prepare_commit_floor cm =
     and_then (lift_ts (ts_succ (wl_max_ts (wm_log (cm_log cm))))) (\<lambda>log_floor.
     and_then (case writes_max_ts (cm_prepared_writes cm) of None \<Rightarrow> Inr ts_min | Some ts \<Rightarrow> lift_ts (ts_succ ts)) (\<lambda>prepared_floor.
     and_then (lift_ts (ts_succ (cm_latest_ts cm))) (\<lambda>latest.
     Inr (max prepared_floor (max log_floor latest)))))"

text \<open>
  \<open>oracle\<close> is the answer of the timestamp oracle to a floor, when there is an
  oracle; \<open>clock\<close> is the local clock.
\<close>

definition next_commit_ts_at_or_after ::
  "(timestamp \<Rightarrow> anyhow_error + timestamp) option \<Rightarrow> (anyhow_error + timestamp) \<Rightarrow> timestamp \<Rightarrow>
   ('d, 'v, 'n) committer \<Rightarrow> anyhow_error + timestamp \<times> ('d, 'v, 'n) committer" where
  "next_commit_ts_at_or_after oracle clock requested_floor cm =
     and_then (local_commit_floor cm) (\<lambda>commit_floor.
       let local_floor = max commit_floor requested_floor in
       case oracle of
         Some next_ts \<Rightarrow>
           and_then (next_ts local_floor) (\<lambda>ts.
             if \<not> ts \<ge> local_floor then Inl (anyhow ''TSO returned a timestamp below the requested local floor'')
             else Inr (ts, cm\<lparr>cm_last_assigned_ts := ts\<rparr>))
       | None \<Rightarrow>
           and_then clock (\<lambda>now. let ts = max local_floor now in Inr (ts, cm\<lparr>cm_last_assigned_ts := ts\<rparr>)))"

definition next_commit_ts ::
  "(timestamp \<Rightarrow> anyhow_error + timestamp) option \<Rightarrow> (anyhow_error + timestamp) \<Rightarrow>
   ('d, 'v, 'n) committer \<Rightarrow> anyhow_error + timestamp \<times> ('d, 'v, 'n) committer" where
  "next_commit_ts oracle clock cm = next_commit_ts_at_or_after oracle clock ts_min cm"

section \<open>Checks\<close>

definition ensure_leader_for_writes :: "('d, 'v, 'n) committer \<Rightarrow> anyhow_error + unit" where
  "ensure_leader_for_writes cm =
     (case cm_raft cm of
        None \<Rightarrow> Inr ()
      | Some raft \<Rightarrow>
          if \<not> rv_genesis_ready raft then Inl (anyhow ''Cluster genesis is not ready; retry after bootstrap completes'')
          else if \<not> rv_leader_ready raft then Inl (anyhow ''Raft node is not ready to accept writes'')
          else Inr ())"

definition ensure_leader_for_read_barrier :: "('d, 'v, 'n) committer \<Rightarrow> anyhow_error + unit" where
  "ensure_leader_for_read_barrier cm =
     and_then (ensure_leader_for_writes cm) (\<lambda>_.
       case cm_raft cm of
         None \<Rightarrow> Inr ()
       | Some raft \<Rightarrow> if \<not> rv_serving_lease raft then Inl (anyhow ''Raft leader has no valid serving lease'') else Inr ())"

definition routed_elsewhere :: "partition_map \<Rightarrow> write_source \<Rightarrow> table_name \<Rightarrow> bool" where
  "routed_elsewhere pm source table =
     (case routed_partition_for_table table pm source of Some p \<Rightarrow> p \<noteq> pmap_local pm | None \<Rightarrow> False)"

fun check_tablets :: "string \<Rightarrow> string \<Rightarrow> partition_map \<Rightarrow> table_mapping \<Rightarrow> write_source \<Rightarrow> tablet_id list \<Rightarrow> anyhow_error + unit" where
  "check_tablets missing rejected pm mapping source [] = Inr ()"
| "check_tablets missing rejected pm mapping source (t # ts) =
     (case tablet_name mapping t of
        Inl e \<Rightarrow> Inl (with_context missing e)
      | Inr table \<Rightarrow>
          if routed_elsewhere pm source table then Inl (anyhow (rejected @ table))
          else check_tablets missing rejected pm mapping source ts)"

definition ensure_prepare_ownership ::
  "'d document_update_with_prev_ts list \<Rightarrow> table_mapping \<Rightarrow> write_source \<Rightarrow> ('d, 'v, 'n) committer \<Rightarrow> anyhow_error + unit" where
  "ensure_prepare_ownership writes mapping source cm =
     (case cm_placement cm of
        None \<Rightarrow> Inr ()
      | Some pm \<Rightarrow> check_tablets ''Missing table mapping for prepared write'' ''Write rejected during prepare: '' pm mapping source
                     (map (fst \<circ> du_id) writes))"

definition ensure_read_ownership ::
  "'s read_set \<Rightarrow> table_mapping \<Rightarrow> write_source \<Rightarrow> ('d, 'v, 'n) committer \<Rightarrow> anyhow_error + unit" where
  "ensure_read_ownership reads mapping source cm =
     (case cm_placement cm of
        None \<Rightarrow> Inr ()
      | Some pm \<Rightarrow> check_tablets ''Missing table mapping for validated read'' ''Read validation rejected: '' pm mapping source
                     (read_tablets reads))"

definition remote_read_partitions ::
  "'s read_set \<Rightarrow> table_mapping \<Rightarrow> partition_map \<Rightarrow> write_source \<Rightarrow> partition_id list" where
  "remote_read_partitions reads mapping pm source =
     bs_collect (List.map_filter
       (\<lambda>t. case tablet_name mapping t of
              Inl _ \<Rightarrow> None
            | Inr table \<Rightarrow>
                (case routed_partition_for_table table pm source of
                   Some p \<Rightarrow> if p \<noteq> pmap_local pm then Some p else None
                 | None \<Rightarrow> None))
       (read_tablets reads))"

definition stale_replica_frontiers ::
  "'n snapshot_manager \<Rightarrow> timestamp \<Rightarrow> 's read_set \<Rightarrow> table_mapping \<Rightarrow> partition_map \<Rightarrow> write_source \<Rightarrow>
   (partition_id \<times> timestamp) list" where
  "stale_replica_frontiers sm begin_ts reads mapping pm source =
     List.map_filter
       (\<lambda>p. let frontier = (case replication_frontier sm p of Some f \<Rightarrow> f | None \<Rightarrow> ts_min)
             in if frontier < begin_ts then Some (p, frontier) else None)
       (remote_read_partitions reads mapping pm source)"

definition validate_remote_read_frontiers ::
  "timestamp \<Rightarrow> 's read_set \<Rightarrow> table_mapping \<Rightarrow> write_source \<Rightarrow> ('d, 'v, 'n) committer \<Rightarrow> anyhow_error + unit" where
  "validate_remote_read_frontiers begin_ts reads mapping source cm =
     (case cm_placement cm of
        None \<Rightarrow> Inr ()
      | Some pm \<Rightarrow>
          if stale_replica_frontiers (cm_snapshots cm) begin_ts reads mapping pm source = [] then Inr ()
          else Inl (occ_error ''Cross-partition OCC requires remote read frontiers at the begin timestamp''))"

definition cm_has_conflict ::
  "('d, 's, 'v) doc_ops \<Rightarrow> 's read_set \<Rightarrow> timestamp \<Rightarrow> timestamp \<Rightarrow> ('d, 'v, 'n) committer \<Rightarrow>
   anyhow_error + conflicting_read_with_write_source option" where
  "cm_has_conflict ops reads reads_ts cts cm =
     (case commit_has_conflict ops reads reads_ts cts (wm_log (cm_log cm)) (cm_pending_writes cm) (cm_prepared_writes cm) of
        Inl _ \<Rightarrow> Inl (anyhow ''write log lookup failed'')
      | Inr r \<Rightarrow> Inr r)"

text \<open>The two uses of \<open>commit_has_conflict\<close>: \<open>into_error\<close> turns a conflict into an OCC error.\<close>

definition ensure_no_conflict ::
  "('d, 's, 'v) doc_ops \<Rightarrow> 's read_set \<Rightarrow> timestamp \<Rightarrow> timestamp \<Rightarrow> ('d, 'v, 'n) committer \<Rightarrow> anyhow_error + unit" where
  "ensure_no_conflict ops reads reads_ts cts cm =
     and_then (cm_has_conflict ops reads reads_ts cts cm) (\<lambda>conflict.
       case conflict of Some _ \<Rightarrow> Inl (occ_error ''conflicting read'') | None \<Rightarrow> Inr ())"

section \<open>Preparing writes\<close>

definition pack_update :: "'d document_update_with_prev_ts \<Rightarrow> 'd packed_document_update" where
  "pack_update u = \<lparr>pu_id = du_id u, pu_old = map_option fst (du_old u), pu_new = du_new u\<rparr>"

definition packed_writes :: "'d document_update_with_prev_ts list \<Rightarrow> 'd ordered_document_writes" where
  "packed_writes us = map (\<lambda>u. (du_id u, pack_update u)) us"

definition bootstrap_table_ids :: "table_mapping \<Rightarrow> (tablet_id \<times> tablet_id) option" where
  "bootstrap_table_ids mapping =
     (case (nm_id (tm_namespace mapping Global) tables_table, nm_id (tm_namespace mapping Global) index_table) of
        (Inr (tables_id, _), Inr (index_id, _)) \<Rightarrow> Some (tables_id, index_id)
      | _ \<Rightarrow> None)"

definition table_dependency_sort_key ::
  "'d catalog_ops \<Rightarrow> tablet_id \<times> tablet_id \<Rightarrow> resolved_document_id \<Rightarrow> 'd option \<Rightarrow>
   (nat \<times> tablet_id \<times> internal_id) option" where
  "table_dependency_sort_key cat bootstrap ident new =
     (let table = fst ident; key = (\<lambda>n. (n, table, snd (snd ident))) in
      if table = fst bootstrap
      then (case new of
              Some d \<Rightarrow>
                (case parse_table_metadata cat d of
                   Inl _ \<Rightarrow> None
                 | Inr md \<Rightarrow>
                     Some (key (case tmd_state md of
                                  Active \<Rightarrow> if tmd_name md = tables_table then 2 else 3
                                | Hidden \<Rightarrow> 3
                                | Deleting \<Rightarrow> 1)))
            | None \<Rightarrow> Some (key 1))
      else if table = snd bootstrap then Some (key (if new = None then 0 else 4))
      else Some (key 5))"

text \<open>\<open>sort_by_key\<close> is stable; the key is computed for every update.\<close>

definition sort_updates ::
  "'d catalog_ops \<Rightarrow> table_mapping \<Rightarrow> 'd document_update_with_prev_ts list \<Rightarrow> 'd document_update_with_prev_ts list option" where
  "sort_updates cat mapping us =
     (if length us < 2 then Some us
      else case bootstrap_table_ids mapping of
        None \<Rightarrow> None
      | Some b \<Rightarrow>
          if list_ex (\<lambda>u. table_dependency_sort_key cat b (du_id u) (du_new u) = None) us then None
          else Some (sort_key (\<lambda>u. the (table_dependency_sort_key cat b (du_id u) (du_new u))) us))"

fun apply_writes ::
  "('d, 's, 'v, 'n) commit_env \<Rightarrow> timestamp \<Rightarrow> 'd ordered_document_writes \<Rightarrow> 'n \<Rightarrow> anyhow_error + 'n" where
  "apply_writes env ts [] snapshot = Inr snapshot"
| "apply_writes env ts ((_, u) # ws) snapshot = and_then (ce_update env u ts snapshot) (apply_writes env ts ws)"

definition compute_writes ::
  "('d, 's, 'v, 'n) commit_env \<Rightarrow> timestamp \<Rightarrow> 'd document_update_with_prev_ts list \<Rightarrow> ('d, 'v, 'n) committer \<Rightarrow>
   anyhow_error + 'd validated_document_write list \<times> 'n" where
  "compute_writes env cts us cm =
     and_then (apply_writes env cts (packed_writes us) (base_snapshot_for_new_writes cm)) (\<lambda>snapshot.
       Inr (map (\<lambda>u. \<lparr>vw_commit_ts = cts, vw_id = du_id u, vw_write = du_new u,
                     vw_prev_ts = map_option snd (du_old u)\<rparr>) us, snapshot))"

definition pending_bootstrap_metadata_write_ts ::
  "table_mapping \<Rightarrow> ('d, 'v, 'n) committer \<Rightarrow> timestamp option option" where
  "pending_bootstrap_metadata_write_ts mapping cm =
     (case bootstrap_table_ids mapping of
        None \<Rightarrow> None
      | Some (tables_id, index_id) \<Rightarrow>
          Some (find_map (\<lambda>(ts, ws, _). if list_ex (\<lambda>(ident, _). fst ident = tables_id \<or> fst ident = index_id) ws
                                        then Some ts else None)
                  (writes_iter ts_min ts_max (cm_pending_writes cm))))"

section \<open>Staging a prepare\<close>

text \<open>
  A handler returns its result with the state it leaves, since a failed handler
  may have moved \<open>last_assigned_ts\<close>.  The original and the local timestamp of a
  prepare differ only when a replica replays it.
\<close>

definition stage_timestamps ::
  "(timestamp \<Rightarrow> anyhow_error + timestamp) option \<Rightarrow> (anyhow_error + timestamp) \<Rightarrow> timestamp \<Rightarrow> timestamp option \<Rightarrow> bool \<Rightarrow>
   ('d, 'v, 'n) committer \<Rightarrow> anyhow_error + timestamp \<times> timestamp \<times> ('d, 'v, 'n) committer" where
  "stage_timestamps oracle clock floor explicit_ts rewrite cm =
     (case explicit_ts of
        Some cts \<Rightarrow>
          if cts \<ge> floor then Inr (cts, cts, cm)
          else if rewrite then Inr (cts, floor, cm)
          else Inl ((anyhow ''prepare timestamp too low'')\<lparr>err_too_low := Some (cts, floor)\<rparr>)
      | None \<Rightarrow> and_then (next_commit_ts oracle clock cm) (\<lambda>(cts, cm'). Inr (cts, cts, cm')))"

definition stage_at ::
  "('d, 's, 'v, 'n) commit_env \<Rightarrow> string \<Rightarrow> timestamp \<Rightarrow> 's read_set \<Rightarrow> 'd document_update_with_prev_ts list \<Rightarrow>
   table_mapping \<Rightarrow> write_source \<Rightarrow> timestamp \<Rightarrow> timestamp \<Rightarrow> bool \<Rightarrow> ('d, 'v, 'n) committer \<Rightarrow>
   ((anyhow_error + timestamp) \<times> ('d, 'v, 'n) committer) option" where
  "stage_at env txn begin_ts reads writes mapping source origin_ts cts rewrite cm =
     (case and_then (if rewrite then lift_ts (ts_pred cts) else Inr begin_ts)
             (\<lambda>conflict_begin_ts. ensure_no_conflict (ce_ops env) reads conflict_begin_ts cts cm) of
        Inl e \<Rightarrow> Some (Inl e, cm)
      | Inr _ \<Rightarrow>
          (case sort_updates (ce_catalog env) mapping writes of
             None \<Rightarrow> None
           | Some ordered \<Rightarrow>
               (case compute_writes env cts ordered cm of
                  Inl e \<Rightarrow> Some (Inl e, cm)
                | Inr (document_writes, snapshot) \<Rightarrow>
                    (case prepared_insert cts (packed_writes ordered) source snapshot (cm_prepared_writes cm) of
                       Inl e \<Rightarrow> Some (Inl (with_context ''2PC Prepare failed to stage prepared intent'' e), cm)
                     | Inr (handle, prepared_writes) \<Rightarrow>
                         Some (Inr origin_ts,
                           cm\<lparr>cm_prepared_writes := prepared_writes,
                              cm_prepared_transactions :=
                                bt_insert txn \<lparr>ptx_prepared_write = handle, ptx_origin_commit_ts = origin_ts,
                                               ptx_commit_ts = cts, ptx_document_writes = document_writes\<rparr>
                                  (cm_prepared_transactions cm)\<rparr>)))))"

definition stage_prepared_transaction ::
  "('d, 's, 'v, 'n) commit_env \<Rightarrow> (timestamp \<Rightarrow> anyhow_error + timestamp) option \<Rightarrow> (anyhow_error + timestamp) \<Rightarrow> string \<Rightarrow>
   timestamp \<Rightarrow> 's read_set \<Rightarrow> 'd document_update_with_prev_ts list \<Rightarrow> table_mapping \<Rightarrow> write_source \<Rightarrow>
   timestamp option \<Rightarrow> bool \<Rightarrow> bool \<Rightarrow> ('d, 'v, 'n) committer \<Rightarrow>
   ((anyhow_error + timestamp) \<times> ('d, 'v, 'n) committer) option" where
  "stage_prepared_transaction env oracle clock txn begin_ts reads writes mapping source explicit_ts require_leader rewrite cm =
     (case and_then (if require_leader then ensure_leader_for_writes cm else Inr ()) (\<lambda>_.
           and_then (ensure_prepare_ownership writes mapping source cm) (\<lambda>_.
           and_then (validate_remote_read_frontiers begin_ts reads mapping source cm) (\<lambda>_.
           if rewrite then replayed_prepare_commit_floor cm else explicit_prepare_commit_floor cm))) of
        Inl e \<Rightarrow> Some (Inl e, cm)
      | Inr floor \<Rightarrow>
          (case bt_get (cm_prepared_transactions cm) txn of
             Some existing \<Rightarrow>
               Some (if explicit_ts \<noteq> None \<and> explicit_ts \<noteq> Some (ptx_origin_commit_ts existing)
                     then Inl (anyhow ''2PC Prepare retried with a different commit timestamp'')
                     else Inr (ptx_origin_commit_ts existing), cm)
           | None \<Rightarrow>
               if writes_min_ts (cm_pending_writes cm) \<noteq> None
               then Some (Inl (occ_error ''2PC Prepare blocked by an unresolved pending write''), cm)
               else
                 (case stage_timestamps oracle clock floor explicit_ts rewrite cm of
                    Inl e \<Rightarrow> Some (Inl e, cm)
                  | Inr (origin_ts, cts, cm1) \<Rightarrow>
                      stage_at env txn begin_ts reads writes mapping source origin_ts cts rewrite
                        (cm1\<lparr>cm_last_assigned_ts := max cts (cm_last_assigned_ts cm1)\<rparr>))))"

section \<open>Committing locally\<close>

text \<open>An unknown tablet is not checked here; \<open>None\<close> is a mapping without the catalog tables.\<close>

definition owned_writes :: "('d, 's) final_transaction \<Rightarrow> write_source \<Rightarrow> ('d, 'v, 'n) committer \<Rightarrow> anyhow_error + unit" where
  "owned_writes tx source cm =
     (case cm_placement cm of
        None \<Rightarrow> Inr ()
      | Some pm \<Rightarrow>
          if list_ex (\<lambda>w. case tablet_name (ft_table_mapping tx) (fst (du_id w)) of
                            Inl _ \<Rightarrow> False | Inr table \<Rightarrow> routed_elsewhere pm source table) (ft_writes tx)
          then Inl (anyhow ''Write rejected: owned by another partition'') else Inr ())"

definition commit_admission ::
  "('d, 's) final_transaction \<Rightarrow> write_source \<Rightarrow> ('d, 'v, 'n) committer \<Rightarrow> (anyhow_error + unit) option" where
  "commit_admission tx source cm =
     (case ensure_leader_for_writes cm of
        Inl e \<Rightarrow> Some (Inl e)
      | Inr _ \<Rightarrow>
          if cm_prepared_transactions cm \<noteq> []
          then Some (Inl (occ_error ''Commit blocked by unresolved 2PC prepared transactions''))
          else
            (case pending_bootstrap_metadata_write_ts (ft_table_mapping tx) cm of
               None \<Rightarrow> None
             | Some (Some _) \<Rightarrow> Some (Inl (occ_error ''Commit blocked by unresolved metadata write''))
             | Some None \<Rightarrow>
                 Some (and_then (owned_writes tx source cm) (\<lambda>_.
                   case conflicts_document_ids (map du_id (ft_writes tx)) (cm_prepared_writes cm) of
                     Some _ \<Rightarrow> Inl (occ_error ''Commit conflicts with unresolved 2PC prepared intent'')
                   | None \<Rightarrow>
                       validate_remote_read_frontiers (repeatable_ts (ft_begin_timestamp tx)) (ft_reads tx)
                         (ft_table_mapping tx) source cm))))"

definition validate_commit ::
  "('d, 's, 'v, 'n) commit_env \<Rightarrow> (timestamp \<Rightarrow> anyhow_error + timestamp) option \<Rightarrow> (anyhow_error + timestamp) \<Rightarrow>
   ('d, 's) final_transaction \<Rightarrow> write_source \<Rightarrow> ('d, 'v, 'n) committer \<Rightarrow>
   ((anyhow_error + write_handle \<times> 'd validated_document_write list) \<times> ('d, 'v, 'n) committer) option" where
  "validate_commit env oracle clock tx source cm =
     (case commit_admission tx source cm of
        None \<Rightarrow> None
      | Some (Inl e) \<Rightarrow> Some (Inl e, cm)
      | Some (Inr _) \<Rightarrow>
          (case next_commit_ts oracle clock cm of
             Inl e \<Rightarrow> Some (Inl e, cm)
           | Inr (cts, cm1) \<Rightarrow>
               (case ensure_no_conflict (ce_ops env) (ft_reads tx) (repeatable_ts (ft_begin_timestamp tx)) cts cm1 of
                  Inl e \<Rightarrow> Some (Inl e, cm1)
                | Inr _ \<Rightarrow>
                    (case sort_updates (ce_catalog env) (ft_table_mapping tx) (ft_writes tx) of
                       None \<Rightarrow> None
                     | Some ordered \<Rightarrow>
                         (case compute_writes env cts ordered cm1 of
                            Inl e \<Rightarrow> Some (Inl e, cm1)
                          | Inr (document_writes, snapshot) \<Rightarrow>
                              map_option (\<lambda>(handle, pending). (Inr (handle, document_writes), cm1\<lparr>cm_pending_writes := pending\<rparr>))
                                (pending_push_back cts (packed_writes ordered) source snapshot (cm_pending_writes cm1)))))))"

text \<open>
  The part of \<open>start_commit\<close> that changes the state.  A read-only transaction
  has no writes and commits at its begin timestamp without being queued; the
  other results are an error for the caller, and a handle that is now queued for
  Raft and persistence.
\<close>

definition start_commit ::
  "('d, 's, 'v, 'n) commit_env \<Rightarrow> (timestamp \<Rightarrow> anyhow_error + timestamp) option \<Rightarrow> (anyhow_error + timestamp) \<Rightarrow>
   ('d, 's) final_transaction \<Rightarrow> write_source \<Rightarrow> nat \<Rightarrow> ('d, 'v, 'n) committer \<Rightarrow>
   ((anyhow_error + timestamp + write_handle) \<times> ('d, 'v, 'n) committer) option" where
  "start_commit env oracle clock tx source commit_id cm =
     (if ft_writes tx = [] then Some (Inr (Inl (repeatable_ts (ft_begin_timestamp tx))), cm)
      else
        (case validate_commit env oracle clock tx source cm of
           None \<Rightarrow> None
         | Some (Inl e, cm1) \<Rightarrow> Some (Inl e, cm1)
         | Some (Inr (handle, _), cm1) \<Rightarrow>
             (case (pending_latest_snapshot (cm_pending_writes cm1), must_commit_ts handle) of
                (Some snapshot, Some cts) \<Rightarrow>
                  map_option (\<lambda>cm2. (Inr (Inr handle), cm2)) (enqueue_snapshot commit_id cts snapshot cm1)
              | _ \<Rightarrow> None)))"

section \<open>Publishing\<close>

definition index_keys_from_full_documents ::
  "('d, 's, 'v, 'n) commit_env \<Rightarrow> 'd ordered_document_writes \<Rightarrow> 'n \<Rightarrow> ('d, 'v) ordered_index_key_writes" where
  "index_keys_from_full_documents env ws snapshot =
     map (\<lambda>(ident, u). (ident, ce_index_keys env snapshot u, pu_new u)) ws"

definition publish_commit_from_updates ::
  "('d, 's, 'v, 'n) commit_env \<Rightarrow> (nat \<Rightarrow> bool) \<Rightarrow> timestamp \<Rightarrow> 'd ordered_document_writes \<Rightarrow> write_source \<Rightarrow> 'n \<Rightarrow>
   timestamp \<Rightarrow> u64 \<Rightarrow> ('d, 'v, 'n) committer \<Rightarrow> ((anyhow_error + unit) \<times> ('d, 'v, 'n) committer) option" where
  "publish_commit_from_updates env closed cts ws source snapshot delta_ts write_bytes cm =
     (if delta_ts \<noteq> cts then Some (Inl (anyhow ''publish commit called with another delta ts''), cm)
      else if \<not> cm_latest_ts cm < cts then Some (Inl (anyhow ''Commit can no longer publish''), cm)
      else
        (case wm_append closed cts (index_keys_from_full_documents env ws snapshot) source (cm_log cm) of
           None \<Rightarrow> None
         | Some (log, _) \<Rightarrow>
             (case sm_push closed (ce_transaction_window env) (ce_throughput_window env) cts snapshot write_bytes
                     (cm_snapshots cm) of
                None \<Rightarrow> None
              | Some (snapshots, _) \<Rightarrow> Some (Inr (), cm\<lparr>cm_log := log, cm_snapshots := snapshots\<rparr>))))"

definition publish_commit ::
  "('d, 's, 'v, 'n) commit_env \<Rightarrow> (nat \<Rightarrow> bool) \<Rightarrow> write_handle \<Rightarrow> timestamp \<Rightarrow> u64 \<Rightarrow> ('d, 'v, 'n) committer \<Rightarrow>
   ((anyhow_error + unit) \<times> ('d, 'v, 'n) committer) option" where
  "publish_commit env closed handle delta_ts write_bytes cm =
     (case must_commit_ts handle of
        None \<Rightarrow> None
      | Some cts \<Rightarrow>
          if delta_ts \<noteq> cts then Some (Inl (anyhow ''pending write had another Raft delta''), cm)
          else
            (case pending_pop_first (cm_pending_writes cm) of
               (None, _) \<Rightarrow> None
             | (Some (ts, ws, source, snapshot), pending) \<Rightarrow>
                 if ts \<noteq> cts then None
                 else publish_commit_from_updates env closed cts ws source snapshot delta_ts write_bytes
                        (cm\<lparr>cm_pending_writes := pending\<rparr>)))"

text \<open>The arms of the main loop for a write that is persisted, and for one that is rejected before.\<close>

definition finish_commit ::
  "('d, 's, 'v, 'n) commit_env \<Rightarrow> (nat \<Rightarrow> bool) \<Rightarrow> nat \<Rightarrow> write_handle \<Rightarrow> timestamp \<Rightarrow> u64 \<Rightarrow> ('d, 'v, 'n) committer \<Rightarrow>
   ((anyhow_error + unit) \<times> ('d, 'v, 'n) committer) option" where
  "finish_commit env closed commit_id handle delta_ts write_bytes cm =
     Option.bind (dequeue_snapshot commit_id cm) (publish_commit env closed handle delta_ts write_bytes)"

definition reject_commit ::
  "('d, 's, 'v, 'n) commit_env \<Rightarrow> nat \<Rightarrow> write_handle \<Rightarrow> ('d, 'v, 'n) committer \<Rightarrow>
   ((anyhow_error + unit) \<times> ('d, 'v, 'n) committer) option" where
  "reject_commit env commit_id handle cm =
     (case dequeue_snapshot commit_id cm of
        None \<Rightarrow> None
      | Some cm1 \<Rightarrow>
          (case writes_remove handle (cm_pending_writes cm1) of
             (None, pending) \<Rightarrow> Some (Inl (anyhow ''pre-persistence rejected commit was not pending''), cm1\<lparr>cm_pending_writes := pending\<rparr>)
           | (Some _, pending) \<Rightarrow>
               map_option (\<lambda>recomputed. (Inr (), cm1\<lparr>cm_pending_writes := recomputed\<rparr>))
                 (recompute_pending_snapshots
                    (\<lambda>u ts n. case ce_update env u ts n of Inl _ \<Rightarrow> None | Inr n' \<Rightarrow> Some n')
                    (cm_latest_snapshot cm1) pending)))"

definition publish_prepared_commit ::
  "('d, 's, 'v, 'n) commit_env \<Rightarrow> (nat \<Rightarrow> bool) \<Rightarrow> string \<Rightarrow> timestamp \<Rightarrow> u64 \<Rightarrow> ('d, 'v, 'n) committer \<Rightarrow>
   ((anyhow_error + unit) \<times> ('d, 'v, 'n) committer) option" where
  "publish_prepared_commit env closed txn delta_ts write_bytes cm =
     (case bt_get (cm_prepared_transactions cm) txn of
        None \<Rightarrow> Some (Inl (anyhow ''2PC CommitPrepared: unknown transaction''), cm)
      | Some prepared \<Rightarrow>
          (case writes_remove (ptx_prepared_write prepared) (cm_prepared_writes cm) of
             (removed, prepared_writes) \<Rightarrow>
               let cm1 = cm\<lparr>cm_prepared_transactions := bt_remove txn (cm_prepared_transactions cm),
                           cm_prepared_writes := prepared_writes\<rparr> in
               case removed of
                 None \<Rightarrow> Some (Inl (anyhow ''2PC CommitPrepared: prepared intent was missing''), cm1)
               | Some (intent_ts, ws, source, snapshot) \<Rightarrow>
                   if intent_ts \<noteq> ptx_commit_ts prepared
                   then Some (Inl (anyhow ''2PC CommitPrepared: prepared intent had another ts''), cm1)
                   else if delta_ts \<noteq> ptx_commit_ts prepared
                   then Some (Inl (anyhow ''2PC CommitPrepared: persisted delta had another ts''), cm1)
                   else publish_commit_from_updates env closed delta_ts ws source snapshot delta_ts write_bytes cm1))"

section \<open>Rolling back\<close>

text \<open>\<open>io\<close> is whether a write of the redo records to persistence succeeds.\<close>

definition delete_two_phase_redo ::
  "(anyhow_error + unit) \<Rightarrow> string \<Rightarrow> ('d, 'v, 'n) committer \<Rightarrow> (anyhow_error + unit) \<times> ('d, 'v, 'n) committer" where
  "delete_two_phase_redo io txn cm =
     (if bt_get (cm_redo cm) txn = None then (Inr (), cm)
      else (case io of Inl e \<Rightarrow> (Inl e, cm) | Inr _ \<Rightarrow> (Inr (), cm\<lparr>cm_redo := bt_remove txn (cm_redo cm)\<rparr>)))"

definition handle_rollback_prepared ::
  "(anyhow_error + unit) \<Rightarrow> string \<Rightarrow> ('d, 'v, 'n) committer \<Rightarrow> (anyhow_error + unit) \<times> ('d, 'v, 'n) committer" where
  "handle_rollback_prepared io txn cm =
     (if bt_get (cm_commit_waiters cm) txn \<noteq> None
      then (Inl (anyhow ''2PC RollbackPrepared: transaction is already committing''), cm)
      else
        (case bt_get (cm_prepared_transactions cm) txn of
           None \<Rightarrow> if bt_get (cm_redo cm) txn \<noteq> None then delete_two_phase_redo io txn cm else (Inr (), cm)
         | Some prepared \<Rightarrow>
             (case writes_remove (ptx_prepared_write prepared) (cm_prepared_writes cm) of
                (removed, prepared_writes) \<Rightarrow>
                  (if removed = None then Inl (anyhow ''2PC RollbackPrepared: prepared intent was missing'') else Inr (),
                   cm\<lparr>cm_prepared_transactions := bt_remove txn (cm_prepared_transactions cm),
                      cm_prepared_writes := prepared_writes\<rparr>))))"

text \<open>Answering the callers that wait for a transaction; the second result lists their channels.\<close>

definition send_prepared_commit_waiters :: "string \<Rightarrow> ('d, 'v, 'n) committer \<Rightarrow> ('d, 'v, 'n) committer \<times> nat list" where
  "send_prepared_commit_waiters txn cm =
     (case bt_get (cm_commit_waiters cm) txn of
        None \<Rightarrow> (cm, [])
      | Some waiters \<Rightarrow> (cm\<lparr>cm_commit_waiters := bt_remove txn (cm_commit_waiters cm)\<rparr>, waiters))"

definition send_prepared_rollback_waiters :: "string \<Rightarrow> ('d, 'v, 'n) committer \<Rightarrow> ('d, 'v, 'n) committer \<times> nat list" where
  "send_prepared_rollback_waiters txn cm =
     (case bt_get (cm_rollback_waiters cm) txn of
        None \<Rightarrow> (cm, [])
      | Some waiters \<Rightarrow> (cm\<lparr>cm_rollback_waiters := bt_remove txn (cm_rollback_waiters cm)\<rparr>, waiters))"

definition attach_waiter :: "string \<Rightarrow> nat \<Rightarrow> (string, nat list) btree_map \<Rightarrow> (string, nat list) btree_map" where
  "attach_waiter txn channel waiters =
     bt_insert txn ((case bt_get waiters txn of None \<Rightarrow> [] | Some ws \<Rightarrow> ws) @ [channel]) waiters"

text \<open>
  What a handler that starts a Raft proposal does with its caller: it answers at
  once, lets the caller wait, tries again later, or has proposed the entry.
\<close>

datatype start_outcome = Answered anyhow_error | Attached | Deferred | Proposed timestamp

definition start_rollback_prepared_through_raft ::
  "(anyhow_error + unit) \<Rightarrow> string \<Rightarrow> nat \<Rightarrow> ('d, 'v, 'n) committer \<Rightarrow> (anyhow_error + bool) \<times> ('d, 'v, 'n) committer" where
  "start_rollback_prepared_through_raft propose txn channel cm =
     (if bt_get (cm_rollback_waiters cm) txn \<noteq> None
      then (Inr False, cm\<lparr>cm_rollback_waiters := attach_waiter txn channel (cm_rollback_waiters cm)\<rparr>)
      else if bt_get (cm_commit_waiters cm) txn \<noteq> None
      then (Inl (anyhow ''2PC RollbackPrepared: transaction is already committing''), cm)
      else
        (case and_then (ensure_leader_for_writes cm) (\<lambda>_. propose) of
           Inl e \<Rightarrow> (Inl e, cm)
         | Inr _ \<Rightarrow> (Inr True, cm\<lparr>cm_rollback_waiters := attach_waiter txn channel (cm_rollback_waiters cm)\<rparr>)))"

text \<open>
  The arm of the main loop for a rollback that Raft has accepted.  \<open>mark\<close> is the
  answer of Raft to \<open>mark_applied\<close>, asked when the rollback has a Raft index.  An
  error ends the committer.
\<close>

definition finish_rollback ::
  "(anyhow_error + unit) \<Rightarrow> (anyhow_error + unit) option \<Rightarrow> string \<Rightarrow> ('d, 'v, 'n) committer \<Rightarrow>
   (anyhow_error + nat list) \<times> ('d, 'v, 'n) committer" where
  "finish_rollback io mark txn cm =
     (case handle_rollback_prepared io txn cm of
        (Inl e, cm1) \<Rightarrow> (Inl e, fst (send_prepared_rollback_waiters txn cm1))
      | (Inr _, cm1) \<Rightarrow>
          (case (case mark of
                   None \<Rightarrow> delete_two_phase_redo io txn cm1
                 | Some marked \<Rightarrow>
                     (case io of
                        Inl e \<Rightarrow> (Inl e, cm1)
                      | Inr _ \<Rightarrow>
                          (if cm_raft cm1 = None then Inl (anyhow ''Raft applied index without Raft state'') else marked,
                           cm1\<lparr>cm_redo := bt_remove txn (cm_redo cm1)\<rparr>))) of
             (Inl e, cm2) \<Rightarrow> (Inl e, fst (send_prepared_rollback_waiters txn cm2))
           | (Inr _, cm2) \<Rightarrow> (let (cm3, channels) = send_prepared_rollback_waiters txn cm2 in (Inr channels, cm3))))"

section \<open>The participant\<close>

definition catalog_creation_lost ::
  "'d catalog_ops \<Rightarrow> ('d, 's) participant_transaction \<Rightarrow> table_mapping \<Rightarrow> 'd document_update_with_prev_ts \<Rightarrow> anyhow_error + unit" where
  "catalog_creation_lost cat tx local_mapping w =
     (case (du_old w, du_new w, bt_get (pt_tablet_metadata tx) (fst (du_id w))) of
        (None, Some doc, Some md) \<Rightarrow>
          if ptm_table_name md \<noteq> tables_table then Inr ()
          else
            (case parse_table_metadata cat doc of
               Inl e \<Rightarrow> Inl (with_context ''failed to parse _tables metadata'' e)
             | Inr table \<Rightarrow>
                 if is_system (tmd_name table) \<or> tmd_state table \<noteq> Active then Inr ()
                 else
                   (case id_if_exists (tm_namespace local_mapping (tmd_namespace table)) (tmd_name table) of
                      Some existing \<Rightarrow>
                        if existing \<noteq> snd (snd (du_id w))
                        then Inl (occ_error ''2PC catalog create lost a concurrent creation race'') else Inr ()
                    | None \<Rightarrow> Inr ()))
      | _ \<Rightarrow> Inr ())"

fun check_all :: "('a \<Rightarrow> anyhow_error + unit) \<Rightarrow> 'a list \<Rightarrow> anyhow_error + unit" where
  "check_all check [] = Inr ()"
| "check_all check (x # xs) = and_then (check x) (\<lambda>_. check_all check xs)"

definition validate_participant_catalog_creations ::
  "'d catalog_ops \<Rightarrow> ('d, 's) participant_transaction \<Rightarrow> table_mapping \<Rightarrow> anyhow_error + unit" where
  "validate_participant_catalog_creations cat tx local_mapping =
     check_all (catalog_creation_lost cat tx local_mapping) (pt_writes tx)"

fun map_all :: "('a \<Rightarrow> anyhow_error + 'b) \<Rightarrow> 'a list \<Rightarrow> anyhow_error + 'b list" where
  "map_all f [] = Inr []"
| "map_all f (x # xs) = and_then (f x) (\<lambda>y. and_then (map_all f xs) (\<lambda>ys. Inr (y # ys)))"

definition remap_option :: "('a \<Rightarrow> anyhow_error + 'b) \<Rightarrow> 'a option \<Rightarrow> anyhow_error + 'b option" where
  "remap_option f x = (case x of None \<Rightarrow> Inr None | Some y \<Rightarrow> and_then (f y) (\<lambda>z. Inr (Some z)))"

definition remap_participant_system_table_write ::
  "('d, 's, 'v, 'n) commit_env \<Rightarrow> table_mapping \<Rightarrow> table_mapping \<Rightarrow> 'd document_update_with_prev_ts \<Rightarrow>
   anyhow_error + 'd document_update_with_prev_ts" where
  "remap_participant_system_table_write env source_mapping local_mapping w =
     (case tablet_name source_mapping (fst (du_id w)) of
        Inl _ \<Rightarrow> Inr w
      | Inr table \<Rightarrow>
          if table \<noteq> tables_table \<and> table \<noteq> index_table then Inr w
          else
            and_then (nm_id (tm_namespace local_mapping Global) table) (\<lambda>(tablet, number).
              let remapped = (tablet, number, snd (snd (du_id w))) in
              and_then (remap_option (\<lambda>(doc, ts). and_then (ce_remap_document env remapped doc) (\<lambda>d. Inr (d, ts))) (du_old w)) (\<lambda>old_doc.
              and_then (remap_option (ce_remap_document env remapped) (du_new w)) (\<lambda>new_doc.
              Inr \<lparr>du_id = remapped, du_old = old_doc, du_new = new_doc\<rparr>))))"

definition remap_participant_system_table_writes ::
  "('d, 's, 'v, 'n) commit_env \<Rightarrow> table_mapping \<Rightarrow> table_mapping \<Rightarrow> 'd document_update_with_prev_ts list \<Rightarrow>
   anyhow_error + 'd document_update_with_prev_ts list" where
  "remap_participant_system_table_writes env source_mapping local_mapping ws =
     map_all (remap_participant_system_table_write env source_mapping local_mapping) ws"

text \<open>Whether a catalog insert of a replayed prepare is already there.\<close>

definition creation_satisfied ::
  "('d, 's, 'v, 'n) commit_env \<Rightarrow> tablet_id \<Rightarrow> tablet_id \<Rightarrow> 'n \<Rightarrow> 'd document_update_with_prev_ts \<Rightarrow> anyhow_error + bool" where
  "creation_satisfied env tables_tablet index_tablet snapshot w =
     (case (du_old w, du_new w) of
        (None, Some doc) \<Rightarrow>
          if fst (du_id w) = tables_tablet
          then
            and_then (parse_table_metadata (ce_catalog env) doc) (\<lambda>md.
              let mapping = ce_table_mapping env snapshot; tablet = snd (snd (du_id w)) in
              if \<not> tablet_id_exists mapping tablet then Inr False
              else
                and_then (tablet_namespace mapping tablet) (\<lambda>ns.
                  if ns \<noteq> tmd_namespace md then Inl (anyhow ''2PC replay found tablet already mapped to a different table'')
                  else
                    and_then (tablet_number mapping tablet) (\<lambda>number.
                      if number \<noteq> tmd_number md then Inl (anyhow ''2PC replay found tablet already mapped to a different table'')
                      else
                        and_then (tablet_name mapping tablet) (\<lambda>table.
                          if table \<noteq> tmd_name md then Inl (anyhow ''2PC replay found tablet already mapped to a different table'')
                          else Inr True))))
          else if fst (du_id w) = index_tablet then ce_index_materialized env snapshot doc
          else Inr False
      | _ \<Rightarrow> Inr False)"

fun filter_unsatisfied ::
  "('d, 's, 'v, 'n) commit_env \<Rightarrow> tablet_id \<Rightarrow> tablet_id \<Rightarrow> 'n \<Rightarrow> 'd document_update_with_prev_ts list \<Rightarrow>
   anyhow_error + 'd document_update_with_prev_ts list" where
  "filter_unsatisfied env tables_tablet index_tablet snapshot [] = Inr []"
| "filter_unsatisfied env tables_tablet index_tablet snapshot (w # ws) =
     and_then (creation_satisfied env tables_tablet index_tablet snapshot w) (\<lambda>done.
     and_then (filter_unsatisfied env tables_tablet index_tablet snapshot ws) (\<lambda>rest.
     Inr (if done then rest else w # rest)))"

definition filter_satisfied_replayed_catalog_creations ::
  "('d, 's, 'v, 'n) commit_env \<Rightarrow> table_mapping \<Rightarrow> 'n \<Rightarrow> 'd document_update_with_prev_ts list \<Rightarrow>
   anyhow_error + 'd document_update_with_prev_ts list" where
  "filter_satisfied_replayed_catalog_creations env mapping snapshot ws =
     and_then (nm_id (tm_namespace mapping Global) tables_table) (\<lambda>(tables_tablet, _).
     and_then (nm_id (tm_namespace mapping Global) index_table) (\<lambda>(index_tablet, _).
     filter_unsatisfied env tables_tablet index_tablet snapshot ws))"

definition stage_participant_prepared_transaction ::
  "('d, 's, 'v, 'n) commit_env \<Rightarrow> string \<Rightarrow> ('d, 's) participant_transaction \<Rightarrow> write_source \<Rightarrow> timestamp \<Rightarrow> bool \<Rightarrow> bool \<Rightarrow>
   ('d, 'v, 'n) committer \<Rightarrow> ((anyhow_error + timestamp) \<times> ('d, 'v, 'n) committer) option" where
  "stage_participant_prepared_transaction env txn tx source prepare_ts require_leader rewrite cm =
     (let snapshot = base_snapshot_for_new_writes cm;
          local_mapping = ce_table_mapping env snapshot;
          mapping = augment_table_mapping tx local_mapping in
      case and_then (validate_participant_catalog_creations (ce_catalog env) tx local_mapping) (\<lambda>_.
           and_then (remap_participant_system_table_writes env mapping local_mapping (pt_writes tx)) (\<lambda>ws.
           if rewrite then filter_satisfied_replayed_catalog_creations env mapping snapshot ws else Inr ws)) of
        Inl e \<Rightarrow> Some (Inl e, cm)
      | Inr ws \<Rightarrow>
          stage_prepared_transaction env None (Inl (anyhow ''unused'')) txn (repeatable_ts (pt_begin_timestamp tx)) (pt_reads tx)
            ws mapping source (Some prepare_ts) require_leader rewrite cm)"

definition validate_participant_reads ::
  "('d, 's, 'v, 'n) commit_env \<Rightarrow> ('d, 's) participant_transaction \<Rightarrow> write_source \<Rightarrow> timestamp \<Rightarrow>
   ('d, 'v, 'n) committer \<Rightarrow> (anyhow_error + unit) \<times> ('d, 'v, 'n) committer" where
  "validate_participant_reads env tx source validate_ts cm =
     (let mapping = augment_table_mapping tx (ce_table_mapping env (cm_latest_snapshot cm));
          begin_ts = repeatable_ts (pt_begin_timestamp tx) in
      case and_then (ensure_leader_for_writes cm) (\<lambda>_.
           if pt_writes tx \<noteq> [] then Inl (anyhow ''write participants must use Prepare'')
           else
             and_then (ensure_read_ownership (pt_reads tx) mapping source cm) (\<lambda>_.
             and_then (validate_remote_read_frontiers begin_ts (pt_reads tx) mapping source cm) (\<lambda>_.
             and_then (explicit_prepare_commit_floor cm) (\<lambda>floor.
               if validate_ts < floor
               then Inl ((anyhow ''prepare timestamp too low'')\<lparr>err_too_low := Some (validate_ts, floor)\<rparr>)
               else ensure_no_conflict (ce_ops env) (pt_reads tx) begin_ts validate_ts cm)))) of
        Inl e \<Rightarrow> (Inl e, cm)
      | Inr _ \<Rightarrow> (Inr (), cm\<lparr>cm_last_assigned_ts := max validate_ts (cm_last_assigned_ts cm)\<rparr>))"

section \<open>Redo records\<close>

text \<open>\<open>decode\<close> stands for the decoding of the transaction of a redo record.\<close>

definition stage_two_phase_redo_entry ::
  "('d, 's, 'v, 'n) commit_env \<Rightarrow> (string \<Rightarrow> anyhow_error + ('d, 's) participant_transaction) \<Rightarrow>
   two_phase_redo_entry \<Rightarrow> bool \<Rightarrow> bool \<Rightarrow> ('d, 'v, 'n) committer \<Rightarrow>
   ((anyhow_error + timestamp) \<times> ('d, 'v, 'n) committer) option" where
  "stage_two_phase_redo_entry env decode entry require_leader rewrite cm =
     (case and_then (lift_ts (redo_prepare_ts entry)) (\<lambda>prepare_ts.
           case decode (re_participant_transaction_hex entry) of
             Inl e \<Rightarrow> Inl (with_context ''2PC: failed to decode participant transaction'' e)
           | Inr tx \<Rightarrow>
               if re_partition_id entry \<noteq> local_partition_for_two_phase cm
               then Inl (anyhow ''2PC redo belongs to another partition'') else Inr (prepare_ts, tx)) of
        Inl e \<Rightarrow> Some (Inl e, cm)
      | Inr (prepare_ts, tx) \<Rightarrow>
          stage_participant_prepared_transaction env (re_transaction_id entry) tx (re_write_source entry) prepare_ts
            require_leader rewrite cm)"

definition stage_durable_two_phase_redo ::
  "('d, 's, 'v, 'n) commit_env \<Rightarrow> (string \<Rightarrow> anyhow_error + ('d, 's) participant_transaction) \<Rightarrow> string \<Rightarrow> bool \<Rightarrow>
   ('d, 'v, 'n) committer \<Rightarrow> ((anyhow_error + bool) \<times> ('d, 'v, 'n) committer) option" where
  "stage_durable_two_phase_redo env decode txn require_leader cm =
     (if bt_get (cm_prepared_transactions cm) txn \<noteq> None then Some (Inr False, cm)
      else
        (case bt_get (cm_redo cm) txn of
           None \<Rightarrow> Some (Inr False, cm)
         | Some entry \<Rightarrow>
             map_option (\<lambda>(r, cm'). (case r of Inl e \<Rightarrow> Inl (with_context ''2PC: failed to stage durable redo'' e)
                                     | Inr _ \<Rightarrow> Inr True, cm'))
               (stage_two_phase_redo_entry env decode entry require_leader False cm)))"

text \<open>
  Recovery after a restart, record by record.  \<open>was_committed\<close> stands for
  \<open>redo_entry_is_already_committed\<close>, which looks for the writes of a record in
  persistence at its timestamp.
\<close>

fun recover_two_phase_redo_records ::
  "('d, 's, 'v, 'n) commit_env \<Rightarrow> (string \<Rightarrow> anyhow_error + ('d, 's) participant_transaction) \<Rightarrow>
   (two_phase_redo_entry \<Rightarrow> anyhow_error + bool) \<Rightarrow> (anyhow_error + unit) \<Rightarrow> two_phase_redo_entry list \<Rightarrow>
   ('d, 'v, 'n) committer \<Rightarrow> ((anyhow_error + unit) \<times> ('d, 'v, 'n) committer) option" where
  "recover_two_phase_redo_records env decode was_committed io [] cm = Some (Inr (), cm)"
| "recover_two_phase_redo_records env decode was_committed io (entry # entries) cm =
     (case and_then (lift_ts (redo_prepare_ts entry)) (\<lambda>_.
           case decode (re_participant_transaction_hex entry) of
             Inl e \<Rightarrow> Inl (with_context ''2PC Recovery: failed to decode participant transaction'' e)
           | Inr _ \<Rightarrow>
               if re_partition_id entry \<noteq> local_partition_for_two_phase cm then Inr None
               else and_then (was_committed entry) (\<lambda>c. Inr (Some c))) of
        Inl e \<Rightarrow> Some (Inl e, cm)
      | Inr None \<Rightarrow> recover_two_phase_redo_records env decode was_committed io entries cm
      | Inr (Some True) \<Rightarrow>
          (case delete_two_phase_redo io (re_transaction_id entry) cm of
             (Inl e, cm1) \<Rightarrow> Some (Inl e, cm1)
           | (Inr _, cm1) \<Rightarrow> recover_two_phase_redo_records env decode was_committed io entries cm1)
      | Inr (Some False) \<Rightarrow>
          (case stage_two_phase_redo_entry env decode entry False True cm of
             None \<Rightarrow> None
           | Some (Inl e, cm1) \<Rightarrow> Some (Inl (with_context ''2PC Recovery: failed to stage prepared'' e), cm1)
           | Some (Inr _, cm1) \<Rightarrow> recover_two_phase_redo_records env decode was_committed io entries cm1))"

text \<open>
  The answers that a prepare gets while it makes itself durable: to the write of
  the redo record, to the proposal, from the quorum (the Raft index, if there is
  Raft), to the write of the record with that index, and to \<open>mark_applied\<close>.
\<close>

record prepare_io =
  io_persist :: "anyhow_error + unit"
  io_propose :: "anyhow_error + unit"
  io_quorum :: "anyhow_error + u64 option"
  io_delete :: "anyhow_error + unit"
  io_persist_index :: "anyhow_error + unit"
  io_mark_applied :: "anyhow_error + unit"

definition persist_two_phase_redo ::
  "(anyhow_error + unit) \<Rightarrow> two_phase_redo_entry \<Rightarrow> ('d, 'v, 'n) committer \<Rightarrow> (anyhow_error + unit) \<times> ('d, 'v, 'n) committer" where
  "persist_two_phase_redo io entry cm =
     (case io of
        Inl e \<Rightarrow> (Inl e, cm)
      | Inr _ \<Rightarrow> (Inr (), cm\<lparr>cm_redo := bt_insert (re_transaction_id entry) entry (cm_redo cm)\<rparr>))"

definition undo_prepare :: "(anyhow_error + unit) \<Rightarrow> string \<Rightarrow> ('d, 'v, 'n) committer \<Rightarrow> ('d, 'v, 'n) committer" where
  "undo_prepare io txn cm = snd (delete_two_phase_redo io txn (snd (handle_rollback_prepared io txn cm)))"

definition make_prepare_durable ::
  "prepare_io \<Rightarrow> string \<Rightarrow> two_phase_redo_entry \<Rightarrow> timestamp \<Rightarrow> ('d, 'v, 'n) committer \<Rightarrow>
   (anyhow_error + timestamp) \<times> ('d, 'v, 'n) committer" where
  "make_prepare_durable io txn redo prepare_ts cm =
     (case persist_two_phase_redo (io_persist io) redo cm of
        (Inl e, cm1) \<Rightarrow> (Inl e, snd (handle_rollback_prepared (io_delete io) txn cm1))
      | (Inr _, cm1) \<Rightarrow>
          (case and_then (io_propose io) (\<lambda>_. io_quorum io) of
             Inl e \<Rightarrow> (Inl e, undo_prepare (io_delete io) txn cm1)
           | Inr None \<Rightarrow> (Inr prepare_ts, cm1)
           | Inr (Some _) \<Rightarrow>
               (case persist_two_phase_redo (io_persist_index io) redo cm1 of
                  (Inl e, cm2) \<Rightarrow> (Inl e, cm2)
                | (Inr _, cm2) \<Rightarrow>
                    (if cm_raft cm2 = None then Inl (anyhow ''Raft applied index without Raft state'')
                     else and_then (io_mark_applied io) (\<lambda>_. Inr prepare_ts), cm2))))"

definition handle_prepare ::
  "('d, 's, 'v, 'n) commit_env \<Rightarrow> (timestamp \<Rightarrow> anyhow_error + timestamp) option \<Rightarrow> (anyhow_error + timestamp) \<Rightarrow>
   (('d, 's) participant_transaction \<Rightarrow> anyhow_error + string) \<Rightarrow> u64 \<Rightarrow> prepare_io \<Rightarrow> string \<Rightarrow>
   ('d, 's) final_transaction \<Rightarrow> write_source \<Rightarrow> ('d, 'v, 'n) committer \<Rightarrow>
   ((anyhow_error + timestamp) \<times> ('d, 'v, 'n) committer) option" where
  "handle_prepare env oracle clock encode_hex now io txn tx source cm =
     (case from_entire_final_transaction tx of
        Inl e \<Rightarrow> Some (Inl e, cm)
      | Inr participant_tx \<Rightarrow>
          (case stage_prepared_transaction env oracle clock txn (repeatable_ts (ft_begin_timestamp tx)) (ft_reads tx)
                  (ft_writes tx) (ft_table_mapping tx) source None True False cm of
             None \<Rightarrow> None
           | Some (Inl e, cm1) \<Rightarrow> Some (Inl e, cm1)
           | Some (Inr prepare_ts, cm1) \<Rightarrow>
               Some (case redo_new encode_hex now txn prepare_ts (local_partition_for_two_phase cm1) participant_tx source of
                       Inl e \<Rightarrow> (Inl e, cm1)
                     | Inr redo \<Rightarrow> make_prepare_durable io txn redo prepare_ts cm1)))"

definition handle_prepare_remote ::
  "('d, 's, 'v, 'n) commit_env \<Rightarrow> (('d, 's) participant_transaction \<Rightarrow> anyhow_error + string) \<Rightarrow> u64 \<Rightarrow> prepare_io \<Rightarrow>
   string \<Rightarrow> ('d, 's) participant_transaction \<Rightarrow> write_source \<Rightarrow> timestamp \<Rightarrow> partition_id list \<Rightarrow> ('d, 'v, 'n) committer \<Rightarrow>
   ((anyhow_error + timestamp) \<times> ('d, 'v, 'n) committer) option" where
  "handle_prepare_remote env encode_hex now io txn tx source prepare_ts ps cm =
     (case redo_new_with_participants encode_hex now txn prepare_ts (local_partition_for_two_phase cm) ps tx source of
        Inl e \<Rightarrow> Some (Inl e, cm)
      | Inr redo \<Rightarrow>
          (case stage_participant_prepared_transaction env txn tx source prepare_ts True False cm of
             None \<Rightarrow> None
           | Some (Inl e, cm1) \<Rightarrow> Some (Inl e, cm1)
           | Some (Inr ts, cm1) \<Rightarrow> Some (make_prepare_durable io txn redo ts cm1)))"

text \<open>
  Starting the commit of a prepared transaction.  \<open>late\<close> tells that the deadline
  of a deferred request has passed; \<open>propose\<close> is the answer of Raft.
\<close>

definition start_commit_prepared ::
  "('d, 's, 'v, 'n) commit_env \<Rightarrow> (string \<Rightarrow> anyhow_error + ('d, 's) participant_transaction) \<Rightarrow> (anyhow_error + unit) \<Rightarrow>
   string \<Rightarrow> bool \<Rightarrow> bool \<Rightarrow> nat \<Rightarrow> ('d, 'v, 'n) committer \<Rightarrow> (start_outcome \<times> ('d, 'v, 'n) committer) option" where
  "start_commit_prepared env decode propose txn wait_for_predecessors late channel cm =
     (if bt_get (cm_rollback_waiters cm) txn \<noteq> None
      then Some (Answered (anyhow ''2PC CommitPrepared: transaction is already rolling back''), cm)
      else if bt_get (cm_commit_waiters cm) txn \<noteq> None
      then Some (Attached, cm\<lparr>cm_commit_waiters := attach_waiter txn channel (cm_commit_waiters cm)\<rparr>)
      else
        (case stage_durable_two_phase_redo env decode txn True cm of
           None \<Rightarrow> None
         | Some (Inl e, cm1) \<Rightarrow> Some (Answered e, cm1)
         | Some (Inr _, cm1) \<Rightarrow>
             (case bt_get (cm_prepared_transactions cm1) txn of
                None \<Rightarrow> Some (Answered (anyhow ''2PC CommitPrepared: unknown transaction''), cm1)
              | Some prepared \<Rightarrow>
                  let cts = ptx_commit_ts prepared in
                  if (case writes_min_ts (cm_prepared_writes cm1) of Some earliest \<Rightarrow> earliest < cts | None \<Rightarrow> False)
                  then
                    (if \<not> wait_for_predecessors
                     then Some (Answered (anyhow ''2PC CommitPrepared: blocked behind unresolved prepared ts''), cm1)
                     else if late
                     then Some (Answered (anyhow ''2PC CommitPrepared: local deferred retry deadline exceeded''), cm1)
                     else Some (Deferred, cm1))
                  else if bt_get (cm_prepared_writes cm1) cts = None
                  then Some (Answered (anyhow ''2PC CommitPrepared: prepared intent was missing''), cm1)
                  else
                    (case propose of
                       Inl e \<Rightarrow> Some (Answered e, cm1)
                     | Inr _ \<Rightarrow>
                         Some (Proposed cts,
                           cm1\<lparr>cm_commit_waiters := bt_insert txn [channel] (cm_commit_waiters cm1)\<rparr>)))))"

section \<open>Read barriers\<close>

datatype read_timestamp_closure = Closed timestamp | RetryAt timestamp | Blocked timestamp

definition max_closed_read_timestamps :: nat where
  "max_closed_read_timestamps = 4096"

definition note_closed :: "timestamp \<Rightarrow> ('d, 'v, 'n) committer \<Rightarrow> ('d, 'v, 'n) committer" where
  "note_closed ts cm =
     (let closed = bs_insert ts (cm_closed_read_timestamps cm)
      in cm\<lparr>cm_closed_read_timestamps := drop (length closed - max_closed_read_timestamps) closed\<rparr>)"

text \<open>The highest timestamp that the committer has assigned, queued, staged or published.\<close>

definition barrier_minimum :: "('d, 'v, 'n) committer \<Rightarrow> timestamp" where
  "barrier_minimum cm =
     (let m0 = max (cm_last_assigned_ts cm) (max (wl_max_ts (wm_log (cm_log cm))) (cm_latest_ts cm));
          m1 = (case latest_queued_snapshot cm of Some (ts, _) \<Rightarrow> max m0 ts | None \<Rightarrow> m0);
          m2 = (case pending_latest (cm_pending_writes cm) of Some (ts, _) \<Rightarrow> max m1 ts | None \<Rightarrow> m1)
      in (case writes_max_ts (cm_prepared_writes cm) of Some ts \<Rightarrow> max m2 ts | None \<Rightarrow> m2))"

text \<open>The right value is a barrier that is queued; its caller is answered when it is published.\<close>

definition close_unblocked ::
  "timestamp \<Rightarrow> bool \<Rightarrow> ('d, 'v, 'n) committer \<Rightarrow> (read_timestamp_closure + timestamp) \<times> ('d, 'v, 'n) committer" where
  "close_unblocked target include_latest cm =
     (if \<not> include_latest \<and> target \<le> cm_latest_ts cm then (Inl (Closed target), note_closed target cm)
      else if barrier_minimum cm > target then (Inl (RetryAt (barrier_minimum cm)), cm)
      else if target \<in> set (cm_closed_read_timestamps cm) then (Inl (Closed target), cm)
      else (Inr target, cm\<lparr>cm_last_assigned_ts := target, cm_read_barrier_floor := target\<rparr>))"

definition close_read_timestamp ::
  "timestamp \<Rightarrow> bool \<Rightarrow> ('d, 'v, 'n) committer \<Rightarrow>
   (anyhow_error + read_timestamp_closure + timestamp) \<times> ('d, 'v, 'n) committer" where
  "close_read_timestamp target include_latest cm =
     (case ensure_leader_for_read_barrier cm of
        Inl e \<Rightarrow> (Inl e, cm)
      | Inr _ \<Rightarrow>
          if \<not> include_latest \<and> target \<in> set (cm_closed_read_timestamps cm) then (Inr (Inl (Closed target)), cm)
          else
            (case writes_min_ts (cm_prepared_writes cm) of
               Some prepared_ts \<Rightarrow>
                 if prepared_ts \<le> target then (Inr (Inl (Blocked prepared_ts)), cm)
                 else apfst Inr (close_unblocked target include_latest cm)
             | None \<Rightarrow> apfst Inr (close_unblocked target include_latest cm)))"

definition publish_max_repeatable_ts ::
  "('d, 's, 'v, 'n) commit_env \<Rightarrow> (nat \<Rightarrow> bool) \<Rightarrow> timestamp \<Rightarrow> ('d, 'v, 'n) committer \<Rightarrow>
   ((anyhow_error + unit) \<times> ('d, 'v, 'n) committer) option" where
  "publish_max_repeatable_ts env closed ts cm =
     (case bump_persisted_max_repeatable_ts closed (ce_transaction_window env) (ce_throughput_window env) ts (cm_snapshots cm) of
        None \<Rightarrow> None
      | Some (Inl e, sm, _) \<Rightarrow> Some (Inl e, cm\<lparr>cm_snapshots := sm\<rparr>)
      | Some (Inr advanced, sm, _) \<Rightarrow>
          if \<not> advanced then Some (Inr (), cm\<lparr>cm_snapshots := sm\<rparr>)
          else map_option (\<lambda>(log, _). (Inr (), cm\<lparr>cm_snapshots := sm, cm_log := log\<rparr>))
                 (wm_append closed ts [] (Some ''publish_max_repeatable_ts'') (cm_log cm)))"

text \<open>
  The arm of the main loop for a timestamp that persistence has recorded:
  \<open>barrier\<close> tells a read barrier from a background bump, for which the result is
  what is sent back.
\<close>

definition publish_repeatable ::
  "('d, 's, 'v, 'n) commit_env \<Rightarrow> (nat \<Rightarrow> bool) \<Rightarrow> timestamp \<Rightarrow> bool \<Rightarrow> ('d, 'v, 'n) committer \<Rightarrow>
   ((anyhow_error + read_timestamp_closure) \<times> ('d, 'v, 'n) committer) option" where
  "publish_repeatable env closed ts barrier cm =
     (case (if barrier then ensure_leader_for_read_barrier cm else Inr ()) of
        Inl e \<Rightarrow> Some (Inl e, cm)
      | Inr _ \<Rightarrow>
          map_option (\<lambda>(r, cm1). case r of
              Inl e \<Rightarrow> (Inl e, cm1)
            | Inr _ \<Rightarrow> (Inr (Closed ts), if barrier then note_closed ts cm1 else cm1))
            (publish_max_repeatable_ts env closed ts cm))"

definition finish_max_repeatable_ts ::
  "('d, 's, 'v, 'n) commit_env \<Rightarrow> (nat \<Rightarrow> bool) \<Rightarrow> timestamp \<Rightarrow> bool \<Rightarrow> ('d, 'v, 'n) committer \<Rightarrow>
   ((anyhow_error + read_timestamp_closure) \<times> ('d, 'v, 'n) committer) option" where
  "finish_max_repeatable_ts env closed ts barrier cm =
     (case writes_min_ts (cm_prepared_writes cm) of
        Some prepared_ts \<Rightarrow>
          if prepared_ts \<le> ts then Some (Inr (Blocked prepared_ts), cm)
          else publish_repeatable env closed ts barrier cm
      | None \<Rightarrow> publish_repeatable env closed ts barrier cm)"

definition try_next_maintenance_ts ::
  "((timestamp \<Rightarrow> anyhow_error + timestamp option) option) \<Rightarrow> (anyhow_error + timestamp) \<Rightarrow> ('d, 'v, 'n) committer \<Rightarrow>
   anyhow_error + timestamp option \<times> ('d, 'v, 'n) committer" where
  "try_next_maintenance_ts oracle clock cm =
     (case oracle of
        None \<Rightarrow> and_then (next_commit_ts None clock cm) (\<lambda>(ts, cm'). Inr (Some ts, cm'))
      | Some try_next \<Rightarrow>
          and_then (local_commit_floor cm) (\<lambda>local_floor.
          and_then (try_next local_floor) (\<lambda>r.
            case r of
              None \<Rightarrow> Inr (None, cm)
            | Some ts \<Rightarrow>
                if \<not> ts \<ge> local_floor then Inl (anyhow ''TSO returned a maintenance ts below the requested local floor'')
                else Inr (Some ts, cm\<lparr>cm_last_assigned_ts := ts\<rparr>))))"

definition try_next_max_repeatable_ts ::
  "((timestamp \<Rightarrow> anyhow_error + timestamp option) option) \<Rightarrow> (anyhow_error + timestamp) \<Rightarrow> ('d, 'v, 'n) committer \<Rightarrow>
   (anyhow_error + timestamp option \<times> ('d, 'v, 'n) committer) option" where
  "try_next_max_repeatable_ts oracle clock cm =
     (if cm_prepared_transactions cm \<noteq> []
      then map_option (\<lambda>current. Inr (Some (repeatable_ts current), cm)) (persisted_max_repeatable_ts (cm_snapshots cm))
      else
        Some (case writes_min_ts (cm_pending_writes cm) of
                Some min_pending \<Rightarrow>
                  if \<not> min_pending \<le> cm_last_assigned_ts cm then Inl (anyhow ''pending write above last_assigned_ts'')
                  else and_then (lift_ts (ts_pred min_pending)) (\<lambda>ts. Inr (Some ts, cm))
              | None \<Rightarrow> try_next_maintenance_ts oracle clock cm))"

section \<open>Applying entries of the Raft log\<close>

text \<open>\<open>io\<close> is the answer to the write of the redo records with the index of the entry.\<close>

definition handle_raft_rollback ::
  "(anyhow_error + unit) \<Rightarrow> string \<Rightarrow> ('d, 'v, 'n) committer \<Rightarrow> (anyhow_error + unit) \<times> ('d, 'v, 'n) committer" where
  "handle_raft_rollback io txn cm =
     (case handle_rollback_prepared io txn cm of
        (Inl e, cm1) \<Rightarrow> (Inl e, cm1)
      | (Inr _, cm1) \<Rightarrow>
          (case io of Inl e \<Rightarrow> (Inl e, cm1) | Inr _ \<Rightarrow> (Inr (), cm1\<lparr>cm_redo := bt_remove txn (cm_redo cm1)\<rparr>)))"

definition handle_raft_prepared_redo ::
  "('d, 's, 'v, 'n) commit_env \<Rightarrow> (string \<Rightarrow> anyhow_error + ('d, 's) participant_transaction) \<Rightarrow> (anyhow_error + unit) \<Rightarrow>
   two_phase_redo_entry \<Rightarrow> ('d, 'v, 'n) committer \<Rightarrow> ((anyhow_error + timestamp) \<times> ('d, 'v, 'n) committer) option" where
  "handle_raft_prepared_redo env decode io redo cm =
     (case redo_prepare_ts redo of
        Inl _ \<Rightarrow> Some (Inl (anyhow ''timestamp out of range''), cm)
      | Inr _ \<Rightarrow>
          map_option (\<lambda>(r, cm1). case r of
              Inl e \<Rightarrow> (Inl (with_context ''2PC Raft Prepare Apply: failed to stage'' e), cm1)
            | Inr ts \<Rightarrow>
                (case persist_two_phase_redo io redo cm1 of
                   (Inl e, cm2) \<Rightarrow> (Inl e, snd (handle_rollback_prepared io (re_transaction_id redo) cm2))
                 | (Inr _, cm2) \<Rightarrow> (Inr ts, cm2)))
            (stage_two_phase_redo_entry env decode redo False True cm))"

definition local_prepared_commit_ts_for_origin ::
  "timestamp \<Rightarrow> ('d, 'v, 'n) committer \<Rightarrow> anyhow_error + timestamp option" where
  "local_prepared_commit_ts_for_origin origin_ts cm =
     (case filter (\<lambda>(_, p). ptx_origin_commit_ts p = origin_ts) (cm_prepared_transactions cm) of
        [] \<Rightarrow> Inr None
      | [(_, p)] \<Rightarrow> Inr (Some (ptx_commit_ts p))
      | _ \<Rightarrow> Inl (anyhow ''more than one prepared transaction at an origin ts''))"

definition remove_prepared_transaction_matching_ts ::
  "timestamp \<Rightarrow> ('d prepared_transaction \<Rightarrow> timestamp) \<Rightarrow> ('d, 'v, 'n) committer \<Rightarrow>
   (anyhow_error + string option) \<times> ('d, 'v, 'n) committer" where
  "remove_prepared_transaction_matching_ts ts ts_selector cm =
     (case filter (\<lambda>(_, p). ts_selector p = ts) (cm_prepared_transactions cm) of
        [] \<Rightarrow> (Inr None, cm)
      | [(txn, p)] \<Rightarrow>
          (case writes_remove (ptx_prepared_write p) (cm_prepared_writes cm) of
             (removed, prepared_writes) \<Rightarrow>
               (if removed = None then Inl (anyhow ''2PC cleanup: prepared intent was missing'') else Inr (Some txn),
                cm\<lparr>cm_prepared_transactions := bt_remove txn (cm_prepared_transactions cm),
                   cm_prepared_writes := prepared_writes\<rparr>))
      | _ \<Rightarrow> (Inl (anyhow ''more than one prepared transaction at a ts''), cm))"

definition remove_prepared_transaction_at_origin_ts ::
  "timestamp \<Rightarrow> ('d, 'v, 'n) committer \<Rightarrow> (anyhow_error + string option) \<times> ('d, 'v, 'n) committer" where
  "remove_prepared_transaction_at_origin_ts origin_ts cm =
     remove_prepared_transaction_matching_ts origin_ts ptx_origin_commit_ts cm"

end
