(* ===== verification/CommitHistory.thy ===== *)
theory CommitHistory
  imports Committer
begin

text \<open>
  What the transactions that one leader accepts mean together.  A run of the
  committer interleaves commits, prepares, read validations, publications,
  rejections, rollbacks, read barriers and retention in any order.  Beside the
  state, a run records the history of the write log, the transactions that have
  passed their checks, in that order, and the writes that were published.
  Deltas that are replayed from other partitions, and the replay of prepares on
  followers, are not steps of a run.
\<close>

section \<open>Runs\<close>

record ('d, 's) validated =
  vt_begin :: timestamp
  vt_reads :: "'s read_set"
  vt_ts :: timestamp
  vt_writes :: "'d ordered_document_writes"

type_synonym 'd intent = "timestamp \<times> 'd ordered_document_writes"

abbreviation vt_key :: "('d, 's) validated \<Rightarrow> 'd intent" where
  "vt_key v \<equiv> (vt_ts v, vt_writes v)"

text \<open>A transaction that is given up leaves the list, unless it was published.\<close>

definition give_up :: "'d intent \<Rightarrow> 'd intent list \<Rightarrow> ('d, 's) validated list \<Rightarrow> ('d, 's) validated list" where
  "give_up x D V = filter (\<lambda>v. vt_key v \<noteq> x \<or> x \<in> set D) V"

text \<open>
  A run is \<open>calm\<close> when no commit is rejected after it was accepted and at most one
  transaction is prepared at a time.
\<close>

inductive committer_run ::
  "('d, 's, 'v, 'n) commit_env \<Rightarrow> bool \<Rightarrow> 'n \<Rightarrow> ('d, 'v, 'n) committer \<Rightarrow> ('d, 'v) log_entry list \<Rightarrow>
   ('d, 's) validated list \<Rightarrow> 'd intent list \<Rightarrow> bool"
  for env :: "('d, 's, 'v, 'n) commit_env" and calm :: bool and n0 :: 'n where
  run_start: "wm_reachable (cm_log cm) h \<Longrightarrow> sm_versions (cm_snapshots cm) \<noteq> [] \<Longrightarrow> cm_latest_snapshot cm = n0 \<Longrightarrow>
    cm_pending_writes cm = [] \<Longrightarrow> cm_prepared_writes cm = [] \<Longrightarrow> cm_prepared_transactions cm = [] \<Longrightarrow>
    cm_queued_snapshots cm = [] \<Longrightarrow> committer_run env calm n0 cm h [] []"
| run_commit: "committer_run env calm n0 cm h V D \<Longrightarrow>
    start_commit env oracle clock tx source commit_id cm = Some (Inr (Inr handle), cm') \<Longrightarrow>
    last (cm_pending_writes cm') = (ts, ws, src, n) \<Longrightarrow>
    committer_run env calm n0 cm' h
      (V @ [\<lparr>vt_begin = repeatable_ts (ft_begin_timestamp tx), vt_reads = ft_reads tx, vt_ts = ts, vt_writes = ws\<rparr>]) D"
| run_commit_refused: "committer_run env calm n0 cm h V D \<Longrightarrow>
    start_commit env oracle clock tx source commit_id cm = Some (Inl e, cm') \<Longrightarrow>
    committer_run env calm n0 cm' h V D"
| run_prepare: "committer_run env calm n0 cm h V D \<Longrightarrow> bt_get (cm_prepared_transactions cm) txn = None \<Longrightarrow>
    (calm \<Longrightarrow> cm_prepared_transactions cm = []) \<Longrightarrow>
    stage_prepared_transaction env oracle clock txn begin_ts reads writes mapping source explicit_ts require_leader False cm =
      Some (Inr prepare_ts, cm') \<Longrightarrow>
    bt_get (cm_prepared_writes cm') prepare_ts = Some (ws, src, n) \<Longrightarrow>
    committer_run env calm n0 cm' h
      (V @ [\<lparr>vt_begin = begin_ts, vt_reads = reads, vt_ts = prepare_ts, vt_writes = ws\<rparr>]) D"
| run_prepare_refused: "committer_run env calm n0 cm h V D \<Longrightarrow>
    stage_prepared_transaction env oracle clock txn begin_ts reads writes mapping source explicit_ts require_leader False cm =
      Some (Inl e, cm') \<Longrightarrow>
    committer_run env calm n0 cm' h V D"
| run_reads: "committer_run env calm n0 cm h V D \<Longrightarrow>
    validate_participant_reads env tx source validate_ts cm = (Inr (), cm') \<Longrightarrow>
    committer_run env calm n0 cm' h
      (V @ [\<lparr>vt_begin = repeatable_ts (pt_begin_timestamp tx), vt_reads = pt_reads tx, vt_ts = validate_ts, vt_writes = []\<rparr>]) D"
| run_publish: "committer_run env calm n0 cm h V D \<Longrightarrow> cm_pending_writes cm = (ts, ws, src, n) # rest \<Longrightarrow>
    finish_commit env closed commit_id handle delta_ts bytes cm = Some (Inr (), cm') \<Longrightarrow>
    committer_run env calm n0 cm' (h @ [(ts, index_keys_from_full_documents env ws n, src)]) V (D @ [(ts, ws)])"
| run_publish_prepared: "committer_run env calm n0 cm h V D \<Longrightarrow>
    publish_prepared_commit env closed txn ts bytes cm = Some (Inr (), cm') \<Longrightarrow>
    bt_get (cm_prepared_writes cm) ts = Some (ws, src, n) \<Longrightarrow>
    committer_run env calm n0 cm' (h @ [(ts, index_keys_from_full_documents env ws n, src)]) V (D @ [(ts, ws)])"
| run_reject: "committer_run env calm n0 cm h V D \<Longrightarrow> \<not> calm \<Longrightarrow> bt_get (cm_pending_writes cm) ts = Some (ws, src, n) \<Longrightarrow>
    reject_commit env commit_id (Some ts) cm = Some (Inr (), cm') \<Longrightarrow>
    committer_run env calm n0 cm' h (give_up (ts, ws) D V) D"
| run_rollback: "committer_run env calm n0 cm h V D \<Longrightarrow> bt_get (cm_prepared_transactions cm) txn = Some prepared \<Longrightarrow>
    bt_get (cm_prepared_writes cm) (ptx_commit_ts prepared) = Some (ws, src, n) \<Longrightarrow>
    handle_rollback_prepared io txn cm = (Inr (), cm') \<Longrightarrow>
    committer_run env calm n0 cm' h (give_up (ptx_commit_ts prepared, ws) D V) D"
| run_barrier: "committer_run env calm n0 cm h V D \<Longrightarrow> close_read_timestamp target include_latest cm = (r, cm') \<Longrightarrow>
    committer_run env calm n0 cm' h V D"
| run_bump: "committer_run env calm n0 cm h V D \<Longrightarrow>
    try_next_max_repeatable_ts maintenance clock cm = Some (Inr (ts, cm')) \<Longrightarrow> committer_run env calm n0 cm' h V D"
| run_repeatable: "committer_run env calm n0 cm h V D \<Longrightarrow>
    finish_max_repeatable_ts env closed ts barrier cm = Some (Inr r, cm') \<Longrightarrow>
    committer_run env calm n0 cm'
      (if cm_log cm' = cm_log cm then h else h @ [(ts, [], Some ''publish_max_repeatable_ts'')]) V D"
| run_allocate: "committer_run env calm n0 cm h V D \<Longrightarrow>
    next_commit_ts_at_or_after oracle clock floor cm = Inr (ts, cm') \<Longrightarrow> committer_run env calm n0 cm' h V D"
| run_retain: "committer_run env calm n0 cm h V D \<Longrightarrow>
    committer_run env calm n0
      (cm\<lparr>cm_log := enforce_retention_policy heap_size soft_max min_retention max_retention now (cm_log cm)\<rparr>) h V D"
| run_bookkeeping: "committer_run env calm n0 cm h V D \<Longrightarrow>
    committer_run env calm n0
      (cm\<lparr>cm_placement := placement, cm_commit_waiters := commit_waiters, cm_rollback_waiters := rollback_waiters,
         cm_raft := raft, cm_redo := redo\<rparr>) h V D"

section \<open>What a check sees\<close>

text \<open>The writes that a committer holds and has not published.\<close>

definition held :: "('d, 'n) writes_by_ts \<Rightarrow> 'd intent set" where
  "held p = (\<lambda>(ts, ws, _). (ts, ws)) ` set p"

lemma held_simps [simp]: "held [] = {}" "held ((ts, ws, src, n) # p) = insert (ts, ws) (held p)"
  by (simp_all add: held_def)

lemma held_iff: "(ts, ws) \<in> held p \<longleftrightarrow> (\<exists>src n. (ts, ws, src, n) \<in> set p)"
  by (force simp: held_def)

lemma held_get: "bt_wf p \<Longrightarrow> (ts, ws) \<in> held p \<longleftrightarrow> (\<exists>src n. bt_get p ts = Some (ws, src, n))"
  by (simp add: held_iff bt_get_Some_iff)

lemma held_insert:
  assumes "bt_wf p" "bt_get p ts = None"
  shows "held (bt_insert ts (ws, src, n) p) = insert (ts, ws) (held p)"
  using assms by (auto simp: held_get bt_get_insert split: if_splits)

lemma held_remove:
  assumes "bt_wf p" "bt_get p ts = Some (ws, src, n)"
  shows "held (bt_remove ts p) = held p - {(ts, ws)}"
  using assms by (auto simp: held_get bt_get_remove split: if_splits)

text \<open>The keys of a published write tell every conflict that its documents have.\<close>

definition faithful_keys :: "('d, 's, 'v, 'n) commit_env \<Rightarrow> 's read_set \<Rightarrow> 'd ordered_document_writes \<Rightarrow> bool" where
  "faithful_keys env reads ws \<longleftrightarrow> (\<forall>n ts src. writes_conflict (ce_ops env) reads ws \<longrightarrow>
     entry_conflict (ce_ops env) reads (ts, index_keys_from_full_documents env ws n, src) \<noteq> None)"

definition logged :: "('d, 's, 'v, 'n) commit_env \<Rightarrow> ('d, 'v) log_entry list \<Rightarrow> 'd intent list \<Rightarrow> bool" where
  "logged env h D \<longleftrightarrow>
     (\<forall>ts ws. (ts, ws) \<in> set D \<longrightarrow> (\<exists>n src. (ts, index_keys_from_full_documents env ws n, src) \<in> set h))"

lemma no_conflict_sound:
  assumes check: "ensure_no_conflict (ce_ops env) reads begin_ts at_ts cm = Inr ()"
    and inv: "wm_reachable (cm_log cm) h" "logged env h D" and wf: "read_set_wf reads"
    and x: "(ts, ws) \<in> held (cm_pending_writes cm) \<union> held (cm_prepared_writes cm) \<union> set D"
    and range: "begin_ts < ts" "ts \<le> at_ts" and faithful: "faithful_keys env reads ws"
  shows "\<not> writes_conflict (ce_ops env) reads ws"
proof -
  from wm_reachable_inv [OF inv(1)] have log: "log_shows h (wm_log (cm_log cm))" by (simp add: wm_inv_def)
  then have log_wf: "wl_wf (wm_log (cm_log cm))" by (simp add: log_shows_def)
  from check have none: "commit_has_conflict (ce_ops env) reads begin_ts at_ts (wm_log (cm_log cm)) (cm_pending_writes cm)
      (cm_prepared_writes cm) = Inr None"
    by (auto simp: ensure_no_conflict_def cm_has_conflict_def and_then_Inr split: sum.splits option.splits)
  note free = none [unfolded commit_has_conflict_iff [OF log_wf wf]]
  from x consider (pending) "(ts, ws) \<in> held (cm_pending_writes cm)" | (prepared) "(ts, ws) \<in> held (cm_prepared_writes cm)"
    | (logged) "(ts, ws) \<in> set D" by blast
  then show ?thesis
  proof cases
    case pending
    with free range show ?thesis unfolding held_iff by fast
  next
    case prepared
    with free range show ?thesis unfolding held_iff by fast
  next
    case logged
    with inv(2) obtain n src where e: "(ts, index_keys_from_full_documents env ws n, src) \<in> set h"
      unfolding logged_def by blast
    have "wl_purged_ts (wm_log (cm_log cm)) < ts" using free range(1) by (meson le_less_trans)
    with e log have "(ts, index_keys_from_full_documents env ws n, src) \<in> set (wl_by_ts (wm_log (cm_log cm)))"
      by (simp add: log_shows_def)
    with free range have "entry_conflict (ce_ops env) reads (ts, index_keys_from_full_documents env ws n, src) = None"
      by fastforce
    with faithful show ?thesis unfolding faithful_keys_def by blast
  qed
qed

section \<open>What the handlers do\<close>

lemma bt_last_lt: "bt_wf p \<Longrightarrow> bt_last p = Some (k, v) \<Longrightarrow> k < ts \<Longrightarrow> \<forall>x \<in> set p. fst x < ts"
  by (cases p rule: rev_cases) (auto simp: bt_last_def bt_wf_def sorted_wrt_append)

lemma bt_insert_last: "\<forall>x \<in> set p. fst x < ts \<Longrightarrow> bt_insert ts v p = p @ [(ts, v)]"
  by (induction p) (auto dest: less_asym)

lemma next_commit_ts_at_or_after_ok:
  assumes "next_commit_ts_at_or_after oracle clock requested cm = Inr (ts, cm')"
  shows "cm' = cm\<lparr>cm_last_assigned_ts := ts\<rparr> \<and> cm_last_assigned_ts cm < ts \<and> requested \<le> ts"
proof -
  from assms obtain floor where f: "local_commit_floor cm = Inr floor"
    by (auto simp: next_commit_ts_at_or_after_def and_then_Inr)
  then obtain assigned where a: "ts_succ (cm_last_assigned_ts cm) = Inr assigned" "assigned \<le> floor"
    by (auto simp: local_commit_floor_def and_then_Inr le_max_iff_disj)
  from assms f have "cm' = cm\<lparr>cm_last_assigned_ts := ts\<rparr> \<and> floor \<le> ts \<and> requested \<le> ts"
    by (auto simp: next_commit_ts_at_or_after_def Let_def and_then_Inr le_max_iff_disj
        split: option.splits if_splits)
  moreover have "cm_last_assigned_ts cm < assigned" using ts_succ_bounds [OF a(1)] by auto
  ultimately show ?thesis using a(2) by auto
qed

lemma next_commit_ts_ok:
  assumes "next_commit_ts oracle clock cm = Inr (ts, cm')"
  shows "cm' = cm\<lparr>cm_last_assigned_ts := ts\<rparr> \<and> cm_last_assigned_ts cm < ts"
  using next_commit_ts_at_or_after_ok [OF assms [unfolded next_commit_ts_def]] by blast

lemma base_snapshot_assigned [simp]:
  "base_snapshot_for_new_writes (cm\<lparr>cm_last_assigned_ts := ts\<rparr>) = base_snapshot_for_new_writes cm"
  "ensure_no_conflict ops reads b t (cm\<lparr>cm_last_assigned_ts := ts\<rparr>) = ensure_no_conflict ops reads b t cm"
  by (simp_all add: base_snapshot_for_new_writes_def latest_queued_snapshot_def cm_latest_snapshot_def
      ensure_no_conflict_def cm_has_conflict_def split: option.splits)

lemma commit_admission_ok: "commit_admission tx source cm = Some (Inr ()) \<Longrightarrow> cm_prepared_transactions cm = []"
  by (auto simp: commit_admission_def split: sum.splits if_splits)

lemma pending_push_back_ok:
  assumes "bt_wf p" "pending_push_back ts ws source n p = Some (handle, p')"
  shows "handle = Some ts \<and> p' = p @ [(ts, ws, source, n)] \<and> (\<forall>x \<in> set p. fst x < ts)"
proof (cases "bt_last p")
  case None
  with assms(2) have "p = []" by (simp add: bt_last_def split: if_splits)
  with assms(2) show ?thesis by (simp add: pending_push_back_def bt_last_def)
next
  case (Some kv)
  with assms(2) have lt: "fst kv < ts" and r: "handle = Some ts" "p' = bt_insert ts (ws, source, n) p"
    by (cases kv; auto simp: pending_push_back_def split: if_splits)+
  from bt_last_lt [OF assms(1) _ lt, of "snd kv"] Some have "\<forall>x \<in> set p. fst x < ts" by simp
  then show ?thesis using r by (simp add: bt_insert_last)
qed

lemma validate_commit_ok:
  assumes wf: "bt_wf (cm_pending_writes cm)"
    and v: "validate_commit env oracle clock tx source cm = Some (Inr (handle, dw), cm')"
  shows "\<exists>ts ordered n. handle = Some ts \<and> cm_last_assigned_ts cm < ts \<and> cm_prepared_transactions cm = [] \<and>
    ensure_no_conflict (ce_ops env) (ft_reads tx) (repeatable_ts (ft_begin_timestamp tx)) ts cm = Inr () \<and>
    apply_writes env ts (packed_writes ordered) (base_snapshot_for_new_writes cm) = Inr n \<and>
    (\<forall>x \<in> set (cm_pending_writes cm). fst x < ts) \<and>
    cm' = cm\<lparr>cm_last_assigned_ts := ts, cm_pending_writes := cm_pending_writes cm @ [(ts, packed_writes ordered, source, n)]\<rparr>"
proof -
  from v obtain ts cm1 ordered n pending where adm: "commit_admission tx source cm = Some (Inr ())"
    and nx: "next_commit_ts oracle clock cm = Inr (ts, cm1)"
    and nc: "ensure_no_conflict (ce_ops env) (ft_reads tx) (repeatable_ts (ft_begin_timestamp tx)) ts cm1 = Inr ()"
    and cw: "compute_writes env ts ordered cm1 = Inr (dw, n)"
    and push: "pending_push_back ts (packed_writes ordered) source n (cm_pending_writes cm1) = Some (handle, pending)"
    and cm': "cm' = cm1\<lparr>cm_pending_writes := pending\<rparr>"
    by (auto simp: validate_commit_def split: option.splits sum.splits prod.splits)
  from next_commit_ts_ok [OF nx] have cm1: "cm1 = cm\<lparr>cm_last_assigned_ts := ts\<rparr>" and lt: "cm_last_assigned_ts cm < ts"
    by auto
  from cw have ap: "apply_writes env ts (packed_writes ordered) (base_snapshot_for_new_writes cm) = Inr n"
    by (auto simp: compute_writes_def cm1 and_then_Inr)
  from pending_push_back_ok [OF _ push] wf have "handle = Some ts" "\<forall>x \<in> set (cm_pending_writes cm). fst x < ts"
      "pending = cm_pending_writes cm @ [(ts, packed_writes ordered, source, n)]" by (simp_all add: cm1)
  with commit_admission_ok [OF adm] nc ap lt show ?thesis by (auto simp: cm1 cm')
qed

lemma start_commit_ok:
  assumes wf: "bt_wf (cm_pending_writes cm)"
    and s: "start_commit env oracle clock tx source commit_id cm = Some (Inr (Inr handle), cm')"
  shows "\<exists>ts ordered n. cm_last_assigned_ts cm < ts \<and> cm_prepared_transactions cm = [] \<and>
    ensure_no_conflict (ce_ops env) (ft_reads tx) (repeatable_ts (ft_begin_timestamp tx)) ts cm = Inr () \<and>
    apply_writes env ts (packed_writes ordered) (base_snapshot_for_new_writes cm) = Inr n \<and>
    (\<forall>x \<in> set (cm_pending_writes cm). fst x < ts) \<and>
    cm' = cm\<lparr>cm_last_assigned_ts := ts, cm_pending_writes := cm_pending_writes cm @ [(ts, packed_writes ordered, source, n)],
            cm_queued_snapshots := cm_queued_snapshots cm @ [(commit_id, ts, n)]\<rparr>"
proof -
  from s obtain dw cm1 cts snapshot where v: "validate_commit env oracle clock tx source cm = Some (Inr (handle, dw), cm1)"
    and l: "pending_latest_snapshot (cm_pending_writes cm1) = Some snapshot" "must_commit_ts handle = Some cts"
    and q: "enqueue_snapshot commit_id cts snapshot cm1 = Some cm'"
    by (auto simp: start_commit_def split: if_splits option.splits sum.splits prod.splits)
  from validate_commit_ok [OF wf v] obtain ts ordered n where *: "handle = Some ts" "cm_last_assigned_ts cm < ts"
      "cm_prepared_transactions cm = []"
      "ensure_no_conflict (ce_ops env) (ft_reads tx) (repeatable_ts (ft_begin_timestamp tx)) ts cm = Inr ()"
      "apply_writes env ts (packed_writes ordered) (base_snapshot_for_new_writes cm) = Inr n"
      "\<forall>x \<in> set (cm_pending_writes cm). fst x < ts"
    and cm1: "cm1 = cm\<lparr>cm_last_assigned_ts := ts, cm_pending_writes := cm_pending_writes cm @ [(ts, packed_writes ordered, source, n)]\<rparr>"
    by blast
  have "cts = ts" "snapshot = n" using l *(1) by (simp_all add: must_commit_ts_def cm1 pending_latest_snapshot_def bt_last_def)
  with q have "cm' = cm1\<lparr>cm_queued_snapshots := cm_queued_snapshots cm @ [(commit_id, ts, n)]\<rparr>"
    by (auto simp: enqueue_snapshot_def cm1 split: if_splits)
  with * show ?thesis by (auto simp: cm1)
qed

lemma start_commit_refused:
  assumes "start_commit env oracle clock tx source commit_id cm = Some (Inl e, cm')"
  shows "\<exists>t. cm' = cm\<lparr>cm_last_assigned_ts := t\<rparr> \<and> cm_last_assigned_ts cm \<le> t"
proof -
  have same: "\<exists>t. cm = cm\<lparr>cm_last_assigned_ts := t\<rparr> \<and> cm_last_assigned_ts cm \<le> t"
    by (rule exI [of _ "cm_last_assigned_ts cm"]) simp
  from assms have v: "validate_commit env oracle clock tx source cm = Some (Inl e, cm')"
    by (auto simp: start_commit_def split: if_splits option.splits sum.splits prod.splits)
  show ?thesis
  proof (cases "next_commit_ts oracle clock cm")
    case (Inl e')
    with v have "cm' = cm" by (auto simp: validate_commit_def split: option.splits sum.splits)
    with same show ?thesis by simp
  next
    case (Inr r)
    obtain ts cm1 where r: "r = (ts, cm1)" by fastforce
    with Inr v have "cm' = cm \<or> cm' = cm1"
      by (auto simp: validate_commit_def split: option.splits sum.splits)
    with next_commit_ts_ok [OF Inr [unfolded r]] same show ?thesis by (auto intro: less_imp_le)
  qed
qed

lemma stage_timestamps_ok:
  assumes "stage_timestamps oracle clock floor explicit_ts False cm = Inr (origin_ts, cts, cm1)"
  shows "origin_ts = cts \<and> cm1\<lparr>cm_last_assigned_ts := max cts (cm_last_assigned_ts cm1)\<rparr> =
    cm\<lparr>cm_last_assigned_ts := max cts (cm_last_assigned_ts cm)\<rparr>"
proof (cases explicit_ts)
  case None
  with assms have n: "next_commit_ts oracle clock cm = Inr (cts, cm1)" and "origin_ts = cts"
    by (auto simp: stage_timestamps_def and_then_Inr)
  moreover from next_commit_ts_ok [OF n] have "cm1 = cm\<lparr>cm_last_assigned_ts := cts\<rparr>" "max cts (cm_last_assigned_ts cm) = cts"
    by (auto simp: max_def)
  ultimately show ?thesis by simp
next
  case (Some ts)
  with assms show ?thesis by (auto simp: stage_timestamps_def split: if_splits)
qed

lemma stage_at_ok:
  assumes "stage_at env txn begin_ts reads writes mapping source origin_ts cts False cm = Some (Inr r, cm')"
  shows "r = origin_ts \<and> (\<exists>ordered n dw. bt_get (cm_prepared_writes cm) cts = None \<and>
    ensure_no_conflict (ce_ops env) reads begin_ts cts cm = Inr () \<and>
    apply_writes env cts (packed_writes ordered) (base_snapshot_for_new_writes cm) = Inr n \<and>
    cm' = cm\<lparr>cm_prepared_writes := bt_insert cts (packed_writes ordered, source, n) (cm_prepared_writes cm),
            cm_prepared_transactions := bt_insert txn \<lparr>ptx_prepared_write = Some cts, ptx_origin_commit_ts = origin_ts,
              ptx_commit_ts = cts, ptx_document_writes = dw\<rparr> (cm_prepared_transactions cm)\<rparr>)"
proof -
  from assms obtain ordered dw n handle pw where nc: "ensure_no_conflict (ce_ops env) reads begin_ts cts cm = Inr ()"
    and cw: "compute_writes env cts ordered cm = Inr (dw, n)"
    and ins: "prepared_insert cts (packed_writes ordered) source n (cm_prepared_writes cm) = Inr (handle, pw)"
    and r: "r = origin_ts" "cm' = cm\<lparr>cm_prepared_writes := pw, cm_prepared_transactions :=
      bt_insert txn \<lparr>ptx_prepared_write = handle, ptx_origin_commit_ts = origin_ts, ptx_commit_ts = cts,
        ptx_document_writes = dw\<rparr> (cm_prepared_transactions cm)\<rparr>"
    by (auto simp: stage_at_def split: sum.splits option.splits prod.splits)
  from ins have "bt_get (cm_prepared_writes cm) cts = None" "handle = Some cts"
      "pw = bt_insert cts (packed_writes ordered, source, n) (cm_prepared_writes cm)"
    by (cases "bt_get (cm_prepared_writes cm) cts"; simp add: prepared_insert_def)+
  moreover from cw have "apply_writes env cts (packed_writes ordered) (base_snapshot_for_new_writes cm) = Inr n"
    by (auto simp: compute_writes_def and_then_Inr)
  ultimately show ?thesis using nc r by blast
qed

lemma stage_at_refused:
  "stage_at env txn begin_ts reads writes mapping source origin_ts cts rewrite cm = Some (Inl e, cm') \<Longrightarrow> cm' = cm"
  by (auto simp: stage_at_def split: sum.splits option.splits prod.splits)

lemma stage_ok:
  assumes new: "bt_get (cm_prepared_transactions cm) txn = None"
    and s: "stage_prepared_transaction env oracle clock txn begin_ts reads writes mapping source explicit_ts
      require_leader False cm = Some (Inr ts, cm')"
  shows "\<exists>ordered n dw. cm_pending_writes cm = [] \<and> bt_get (cm_prepared_writes cm) ts = None \<and>
    ensure_no_conflict (ce_ops env) reads begin_ts ts cm = Inr () \<and>
    apply_writes env ts (packed_writes ordered) (base_snapshot_for_new_writes cm) = Inr n \<and>
    cm' = cm\<lparr>cm_last_assigned_ts := max ts (cm_last_assigned_ts cm),
            cm_prepared_writes := bt_insert ts (packed_writes ordered, source, n) (cm_prepared_writes cm),
            cm_prepared_transactions := bt_insert txn \<lparr>ptx_prepared_write = Some ts, ptx_origin_commit_ts = ts,
              ptx_commit_ts = ts, ptx_document_writes = dw\<rparr> (cm_prepared_transactions cm)\<rparr>"
proof -
  from s new obtain floor origin_ts cts cm1 where p: "writes_min_ts (cm_pending_writes cm) = None"
    and st: "stage_timestamps oracle clock floor explicit_ts False cm = Inr (origin_ts, cts, cm1)"
    and at: "stage_at env txn begin_ts reads writes mapping source origin_ts cts False
      (cm1\<lparr>cm_last_assigned_ts := max cts (cm_last_assigned_ts cm1)\<rparr>) = Some (Inr ts, cm')"
    by (auto simp: stage_prepared_transaction_def split: sum.splits prod.splits if_splits)
  from p have "cm_pending_writes cm = []" by (simp add: writes_min_ts_def bt_first_def split: list.splits)
  with stage_at_ok [OF at [unfolded stage_timestamps_ok [OF st, THEN conjunct2]]] stage_timestamps_ok [OF st]
  show ?thesis by auto
qed

lemma stage_refused:
  assumes "stage_prepared_transaction env oracle clock txn begin_ts reads writes mapping source explicit_ts
      require_leader False cm = Some (Inl e, cm')"
  shows "\<exists>t. cm' = cm\<lparr>cm_last_assigned_ts := t\<rparr> \<and> cm_last_assigned_ts cm \<le> t"
proof -
  have same: "\<exists>t. cm = cm\<lparr>cm_last_assigned_ts := t\<rparr> \<and> cm_last_assigned_ts cm \<le> t"
    by (rule exI [of _ "cm_last_assigned_ts cm"]) simp
  from assms have "cm' = cm \<or> (\<exists>floor origin_ts cts cm1.
      stage_timestamps oracle clock floor explicit_ts False cm = Inr (origin_ts, cts, cm1) \<and>
      stage_at env txn begin_ts reads writes mapping source origin_ts cts False
        (cm1\<lparr>cm_last_assigned_ts := max cts (cm_last_assigned_ts cm1)\<rparr>) = Some (Inl e, cm'))"
    by (auto simp: stage_prepared_transaction_def split: sum.splits option.splits prod.splits if_splits)
  then show ?thesis
  proof
    assume "\<exists>floor origin_ts cts cm1.
      stage_timestamps oracle clock floor explicit_ts False cm = Inr (origin_ts, cts, cm1) \<and>
      stage_at env txn begin_ts reads writes mapping source origin_ts cts False
        (cm1\<lparr>cm_last_assigned_ts := max cts (cm_last_assigned_ts cm1)\<rparr>) = Some (Inl e, cm')"
    then obtain floor origin_ts cts cm1 where st: "stage_timestamps oracle clock floor explicit_ts False cm = Inr (origin_ts, cts, cm1)"
      and at: "stage_at env txn begin_ts reads writes mapping source origin_ts cts False
        (cm1\<lparr>cm_last_assigned_ts := max cts (cm_last_assigned_ts cm1)\<rparr>) = Some (Inl e, cm')" by blast
    from stage_at_refused [OF at] stage_timestamps_ok [OF st] show ?thesis by auto
  qed (use same in simp)
qed

lemma validate_reads_ok:
  assumes "validate_participant_reads env tx source ts cm = (Inr (), cm')"
  shows "ensure_no_conflict (ce_ops env) (pt_reads tx) (repeatable_ts (pt_begin_timestamp tx)) ts cm = Inr () \<and>
    cm' = cm\<lparr>cm_last_assigned_ts := max ts (cm_last_assigned_ts cm)\<rparr>"
  using assms by (auto simp: validate_participant_reads_def Let_def and_then_Inr split: sum.splits if_splits)

lemma sm_push_latest:
  assumes "sm_push closed w tw ts n bytes sm = Some (sm', sent)"
  shows "sm_versions sm' \<noteq> [] \<and> last (sm_versions sm') = (ts, n)"
  using assms by (auto simp: sm_push_def sm_notify_waiters_def sm_latest_ts_def split: option.splits if_splits prod.splits)

lemma publish_from_updates_ok:
  assumes "publish_commit_from_updates env closed cts ws source n delta_ts bytes cm = Some (Inr (), cm')"
    and "wm_reachable (cm_log cm) h"
  shows "\<exists>log sm. cm' = cm\<lparr>cm_log := log, cm_snapshots := sm\<rparr> \<and> sm_versions sm \<noteq> [] \<and> last (sm_versions sm) = (cts, n) \<and>
    cm_latest_ts cm < cts \<and> wm_reachable log (h @ [(cts, index_keys_from_full_documents env ws n, source)])"
proof -
  from assms(1) obtain log sm sent sent' where lt: "cm_latest_ts cm < cts"
    and log: "wm_append closed cts (index_keys_from_full_documents env ws n) source (cm_log cm) = Some (log, sent)"
    and sm: "sm_push closed (ce_transaction_window env) (ce_throughput_window env) cts n bytes (cm_snapshots cm) = Some (sm, sent')"
    and cm': "cm' = cm\<lparr>cm_log := log, cm_snapshots := sm\<rparr>"
    by (auto simp: publish_commit_from_updates_def split: if_splits option.splits prod.splits)
  show ?thesis using reach_append [OF assms(2) log] sm_push_latest [OF sm] lt cm' by blast
qed

lemma finish_commit_ok:
  assumes f: "finish_commit env closed commit_id handle delta_ts bytes cm = Some (Inr (), cm')"
    and p: "cm_pending_writes cm = (ts, ws, src, n) # rest" and log: "wm_reachable (cm_log cm) h"
  shows "\<exists>log sm. cm' = cm\<lparr>cm_queued_snapshots := tl (cm_queued_snapshots cm), cm_pending_writes := rest, cm_log := log,
      cm_snapshots := sm\<rparr> \<and> cm_queued_snapshots cm \<noteq> [] \<and> sm_versions sm \<noteq> [] \<and> last (sm_versions sm) = (ts, n) \<and>
    cm_latest_ts cm < ts \<and> wm_reachable log (h @ [(ts, index_keys_from_full_documents env ws n, src)])"
proof -
  from f obtain cm1 where d: "dequeue_snapshot commit_id cm = Some cm1"
    and pub: "publish_commit env closed handle delta_ts bytes cm1 = Some (Inr (), cm')"
    by (auto simp: finish_commit_def bind_eq_Some_conv)
  from d have cm1: "cm1 = cm\<lparr>cm_queued_snapshots := tl (cm_queued_snapshots cm)\<rparr>" "cm_queued_snapshots cm \<noteq> []"
    by (auto simp: dequeue_snapshot_def split: list.splits if_splits)
  from pub p have "publish_commit_from_updates env closed ts ws src n ts bytes (cm1\<lparr>cm_pending_writes := rest\<rparr>) = Some (Inr (), cm')"
    by (auto simp: publish_commit_def pending_pop_first_def cm1 split: option.splits if_splits)
  from publish_from_updates_ok [OF this] log cm1 show ?thesis by (auto simp: cm_latest_ts_def)
qed

text \<open>Every prepared transaction has its own intent, and every intent its transaction.\<close>

definition linked :: "(string \<rightharpoonup> 'd prepared_transaction) \<Rightarrow> (timestamp \<rightharpoonup> 'w) \<Rightarrow> bool" where
  "linked f g \<longleftrightarrow>
     (\<forall>txn p. f txn = Some p \<longrightarrow> ptx_prepared_write p = Some (ptx_commit_ts p) \<and> g (ptx_commit_ts p) \<noteq> None) \<and>
     (\<forall>txn txn' p p'. f txn = Some p \<and> f txn' = Some p' \<and> ptx_commit_ts p = ptx_commit_ts p' \<longrightarrow> txn = txn') \<and>
     (\<forall>ts. g ts \<noteq> None \<longrightarrow> (\<exists>txn p. f txn = Some p \<and> ptx_commit_ts p = ts))"

lemma linked_insert:
  assumes "linked f g" "f txn = None" "g ts = None" "ptx_prepared_write p = Some ts" "ptx_commit_ts p = ts"
  shows "linked (f(txn \<mapsto> p)) (g(ts \<mapsto> w))"
  unfolding linked_def
proof (intro conjI allI impI)
  have old: "ptx_commit_ts q \<noteq> ts" if "f t = Some q" for t q using assms(1,3) that unfolding linked_def by metis
  fix t q assume q: "(f(txn \<mapsto> p)) t = Some q"
  show "ptx_prepared_write q = Some (ptx_commit_ts q)" "(g(ts \<mapsto> w)) (ptx_commit_ts q) \<noteq> None"
    using q assms old [of t q] unfolding linked_def by (cases "t = txn"; simp)+
next
  fix t t' q q' assume q: "(f(txn \<mapsto> p)) t = Some q \<and> (f(txn \<mapsto> p)) t' = Some q' \<and> ptx_commit_ts q = ptx_commit_ts q'"
  have old: "ptx_commit_ts q \<noteq> ts" if "f t = Some q" for t q using assms(1,3) that unfolding linked_def by metis
  show "t = t'"
  proof (cases "t = txn \<or> t' = txn")
    case True
    with q old assms(5) show ?thesis by (metis fun_upd_other fun_upd_same option.inject)
  next
    case False
    with q assms(1) show ?thesis unfolding linked_def by (metis fun_upd_other)
  qed
next
  fix t assume "(g(ts \<mapsto> w)) t \<noteq> None"
  then consider "t = ts" | "g t \<noteq> None" by (auto split: if_splits)
  then show "\<exists>x q. (f(txn \<mapsto> p)) x = Some q \<and> ptx_commit_ts q = t"
  proof cases
    case 2
    with assms(1) obtain x q where x: "f x = Some q" "ptx_commit_ts q = t" unfolding linked_def by blast
    with assms(2) have "x \<noteq> txn" by auto
    with x show ?thesis by auto
  qed (use assms(5) in auto)
qed

lemma linked_remove:
  assumes "linked f g" "f txn = Some p"
  shows "linked (f(txn := None)) (g(ptx_commit_ts p := None))"
  unfolding linked_def
proof (intro conjI allI impI)
  have other: "ptx_commit_ts q \<noteq> ptx_commit_ts p" if "f t = Some q" "t \<noteq> txn" for t q
    using assms that unfolding linked_def by metis
  fix t q assume q: "(f(txn := None)) t = Some q"
  then have f: "f t = Some q" "t \<noteq> txn" by (auto split: if_splits)
  with assms(1) have "ptx_prepared_write q = Some (ptx_commit_ts q)" "g (ptx_commit_ts q) \<noteq> None"
    unfolding linked_def by blast+
  with other [OF f] show "ptx_prepared_write q = Some (ptx_commit_ts q)"
      "(g(ptx_commit_ts p := None)) (ptx_commit_ts q) \<noteq> None" by simp_all
next
  fix t t' q q' assume "(f(txn := None)) t = Some q \<and> (f(txn := None)) t' = Some q' \<and> ptx_commit_ts q = ptx_commit_ts q'"
  then have "f t = Some q" "f t' = Some q'" "ptx_commit_ts q = ptx_commit_ts q'" by (auto split: if_splits)
  then show "t = t'" using assms(1) unfolding linked_def by blast
next
  fix t assume "(g(ptx_commit_ts p := None)) t \<noteq> None"
  then have t: "t \<noteq> ptx_commit_ts p" "g t \<noteq> None" by (auto split: if_splits)
  with assms(1) obtain x q where "f x = Some q" "ptx_commit_ts q = t" unfolding linked_def by blast
  moreover from this t(1) assms(2) have "x \<noteq> txn" by auto
  ultimately show "\<exists>x q. (f(txn := None)) x = Some q \<and> ptx_commit_ts q = t" by auto
qed

definition prepared_linked :: "('d, 'v, 'n) committer \<Rightarrow> bool" where
  "prepared_linked cm \<longleftrightarrow> bt_wf (cm_prepared_writes cm) \<and> bt_wf (cm_prepared_transactions cm) \<and>
     linked (bt_get (cm_prepared_transactions cm)) (bt_get (cm_prepared_writes cm))"

lemma bt_get_upd: "bt_wf m \<Longrightarrow> bt_get (bt_insert k v m) = (bt_get m)(k \<mapsto> v)" "bt_get (bt_remove k m) = (bt_get m)(k := None)"
  by (auto simp: bt_get_insert bt_get_remove)

lemma prepared_linked_insert:
  assumes "prepared_linked cm" "bt_get (cm_prepared_transactions cm) txn = None" "bt_get (cm_prepared_writes cm) ts = None"
  shows "prepared_linked (cm\<lparr>cm_prepared_writes := bt_insert ts w (cm_prepared_writes cm),
    cm_prepared_transactions := bt_insert txn \<lparr>ptx_prepared_write = Some ts, ptx_origin_commit_ts = origin_ts,
      ptx_commit_ts = ts, ptx_document_writes = dw\<rparr> (cm_prepared_transactions cm)\<rparr>)"
  using assms by (simp add: prepared_linked_def bt_get_upd linked_insert)

lemma prepared_linked_remove:
  assumes "prepared_linked cm" "bt_get (cm_prepared_transactions cm) txn = Some p"
  shows "prepared_linked (cm\<lparr>cm_prepared_transactions := bt_remove txn (cm_prepared_transactions cm),
    cm_prepared_writes := bt_remove (ptx_commit_ts p) (cm_prepared_writes cm)\<rparr>)"
  using assms by (simp add: prepared_linked_def bt_get_upd linked_remove)

lemma prepared_linked_empty: "prepared_linked cm \<Longrightarrow> cm_prepared_transactions cm = [] \<Longrightarrow> cm_prepared_writes cm = []"
proof -
  assume "prepared_linked cm" "cm_prepared_transactions cm = []"
  then have "\<forall>ts. bt_get (cm_prepared_writes cm) ts = None"
    unfolding prepared_linked_def linked_def by (metis bt_get_Nil option.distinct(1))
  then show ?thesis unfolding bt_get_None_iff by (metis image_is_empty set_empty equals0I)
qed

text \<open>Removing the intent of a prepared transaction.\<close>

lemma remove_intent:
  assumes l: "prepared_linked cm" and p: "bt_get (cm_prepared_transactions cm) txn = Some p"
  shows "\<exists>ws src n. bt_get (cm_prepared_writes cm) (ptx_commit_ts p) = Some (ws, src, n) \<and>
    writes_remove (ptx_prepared_write p) (cm_prepared_writes cm) =
      (Some (ptx_commit_ts p, ws, src, n), bt_remove (ptx_commit_ts p) (cm_prepared_writes cm))"
proof -
  from l p have "ptx_prepared_write p = Some (ptx_commit_ts p)" "bt_get (cm_prepared_writes cm) (ptx_commit_ts p) \<noteq> None"
    unfolding prepared_linked_def linked_def by blast+
  then show ?thesis by (auto simp: writes_remove_def)
qed

lemma publish_prepared_ok:
  assumes l: "prepared_linked cm" and log: "wm_reachable (cm_log cm) h"
    and f: "publish_prepared_commit env closed txn ts bytes cm = Some (Inr (), cm')"
    and w: "bt_get (cm_prepared_writes cm) ts = Some (ws, src, n)"
  shows "\<exists>p log sm. bt_get (cm_prepared_transactions cm) txn = Some p \<and> ptx_commit_ts p = ts \<and>
    cm' = cm\<lparr>cm_prepared_transactions := bt_remove txn (cm_prepared_transactions cm),
            cm_prepared_writes := bt_remove ts (cm_prepared_writes cm), cm_log := log, cm_snapshots := sm\<rparr> \<and>
    sm_versions sm \<noteq> [] \<and> last (sm_versions sm) = (ts, n) \<and> cm_latest_ts cm < ts \<and>
    wm_reachable log (h @ [(ts, index_keys_from_full_documents env ws n, src)])"
proof -
  from f obtain p where p: "bt_get (cm_prepared_transactions cm) txn = Some p"
    by (auto simp: publish_prepared_commit_def split: option.splits)
  from remove_intent [OF l p] obtain ws' src' n' where r: "bt_get (cm_prepared_writes cm) (ptx_commit_ts p) = Some (ws', src', n')"
      "writes_remove (ptx_prepared_write p) (cm_prepared_writes cm) =
        (Some (ptx_commit_ts p, ws', src', n'), bt_remove (ptx_commit_ts p) (cm_prepared_writes cm))" by blast
  from f p r(2) have ts: "ptx_commit_ts p = ts" and pub: "publish_commit_from_updates env closed ts ws' src' n' ts bytes
      (cm\<lparr>cm_prepared_transactions := bt_remove txn (cm_prepared_transactions cm),
         cm_prepared_writes := bt_remove ts (cm_prepared_writes cm)\<rparr>) = Some (Inr (), cm')"
    by (auto simp: publish_prepared_commit_def Let_def split: if_splits)
  from r(1) w ts have "ws' = ws" "src' = src" "n' = n" by auto
  with publish_from_updates_ok [OF pub, of h] log p ts show ?thesis by (auto simp: cm_latest_ts_def)
qed

lemma rollback_ok:
  assumes l: "prepared_linked cm" and p: "bt_get (cm_prepared_transactions cm) txn = Some p"
    and f: "handle_rollback_prepared io txn cm = (Inr (), cm')"
  shows "cm' = cm\<lparr>cm_prepared_transactions := bt_remove txn (cm_prepared_transactions cm),
    cm_prepared_writes := bt_remove (ptx_commit_ts p) (cm_prepared_writes cm)\<rparr>"
proof -
  from remove_intent [OF l p] obtain ws src n where "writes_remove (ptx_prepared_write p) (cm_prepared_writes cm) =
      (Some (ptx_commit_ts p, ws, src, n), bt_remove (ptx_commit_ts p) (cm_prepared_writes cm))" by blast
  with f p show ?thesis by (simp add: handle_rollback_prepared_def split: if_splits)
qed

lemma close_read_ok:
  assumes "close_read_timestamp target include_latest cm = (r, cm')"
  shows "(\<exists>closed. cm' = cm\<lparr>cm_closed_read_timestamps := closed\<rparr>) \<or>
    cm' = cm\<lparr>cm_last_assigned_ts := target, cm_read_barrier_floor := target\<rparr> \<and> cm_last_assigned_ts cm \<le> target"
proof -
  have same: "\<exists>closed. cm = cm\<lparr>cm_closed_read_timestamps := closed\<rparr>"
    by (rule exI [of _ "cm_closed_read_timestamps cm"]) simp
  have min: "cm_last_assigned_ts cm \<le> barrier_minimum cm"
    by (auto simp: barrier_minimum_def Let_def le_max_iff_disj split: option.splits)
  have "(\<exists>closed. c = cm\<lparr>cm_closed_read_timestamps := closed\<rparr>) \<or>
      c = cm\<lparr>cm_last_assigned_ts := target, cm_read_barrier_floor := target\<rparr> \<and> cm_last_assigned_ts cm \<le> target"
    if "close_unblocked target include_latest cm = (x, c)" for x c
    using that same min by (auto simp: close_unblocked_def note_closed_def Let_def not_less intro: order_trans split: if_splits)
  with assms same show ?thesis
    by (cases "close_unblocked target include_latest cm")
      (auto simp: close_read_timestamp_def split: sum.splits if_splits option.splits)
qed

lemma maintenance_ok:
  assumes "try_next_maintenance_ts oracle clock cm = Inr (ts, cm')"
  shows "\<exists>t. cm' = cm\<lparr>cm_last_assigned_ts := t\<rparr> \<and> cm_last_assigned_ts cm \<le> t"
proof (cases "oracle")
  case None
  with assms obtain t where "next_commit_ts None clock cm = Inr (t, cm')" by (auto simp: try_next_maintenance_ts_def and_then_Inr)
  from next_commit_ts_ok [OF this] show ?thesis by (auto intro: less_imp_le)
next
  case (Some try_next)
  with assms obtain floor x where f: "local_commit_floor cm = Inr floor" and x: "try_next floor = Inr x"
      "(case x of None \<Rightarrow> Inr (None, cm) | Some t \<Rightarrow> if \<not> t \<ge> floor
        then Inl (anyhow ''TSO returned a maintenance ts below the requested local floor'')
        else Inr (Some t, cm\<lparr>cm_last_assigned_ts := t\<rparr>)) = Inr (ts, cm')"
    by (auto simp: try_next_maintenance_ts_def and_then_Inr)
  from f obtain a where a: "ts_succ (cm_last_assigned_ts cm) = Inr a" "a \<le> floor"
    by (auto simp: local_commit_floor_def and_then_Inr le_max_iff_disj)
  have lt: "cm_last_assigned_ts cm < a" using ts_succ_bounds [OF a(1)] by auto
  show ?thesis
  proof (cases x)
    case None
    with x(2) show ?thesis by (intro exI [of _ "cm_last_assigned_ts cm"]) simp
  next
    case (Some t)
    with x(2) a(2) lt show ?thesis by (auto intro!: exI [of _ t] split: if_splits)
  qed
qed

lemma bump_ok:
  assumes "try_next_max_repeatable_ts oracle clock cm = Some (Inr (ts, cm'))"
  shows "\<exists>t. cm' = cm\<lparr>cm_last_assigned_ts := t\<rparr> \<and> cm_last_assigned_ts cm \<le> t"
proof -
  have same: "\<exists>t. cm = cm\<lparr>cm_last_assigned_ts := t\<rparr> \<and> cm_last_assigned_ts cm \<le> t"
    by (rule exI [of _ "cm_last_assigned_ts cm"]) simp
  from assms have "cm' = cm \<or> try_next_maintenance_ts oracle clock cm = Inr (ts, cm')"
    by (auto simp: try_next_max_repeatable_ts_def and_then_Inr split: if_splits option.splits)
  with same maintenance_ok [of "oracle" clock cm ts cm'] show ?thesis by auto
qed

lemma bump_persisted_latest:
  assumes "bump_persisted_max_repeatable_ts closed w tw ts sm = Some (Inr advanced, sm', sent)" "sm_versions sm \<noteq> []"
  shows "sm_versions sm' \<noteq> [] \<and> snd (last (sm_versions sm')) = snd (last (sm_versions sm)) \<and>
    fst (last (sm_versions sm)) \<le> fst (last (sm_versions sm'))"
proof (cases "fst (last (sm_versions sm)) < ts")
  case True
  with assms have "sm_push closed w tw ts (snd (last (sm_versions sm))) 0 (sm\<lparr>sm_persisted_max_repeatable_ts := ts\<rparr>) = Some (sm', sent)"
    by (auto simp: bump_persisted_max_repeatable_ts_def Let_def sm_latest_def split: if_splits)
  from sm_push_latest [OF this] True show ?thesis by simp
next
  case False
  with assms show ?thesis
    by (auto simp: bump_persisted_max_repeatable_ts_def Let_def sm_latest_def split: if_splits)
qed

lemma repeatable_ok:
  assumes "finish_max_repeatable_ts env closed ts barrier cm = Some (Inr r, cm')"
    and ne: "sm_versions (cm_snapshots cm) \<noteq> []" and log: "wm_reachable (cm_log cm) h"
  shows "\<exists>sm log cl. cm' = cm\<lparr>cm_snapshots := sm, cm_log := log, cm_closed_read_timestamps := cl\<rparr> \<and>
    sm_versions sm \<noteq> [] \<and> snd (last (sm_versions sm)) = snd (last (sm_versions (cm_snapshots cm))) \<and>
    fst (last (sm_versions (cm_snapshots cm))) \<le> fst (last (sm_versions sm)) \<and>
    wm_reachable log (if log = cm_log cm then h else h @ [(ts, [], Some ''publish_max_repeatable_ts'')])"
proof -
  have same: ?thesis if "cm' = cm"
    using that ne log by (intro exI [of _ "cm_snapshots cm"] exI [of _ "cm_log cm"] exI [of _ "cm_closed_read_timestamps cm"]) simp
  from assms(1) have "cm' = cm \<or> publish_repeatable env closed ts barrier cm = Some (Inr r, cm')"
    by (auto simp: finish_max_repeatable_ts_def split: option.splits if_splits)
  moreover have ?thesis if "publish_repeatable env closed ts barrier cm = Some (Inr r, cm')"
  proof -
    from that obtain cm1 where p: "publish_max_repeatable_ts env closed ts cm = Some (Inr (), cm1)"
      and cm': "cm' = (if barrier then note_closed ts cm1 else cm1)"
      by (auto simp: publish_repeatable_def split: sum.splits) (metis sumE unit.exhaust)
    from p obtain advanced sm sent where b: "bump_persisted_max_repeatable_ts closed (ce_transaction_window env)
        (ce_throughput_window env) ts (cm_snapshots cm) = Some (Inr advanced, sm, sent)"
      and c: "if advanced then \<exists>log sent. wm_append closed ts [] (Some ''publish_max_repeatable_ts'') (cm_log cm) = Some (log, sent) \<and>
          cm1 = cm\<lparr>cm_snapshots := sm, cm_log := log\<rparr> else cm1 = cm\<lparr>cm_snapshots := sm\<rparr>"
      by (auto simp: publish_max_repeatable_ts_def split: option.splits sum.splits if_splits)
    obtain log where cm1: "cm1 = cm\<lparr>cm_snapshots := sm, cm_log := log\<rparr>"
      and l: "wm_reachable log (if log = cm_log cm then h else h @ [(ts, [], Some ''publish_max_repeatable_ts'')])"
    proof (cases advanced)
      case True
      with c obtain log sent where a: "wm_append closed ts [] (Some ''publish_max_repeatable_ts'') (cm_log cm) = Some (log, sent)"
          "cm1 = cm\<lparr>cm_snapshots := sm, cm_log := log\<rparr>" by auto
      from reach_append [OF log a(1)] log a(2) show ?thesis by (intro that) auto
    next
      case False
      with c log show ?thesis by (intro that [of "cm_log cm"]) simp_all
    qed
    obtain cl where "cm' = cm\<lparr>cm_snapshots := sm, cm_log := log, cm_closed_read_timestamps := cl\<rparr>"
    proof (cases barrier)
      case True
      then show ?thesis by (intro that) (simp add: cm' cm1 note_closed_def Let_def)
    next
      case False
      then show ?thesis by (intro that [of "cm_closed_read_timestamps cm"]) (simp add: cm' cm1)
    qed
    with l bump_persisted_latest [OF b ne] show ?thesis by blast
  qed
  ultimately show ?thesis using same by blast
qed

lemma recompute_held:
  assumes "recompute_pending_snapshots update base p = Some p'"
  shows "held p' = held p \<and> map fst p' = map fst p"
  using assms
proof (induction p arbitrary: base p')
  case (Cons x p)
  obtain ts ws src n where x: "x = (ts, ws, src, n)" using prod_cases4 by blast
  with Cons.prems obtain base' q where "recompute_pending_snapshots update base' p = Some q" "p' = (ts, ws, src, base') # q"
    by (auto split: option.splits)
  with Cons.IH [of base' q] show ?case by (simp add: x)
qed simp

lemma bt_wf_keys: "map fst p = map fst q \<Longrightarrow> bt_wf p \<longleftrightarrow> bt_wf q"
proof -
  have *: "bt_wf m \<longleftrightarrow> sorted_wrt (<) (map fst m)" for m :: "('a::linorder, 'b) btree_map"
    by (simp add: bt_wf_def sorted_wrt_map)
  have **: "bt_wf m \<longleftrightarrow> sorted_wrt (<) (map fst m)" for m :: "('a::linorder, 'c) btree_map"
    by (simp add: bt_wf_def sorted_wrt_map)
  assume "map fst p = map fst q"
  then show ?thesis unfolding * ** by simp
qed

lemma reject_ok:
  assumes "reject_commit env commit_id (Some ts) cm = Some (Inr (), cm')" "bt_wf (cm_pending_writes cm)"
    and "bt_get (cm_pending_writes cm) ts = Some (ws, src, n)"
  shows "\<exists>p. cm' = cm\<lparr>cm_queued_snapshots := tl (cm_queued_snapshots cm), cm_pending_writes := p\<rparr> \<and> bt_wf p \<and>
    held p = held (cm_pending_writes cm) - {(ts, ws)}"
proof -
  from assms(1) obtain cm1 where d: "dequeue_snapshot commit_id cm = Some cm1"
    by (auto simp: reject_commit_def split: option.splits)
  then have cm1: "cm1 = cm\<lparr>cm_queued_snapshots := tl (cm_queued_snapshots cm)\<rparr>"
    by (auto simp: dequeue_snapshot_def split: list.splits if_splits)
  from assms(1,3) d obtain p where p: "cm' = cm1\<lparr>cm_pending_writes := p\<rparr>"
      "recompute_pending_snapshots (\<lambda>u ts n. case ce_update env u ts n of Inl _ \<Rightarrow> None | Inr n' \<Rightarrow> Some n')
         (cm_latest_snapshot cm1) (bt_remove ts (cm_pending_writes cm)) = Some p"
    by (auto simp: reject_commit_def writes_remove_def cm1)
  from recompute_held [OF p(2)] have "held p = held (bt_remove ts (cm_pending_writes cm))"
    and "map fst p = map fst (bt_remove ts (cm_pending_writes cm))" by auto
  moreover from bt_wf_keys [OF this(2)] assms(2) have "bt_wf p" by simp
  ultimately show ?thesis unfolding p(1) cm1 held_remove [OF assms(2,3)] by blast
qed

section \<open>The invariant of a run\<close>

definition passed ::
  "('d, 's, 'v, 'n) commit_env \<Rightarrow> ('d, 's) validated \<Rightarrow> ('d, 's) validated \<Rightarrow> bool" where
  "passed env u v \<longleftrightarrow> (vt_begin v < vt_ts u \<and> vt_ts u \<le> vt_ts v \<and> read_set_wf (vt_reads v) \<and>
     faithful_keys env (vt_reads v) (vt_writes u) \<longrightarrow> \<not> writes_conflict (ce_ops env) (vt_reads v) (vt_writes u))"

definition intents :: "('d, 'v, 'n) committer \<Rightarrow> 'd intent list \<Rightarrow> 'd intent set" where
  "intents cm D = held (cm_pending_writes cm) \<union> held (cm_prepared_writes cm) \<union> set D"

definition accounted :: "('d, 's) validated list \<Rightarrow> 'd intent set \<Rightarrow> bool" where
  "accounted V I \<longleftrightarrow> (\<forall>v \<in> set V. vt_writes v = [] \<or> vt_key v \<in> I) \<and> I \<subseteq> vt_key ` set V"

definition run_inv ::
  "('d, 's, 'v, 'n) commit_env \<Rightarrow> ('d, 'v, 'n) committer \<Rightarrow> ('d, 'v) log_entry list \<Rightarrow> ('d, 's) validated list \<Rightarrow>
   'd intent list \<Rightarrow> bool" where
  "run_inv env cm h V D \<longleftrightarrow> wm_reachable (cm_log cm) h \<and> sm_versions (cm_snapshots cm) \<noteq> [] \<and>
     bt_wf (cm_pending_writes cm) \<and> prepared_linked cm \<and>
     (cm_pending_writes cm = [] \<or> cm_prepared_transactions cm = []) \<and> (\<forall>v \<in> set V. vt_ts v \<le> cm_last_assigned_ts cm) \<and>
     accounted V (intents cm D) \<and> logged env h D \<and> sorted_wrt (passed env) V"

lemma accounted_simps [simp]: "accounted [] {}"
  by (simp add: accounted_def)

lemma accounted_add: "accounted V I \<Longrightarrow> accounted (V @ [v]) (insert (vt_key v) I)"
  by (auto simp: accounted_def)

lemma accounted_add_reads: "accounted V I \<Longrightarrow> vt_writes v = [] \<Longrightarrow> accounted (V @ [v]) I"
  by (auto simp: accounted_def)

lemma accounted_give_up: "accounted V I \<Longrightarrow> set D \<subseteq> I \<Longrightarrow> accounted (give_up x D V) ((I - {x}) \<union> set D)"
  by (auto simp: accounted_def give_up_def)

lemma logged_later: "logged env h D \<Longrightarrow> logged env (h @ es) D"
  by (force simp: logged_def)

lemma logged_publish: "logged env h D \<Longrightarrow> logged env (h @ [(ts, index_keys_from_full_documents env ws n, src)]) (D @ [(ts, ws)])"
  by (force simp: logged_def)

lemma passed_add:
  assumes inv: "run_inv env cm h V D"
    and check: "ensure_no_conflict (ce_ops env) (vt_reads v) (vt_begin v) (vt_ts v) cm = Inr ()"
  shows "sorted_wrt (passed env) (V @ [v])"
proof -
  have "passed env u v" if u: "u \<in> set V" for u
    unfolding passed_def
  proof (intro impI, elim conjE)
    assume r: "vt_begin v < vt_ts u" "vt_ts u \<le> vt_ts v" "read_set_wf (vt_reads v)" "faithful_keys env (vt_reads v) (vt_writes u)"
    show "\<not> writes_conflict (ce_ops env) (vt_reads v) (vt_writes u)"
    proof (cases "vt_writes u = []")
      case True
      then show ?thesis by (simp add: writes_conflict_def)
    next
      case False
      with u inv have "vt_key u \<in> intents cm D" unfolding run_inv_def accounted_def by blast
      with no_conflict_sound [OF check, of h D "vt_ts u" "vt_writes u"] inv r show ?thesis
        by (simp add: run_inv_def intents_def)
    qed
  qed
  with inv show ?thesis by (simp add: run_inv_def sorted_wrt_append)
qed

lemma run_inv_assigned:
  "run_inv env cm h V D \<Longrightarrow> cm_last_assigned_ts cm \<le> t \<Longrightarrow> run_inv env (cm\<lparr>cm_last_assigned_ts := t\<rparr>) h V D"
  by (auto simp: run_inv_def intents_def prepared_linked_def intro: order_trans)

lemma give_up_subset: "v \<in> set (give_up x D V) \<Longrightarrow> v \<in> set V"
  by (simp add: give_up_def)

lemma passed_give_up: "sorted_wrt (passed env) V \<Longrightarrow> sorted_wrt (passed env) (give_up x D V)"
  by (simp add: give_up_def sorted_wrt_filter)

lemma run_inv_commit:
  assumes inv: "run_inv env cm h V D"
    and s: "start_commit env oracle clock tx source commit_id cm = Some (Inr (Inr handle), cm')"
    and l: "last (cm_pending_writes cm') = (ts, ws, src, n)"
  shows "run_inv env cm' h
    (V @ [\<lparr>vt_begin = repeatable_ts (ft_begin_timestamp tx), vt_reads = ft_reads tx, vt_ts = ts, vt_writes = ws\<rparr>]) D"
    (is "run_inv env cm' h (V @ [?v]) D")
proof -
  from inv have wf: "bt_wf (cm_pending_writes cm)" by (simp add: run_inv_def)
  from start_commit_ok [OF wf s] obtain t ordered m where lt: "cm_last_assigned_ts cm < t" "cm_prepared_transactions cm = []"
    and nc: "ensure_no_conflict (ce_ops env) (ft_reads tx) (repeatable_ts (ft_begin_timestamp tx)) t cm = Inr ()"
    and keys: "\<forall>x \<in> set (cm_pending_writes cm). fst x < t"
    and cm': "cm' = cm\<lparr>cm_last_assigned_ts := t, cm_pending_writes := cm_pending_writes cm @ [(t, packed_writes ordered, source, m)],
            cm_queued_snapshots := cm_queued_snapshots cm @ [(commit_id, t, m)]\<rparr>" by blast
  from l have t: "t = ts" "packed_writes ordered = ws" by (simp_all add: cm')
  have "intents cm' D = insert (ts, ws) (intents cm D)" by (simp add: intents_def cm' t held_def)
  moreover have "bt_wf (cm_pending_writes cm')" using wf keys by (simp add: cm' bt_wf_def sorted_wrt_append)
  moreover have "\<forall>v \<in> set V. vt_ts v \<le> t"
  proof
    fix v assume "v \<in> set V"
    with inv have "vt_ts v \<le> cm_last_assigned_ts cm" by (simp add: run_inv_def)
    with lt(1) show "vt_ts v \<le> t" by simp
  qed
  ultimately show ?thesis
    using inv passed_add [OF inv, of ?v] nc accounted_add [of V "intents cm D" ?v] lt(2)
    by (simp add: run_inv_def cm' t prepared_linked_def)
qed

lemma run_inv_prepare:
  assumes inv: "run_inv env cm h V D" and new: "bt_get (cm_prepared_transactions cm) txn = None"
    and s: "stage_prepared_transaction env oracle clock txn begin_ts reads writes mapping source explicit_ts require_leader False cm =
      Some (Inr ts, cm')"
    and l: "bt_get (cm_prepared_writes cm') ts = Some (ws, src, n)"
  shows "run_inv env cm' h (V @ [\<lparr>vt_begin = begin_ts, vt_reads = reads, vt_ts = ts, vt_writes = ws\<rparr>]) D"
    (is "run_inv env cm' h (V @ [?v]) D")
proof -
  from inv have linked: "prepared_linked cm" and wf: "bt_wf (cm_prepared_writes cm)"
    by (simp_all add: run_inv_def prepared_linked_def)
  from stage_ok [OF new s] obtain ordered m dw where pending: "cm_pending_writes cm = []"
    and free: "bt_get (cm_prepared_writes cm) ts = None"
    and nc: "ensure_no_conflict (ce_ops env) reads begin_ts ts cm = Inr ()"
    and cm': "cm' = cm\<lparr>cm_last_assigned_ts := max ts (cm_last_assigned_ts cm),
            cm_prepared_writes := bt_insert ts (packed_writes ordered, source, m) (cm_prepared_writes cm),
            cm_prepared_transactions := bt_insert txn \<lparr>ptx_prepared_write = Some ts, ptx_origin_commit_ts = ts,
              ptx_commit_ts = ts, ptx_document_writes = dw\<rparr> (cm_prepared_transactions cm)\<rparr>" by blast
  from l wf have ws: "packed_writes ordered = ws" by (simp add: cm' bt_get_insert)
  have "intents cm' D = insert (ts, ws) (intents cm D)" by (auto simp: intents_def cm' ws held_insert [OF wf free])
  moreover have "prepared_linked cm'" using prepared_linked_insert [OF linked new free] by (simp add: cm' prepared_linked_def)
  moreover have "\<forall>v \<in> set V. vt_ts v \<le> max ts (cm_last_assigned_ts cm)" using inv by (simp add: run_inv_def le_max_iff_disj)
  ultimately show ?thesis
    using inv passed_add [OF inv, of ?v] nc accounted_add [of V "intents cm D" ?v] pending
    by (simp add: run_inv_def cm' le_max_iff_disj)
qed

lemma run_inv_reads:
  assumes inv: "run_inv env cm h V D" and s: "validate_participant_reads env tx source ts cm = (Inr (), cm')"
  shows "run_inv env cm' h (V @ [\<lparr>vt_begin = repeatable_ts (pt_begin_timestamp tx), vt_reads = pt_reads tx, vt_ts = ts,
    vt_writes = []\<rparr>]) D" (is "run_inv env cm' h (V @ [?v]) D")
proof -
  from validate_reads_ok [OF s] have nc: "ensure_no_conflict (ce_ops env) (pt_reads tx) (repeatable_ts (pt_begin_timestamp tx)) ts cm = Inr ()"
    and cm': "cm' = cm\<lparr>cm_last_assigned_ts := max ts (cm_last_assigned_ts cm)\<rparr>" by blast+
  have "run_inv env cm' h V D" unfolding cm' by (rule run_inv_assigned [OF inv]) (simp add: le_max_iff_disj)
  moreover have "ts \<le> cm_last_assigned_ts cm'" by (simp add: cm' le_max_iff_disj)
  ultimately show ?thesis
    using passed_add [OF inv, of ?v] nc accounted_add_reads [of V "intents cm' D" ?v] by (simp add: run_inv_def)
qed

lemma run_inv_publish:
  assumes inv: "run_inv env cm h V D" and p: "cm_pending_writes cm = (ts, ws, src, n) # rest"
    and f: "finish_commit env closed commit_id handle delta_ts bytes cm = Some (Inr (), cm')"
  shows "run_inv env cm' (h @ [(ts, index_keys_from_full_documents env ws n, src)]) V (D @ [(ts, ws)])"
proof -
  from inv have log: "wm_reachable (cm_log cm) h" by (simp add: run_inv_def)
  from finish_commit_ok [OF f p log] obtain log' sm where
    cm': "cm' = cm\<lparr>cm_queued_snapshots := tl (cm_queued_snapshots cm), cm_pending_writes := rest, cm_log := log', cm_snapshots := sm\<rparr>"
    and *: "sm_versions sm \<noteq> []" "wm_reachable log' (h @ [(ts, index_keys_from_full_documents env ws n, src)])" by blast
  have "intents cm' (D @ [(ts, ws)]) = intents cm D" by (auto simp: intents_def cm' p)
  moreover have "bt_wf rest" using inv p by (simp add: run_inv_def bt_wf_def)
  moreover have "prepared_linked cm' \<longleftrightarrow> prepared_linked cm" by (simp add: prepared_linked_def cm')
  ultimately show ?thesis using inv * logged_publish [of env h D ts ws n src] p by (simp add: run_inv_def) (simp add: cm')
qed

lemma run_inv_publish_prepared:
  assumes inv: "run_inv env cm h V D" and f: "publish_prepared_commit env closed txn ts bytes cm = Some (Inr (), cm')"
    and w: "bt_get (cm_prepared_writes cm) ts = Some (ws, src, n)"
  shows "run_inv env cm' (h @ [(ts, index_keys_from_full_documents env ws n, src)]) V (D @ [(ts, ws)])"
proof -
  from inv have linked: "prepared_linked cm" and log: "wm_reachable (cm_log cm) h" and wf: "bt_wf (cm_prepared_writes cm)"
    by (simp_all add: run_inv_def prepared_linked_def)
  from publish_prepared_ok [OF linked log f w] obtain p log' sm where p: "bt_get (cm_prepared_transactions cm) txn = Some p"
      "ptx_commit_ts p = ts"
    and cm': "cm' = cm\<lparr>cm_prepared_transactions := bt_remove txn (cm_prepared_transactions cm),
            cm_prepared_writes := bt_remove ts (cm_prepared_writes cm), cm_log := log', cm_snapshots := sm\<rparr>"
    and *: "sm_versions sm \<noteq> []" "wm_reachable log' (h @ [(ts, index_keys_from_full_documents env ws n, src)])" by blast
  have "(ts, ws) \<in> held (cm_prepared_writes cm)" using w wf by (auto simp: held_get)
  then have "intents cm' (D @ [(ts, ws)]) = intents cm D" by (auto simp: intents_def cm' held_remove [OF wf w])
  moreover have "prepared_linked cm'" using prepared_linked_remove [OF linked p(1)] by (simp add: cm' p(2) prepared_linked_def)
  moreover have "cm_pending_writes cm = []" using inv p(1) by (auto simp: run_inv_def)
  ultimately show ?thesis using inv * logged_publish [of env h D ts ws n src] by (simp add: run_inv_def cm')
qed

lemma run_inv_reject:
  assumes inv: "run_inv env cm h V D" and w: "bt_get (cm_pending_writes cm) ts = Some (ws, src, n)"
    and f: "reject_commit env commit_id (Some ts) cm = Some (Inr (), cm')"
  shows "run_inv env cm' h (give_up (ts, ws) D V) D"
proof -
  from inv have wf: "bt_wf (cm_pending_writes cm)" by (simp add: run_inv_def)
  from reject_ok [OF f wf w] obtain p where cm': "cm' = cm\<lparr>cm_queued_snapshots := tl (cm_queued_snapshots cm), cm_pending_writes := p\<rparr>"
    and p: "bt_wf p" "held p = held (cm_pending_writes cm) - {(ts, ws)}" by blast
  have "cm_prepared_writes cm = []" "cm_prepared_transactions cm = []"
    using inv w prepared_linked_empty by (auto simp: run_inv_def)
  then have "intents cm' D = (intents cm D - {(ts, ws)}) \<union> set D" by (auto simp: intents_def cm' p)
  with inv p(1) accounted_give_up [of V "intents cm D" D "(ts, ws)"] passed_give_up [of env V] \<open>cm_prepared_transactions cm = []\<close>
  show ?thesis by (auto simp: run_inv_def cm' prepared_linked_def intents_def dest: give_up_subset)
qed

lemma run_inv_rollback:
  assumes inv: "run_inv env cm h V D" and p: "bt_get (cm_prepared_transactions cm) txn = Some p"
    and w: "bt_get (cm_prepared_writes cm) (ptx_commit_ts p) = Some (ws, src, n)"
    and f: "handle_rollback_prepared io txn cm = (Inr (), cm')"
  shows "run_inv env cm' h (give_up (ptx_commit_ts p, ws) D V) D"
proof -
  from inv have linked: "prepared_linked cm" and wf: "bt_wf (cm_prepared_writes cm)" by (simp_all add: run_inv_def prepared_linked_def)
  have cm': "cm' = cm\<lparr>cm_prepared_transactions := bt_remove txn (cm_prepared_transactions cm),
    cm_prepared_writes := bt_remove (ptx_commit_ts p) (cm_prepared_writes cm)\<rparr>" by (rule rollback_ok [OF linked p f])
  have pending: "cm_pending_writes cm = []" using inv p by (auto simp: run_inv_def)
  then have "intents cm' D = (intents cm D - {(ptx_commit_ts p, ws)}) \<union> set D"
    by (auto simp: intents_def cm' held_remove [OF wf w])
  moreover have "prepared_linked cm'" using prepared_linked_remove [OF linked p] by (simp add: cm')
  ultimately show ?thesis
    using inv accounted_give_up [of V "intents cm D" D "(ptx_commit_ts p, ws)"] passed_give_up [of env V] pending
    by (auto simp: run_inv_def cm' intents_def dest: give_up_subset)
qed

lemma run_inv_repeatable:
  assumes inv: "run_inv env cm h V D" and f: "finish_max_repeatable_ts env closed ts barrier cm = Some (Inr r, cm')"
  shows "run_inv env cm' (if cm_log cm' = cm_log cm then h else h @ [(ts, [], Some ''publish_max_repeatable_ts'')]) V D"
proof -
  from inv have ne: "sm_versions (cm_snapshots cm) \<noteq> []" and log: "wm_reachable (cm_log cm) h" by (simp_all add: run_inv_def)
  from repeatable_ok [OF f ne log] obtain sm log' cl where
    "cm' = cm\<lparr>cm_snapshots := sm, cm_log := log', cm_closed_read_timestamps := cl\<rparr>" "sm_versions sm \<noteq> []"
    "wm_reachable log' (if log' = cm_log cm then h else h @ [(ts, [], Some ''publish_max_repeatable_ts'')])" by blast
  with inv logged_later [of env h D] show ?thesis by (simp add: run_inv_def intents_def prepared_linked_def)
qed

lemma run_inv_holds: "committer_run env calm n0 cm h V D \<Longrightarrow> run_inv env cm h V D"
proof (induction rule: committer_run.induct)
  case (run_start cm h)
  then show ?case by (simp add: run_inv_def intents_def prepared_linked_def linked_def logged_def)
next
  case (run_commit_refused cm h V D "oracle" clock tx source commit_id e cm')
  with start_commit_refused [of env "oracle" clock tx source commit_id cm e cm'] run_inv_assigned show ?case by blast
next
  case (run_prepare_refused cm h V D "oracle" clock txn begin_ts reads writes mapping source explicit_ts require_leader e cm')
  from stage_refused [OF run_prepare_refused.hyps(2)] run_prepare_refused.IH run_inv_assigned show ?case by blast
next
  case (run_barrier cm h V D target include_latest r cm')
  from close_read_ok [OF run_barrier.hyps(2)] show ?case
  proof
    assume "\<exists>closed. cm' = cm\<lparr>cm_closed_read_timestamps := closed\<rparr>"
    with run_barrier.IH show ?thesis by (auto simp: run_inv_def intents_def prepared_linked_def)
  next
    assume "cm' = cm\<lparr>cm_last_assigned_ts := target, cm_read_barrier_floor := target\<rparr> \<and> cm_last_assigned_ts cm \<le> target"
    with run_inv_assigned [OF run_barrier.IH, of target] show ?thesis by (simp add: run_inv_def intents_def prepared_linked_def)
  qed
next
  case (run_bump cm h V D maintenance clock ts cm')
  from bump_ok [OF run_bump.hyps(2)] run_bump.IH run_inv_assigned show ?case by blast
next
  case (run_allocate cm h V D "oracle" clock floor ts cm')
  from next_commit_ts_at_or_after_ok [OF run_allocate.hyps(2)] run_allocate.IH run_inv_assigned show ?case by (blast intro: less_imp_le)
next
  case (run_retain cm h V D heap_size soft_max min_retention max_retention now)
  then show ?case by (simp add: run_inv_def intents_def prepared_linked_def reach_retain)
next
  case (run_bookkeeping cm h V D)
  then show ?case by (simp add: run_inv_def intents_def prepared_linked_def)
qed (blast intro: run_inv_commit run_inv_prepare run_inv_reads run_inv_publish run_inv_publish_prepared run_inv_reject
    run_inv_rollback run_inv_repeatable)+

lemma run_facts:
  assumes "committer_run env calm n0 cm h V D"
  shows "wm_reachable (cm_log cm) h" "sm_versions (cm_snapshots cm) \<noteq> []" "bt_wf (cm_pending_writes cm)" "prepared_linked cm"
    "cm_pending_writes cm = [] \<or> cm_prepared_transactions cm = []"
  using run_inv_holds [OF assms] by (simp_all add: run_inv_def)

section \<open>The order of publication\<close>

definition in_order :: "('d, 'v, 'n) committer \<Rightarrow> 'd intent list \<Rightarrow> bool" where
  "in_order cm D \<longleftrightarrow> sorted_wrt (\<lambda>a b. fst a < fst b) D \<and> (\<forall>x \<in> set D. fst x \<le> cm_latest_ts cm)"

lemma in_order_publish:
  assumes "in_order cm D" "cm_latest_ts cm < ts" "cm_latest_ts cm' = ts"
  shows "in_order cm' (D @ [(ts, ws)])"
proof -
  from assms(1,2) have "\<forall>x \<in> set D. fst x < ts" unfolding in_order_def using le_less_trans by blast
  with assms show ?thesis by (auto simp: in_order_def sorted_wrt_append)
qed

lemma in_order_same: "in_order cm D \<Longrightarrow> cm_latest_ts cm \<le> cm_latest_ts cm' \<Longrightarrow> in_order cm' D"
  unfolding in_order_def using order_trans by blast

lemma run_in_order: "committer_run env calm n0 cm h V D \<Longrightarrow> in_order cm D"
proof (induction rule: committer_run.induct)
  case (run_start cm h)
  then show ?case by (simp add: in_order_def)
next
  case (run_commit cm h V D "oracle" clock tx source commit_id handle cm')
  from start_commit_ok [OF run_facts(3) [OF run_commit.hyps(1)] run_commit.hyps(2)] run_commit.IH show ?case
    by (auto simp: cm_latest_ts_def intro: in_order_same)
next
  case (run_commit_refused cm h V D "oracle" clock tx source commit_id e cm')
  from start_commit_refused [OF run_commit_refused.hyps(2)] run_commit_refused.IH show ?case
    by (auto simp: cm_latest_ts_def intro: in_order_same)
next
  case (run_prepare cm h V D txn "oracle" clock begin_ts reads writes mapping source explicit_ts require_leader prepare_ts cm')
  from stage_ok [OF run_prepare.hyps(2,4)] run_prepare.IH show ?case by (auto simp: cm_latest_ts_def intro: in_order_same)
next
  case (run_prepare_refused cm h V D "oracle" clock txn begin_ts reads writes mapping source explicit_ts require_leader e cm')
  from stage_refused [OF run_prepare_refused.hyps(2)] run_prepare_refused.IH show ?case
    by (auto simp: cm_latest_ts_def intro: in_order_same)
next
  case (run_reads cm h V D tx source validate_ts cm')
  from validate_reads_ok [OF run_reads.hyps(2)] run_reads.IH show ?case by (auto simp: cm_latest_ts_def intro: in_order_same)
next
  case (run_publish cm h V D ts ws src n rest closed commit_id handle delta_ts bytes cm')
  from finish_commit_ok [OF run_publish.hyps(3,2) run_facts(1) [OF run_publish.hyps(1)]] run_publish.IH show ?case
    by (auto simp: cm_latest_ts_def intro!: in_order_publish)
next
  case (run_publish_prepared cm h V D closed txn ts bytes cm' ws src n)
  from publish_prepared_ok [OF run_facts(4,1) [OF run_publish_prepared.hyps(1)] run_publish_prepared.hyps(2,3)]
    run_publish_prepared.IH show ?case by (auto simp: cm_latest_ts_def intro!: in_order_publish)
next
  case (run_reject cm h V D ts ws src n commit_id cm')
  from reject_ok [OF run_reject.hyps(4) run_facts(3) [OF run_reject.hyps(1)] run_reject.hyps(3)] run_reject.IH show ?case
    by (auto simp: cm_latest_ts_def intro: in_order_same)
next
  case (run_rollback cm h V D txn prepared ws src n io cm')
  from rollback_ok [OF run_facts(4) [OF run_rollback.hyps(1)] run_rollback.hyps(2,4)] run_rollback.IH show ?case
    by (auto simp: cm_latest_ts_def intro: in_order_same)
next
  case (run_barrier cm h V D target include_latest r cm')
  from close_read_ok [OF run_barrier.hyps(2)] run_barrier.IH show ?case by (auto simp: cm_latest_ts_def intro: in_order_same)
next
  case (run_bump cm h V D maintenance clock ts cm')
  from bump_ok [OF run_bump.hyps(2)] run_bump.IH show ?case by (auto simp: cm_latest_ts_def intro: in_order_same)
next
  case (run_allocate cm h V D "oracle" clock floor ts cm')
  from next_commit_ts_at_or_after_ok [OF run_allocate.hyps(2)] run_allocate.IH show ?case
    by (auto simp: cm_latest_ts_def intro: in_order_same)
next
  case (run_repeatable cm h V D closed ts barrier r cm')
  from repeatable_ok [OF run_repeatable.hyps(2) run_facts(2,1) [OF run_repeatable.hyps(1)]] run_repeatable.IH show ?case
    by (auto simp: cm_latest_ts_def intro: in_order_same)
qed (auto simp: cm_latest_ts_def intro: in_order_same)

section \<open>What the latest snapshot holds\<close>

definition replay :: "('d, 's, 'v, 'n) commit_env \<Rightarrow> 'n \<Rightarrow> 'd intent list \<Rightarrow> anyhow_error + 'n" where
  "replay env n D = fold (\<lambda>(ts, ws) acc. and_then acc (apply_writes env ts ws)) D (Inr n)"

lemma replay_append: "replay env n (D @ [(ts, ws)]) = and_then (replay env n D) (apply_writes env ts ws)"
  by (simp add: replay_def)

text \<open>Each pending write is staged on the one before it, the first on the latest snapshot.\<close>

fun chained :: "('d, 's, 'v, 'n) commit_env \<Rightarrow> 'n \<Rightarrow> ('d, 'n) writes_by_ts \<Rightarrow> bool" where
  "chained env n [] = True"
| "chained env n ((ts, ws, _, n') # p) = (apply_writes env ts ws n = Inr n' \<and> chained env n' p)"

definition chain_end :: "'n \<Rightarrow> ('d, 'n) writes_by_ts \<Rightarrow> 'n" where
  "chain_end n p = (if p = [] then n else snd (snd (snd (last p))))"

lemma chained_append:
  "chained env n (p @ [(ts, ws, src, m)]) \<longleftrightarrow> chained env n p \<and> apply_writes env ts ws (chain_end n p) = Inr m"
  by (induction env n p rule: chained.induct) (auto simp: chain_end_def)

definition calm_inv ::
  "('d, 's, 'v, 'n) commit_env \<Rightarrow> 'n \<Rightarrow> ('d, 'v, 'n) committer \<Rightarrow> 'd intent list \<Rightarrow> bool" where
  "calm_inv env n0 cm D \<longleftrightarrow> replay env n0 D = Inr (cm_latest_snapshot cm) \<and>
     chained env (cm_latest_snapshot cm) (cm_pending_writes cm) \<and>
     map snd (cm_queued_snapshots cm) = map (\<lambda>(ts, _, _, n). (ts, n)) (cm_pending_writes cm) \<and>
     length (cm_prepared_transactions cm) \<le> 1 \<and>
     (\<forall>ts ws src n. bt_get (cm_prepared_writes cm) ts = Some (ws, src, n) \<longrightarrow>
        apply_writes env ts ws (cm_latest_snapshot cm) = Inr n)"

lemma base_calm:
  assumes "calm_inv env n0 cm D"
  shows "base_snapshot_for_new_writes cm = chain_end (cm_latest_snapshot cm) (cm_pending_writes cm)"
proof (cases "cm_pending_writes cm" rule: rev_cases)
  case Nil
  with assms show ?thesis
    by (simp add: calm_inv_def base_snapshot_for_new_writes_def latest_queued_snapshot_def pending_latest_def bt_last_def chain_end_def)
next
  case (snoc p x)
  obtain ts ws src n where x: "x = (ts, ws, src, n)" using prod_cases4 by blast
  from assms snoc x have q: "map snd (cm_queued_snapshots cm) = map (\<lambda>(ts, _, _, n). (ts, n)) p @ [(ts, n)]"
    by (simp add: calm_inv_def)
  then have "cm_queued_snapshots cm \<noteq> []" by auto
  moreover from this q have "snd (last (cm_queued_snapshots cm)) = (ts, n)" by (simp flip: last_map)
  ultimately show ?thesis
    by (simp add: base_snapshot_for_new_writes_def latest_queued_snapshot_def pending_latest_def bt_last_def chain_end_def snoc x)
qed

lemma calm_inv_same:
  assumes "calm_inv env n0 cm D" "cm_latest_snapshot cm' = cm_latest_snapshot cm" "cm_pending_writes cm' = cm_pending_writes cm"
    "cm_queued_snapshots cm' = cm_queued_snapshots cm" "cm_prepared_transactions cm' = cm_prepared_transactions cm"
    "cm_prepared_writes cm' = cm_prepared_writes cm"
  shows "calm_inv env n0 cm' D"
  using assms by (simp add: calm_inv_def)

lemma calm_commit:
  assumes inv: "calm_inv env n0 cm D" and wf: "bt_wf (cm_pending_writes cm)" and linked: "prepared_linked cm"
    and s: "start_commit env oracle clock tx source commit_id cm = Some (Inr (Inr handle), cm')"
  shows "calm_inv env n0 cm' D"
proof -
  from start_commit_ok [OF wf s] obtain ts ordered n where none: "cm_prepared_transactions cm = []"
    and ap: "apply_writes env ts (packed_writes ordered) (base_snapshot_for_new_writes cm) = Inr n"
    and cm': "cm' = cm\<lparr>cm_last_assigned_ts := ts, cm_pending_writes := cm_pending_writes cm @ [(ts, packed_writes ordered, source, n)],
            cm_queued_snapshots := cm_queued_snapshots cm @ [(commit_id, ts, n)]\<rparr>" by blast
  have "cm_latest_snapshot cm' = cm_latest_snapshot cm" by (simp add: cm' cm_latest_snapshot_def)
  with inv ap prepared_linked_empty [OF linked none] none show ?thesis
    by (simp add: calm_inv_def cm' chained_append base_calm [OF inv])
qed

lemma calm_prepare:
  assumes inv: "calm_inv env n0 cm D" and linked: "prepared_linked cm" and none: "cm_prepared_transactions cm = []"
    and s: "stage_prepared_transaction env oracle clock txn begin_ts reads writes mapping source explicit_ts require_leader False cm =
      Some (Inr ts, cm')"
  shows "calm_inv env n0 cm' D"
proof -
  from stage_ok [OF _ s] none obtain ordered n dw where p: "cm_pending_writes cm = []"
    and ap: "apply_writes env ts (packed_writes ordered) (base_snapshot_for_new_writes cm) = Inr n"
    and cm': "cm' = cm\<lparr>cm_last_assigned_ts := max ts (cm_last_assigned_ts cm),
            cm_prepared_writes := bt_insert ts (packed_writes ordered, source, n) (cm_prepared_writes cm),
            cm_prepared_transactions := bt_insert txn \<lparr>ptx_prepared_write = Some ts, ptx_origin_commit_ts = ts,
              ptx_commit_ts = ts, ptx_document_writes = dw\<rparr> (cm_prepared_transactions cm)\<rparr>" by auto
  have "cm_latest_snapshot cm' = cm_latest_snapshot cm" by (simp add: cm' cm_latest_snapshot_def)
  with inv ap prepared_linked_empty [OF linked none] none p show ?thesis
    by (simp add: calm_inv_def cm' base_calm [OF inv] chain_end_def bt_get_def)
qed

lemma calm_publish:
  assumes inv: "calm_inv env n0 cm D" and p: "cm_pending_writes cm = (ts, ws, src, n) # rest" and linked: "prepared_linked cm"
    and excl: "cm_pending_writes cm = [] \<or> cm_prepared_transactions cm = []" and log: "wm_reachable (cm_log cm) h"
    and f: "finish_commit env closed commit_id handle delta_ts bytes cm = Some (Inr (), cm')"
  shows "calm_inv env n0 cm' (D @ [(ts, ws)])"
proof -
  from finish_commit_ok [OF f p log] obtain log' sm where cm': "cm' = cm\<lparr>cm_queued_snapshots := tl (cm_queued_snapshots cm),
      cm_pending_writes := rest, cm_log := log', cm_snapshots := sm\<rparr>" "last (sm_versions sm) = (ts, n)" by blast
  have "cm_latest_snapshot cm' = n" by (simp add: cm' cm_latest_snapshot_def)
  with inv prepared_linked_empty [OF linked] excl p show ?thesis
    by (simp add: calm_inv_def cm' replay_append map_tl)
qed

lemma remove_only: "length m \<le> 1 \<Longrightarrow> bt_get m k \<noteq> None \<Longrightarrow> bt_remove k m = []"
  by (cases m) (auto simp: bt_get_def bt_remove_def split: if_splits)

lemma calm_publish_prepared:
  assumes inv: "calm_inv env n0 cm D" and linked: "prepared_linked cm"
    and excl: "cm_pending_writes cm = [] \<or> cm_prepared_transactions cm = []" and log: "wm_reachable (cm_log cm) h"
    and f: "publish_prepared_commit env closed txn ts bytes cm = Some (Inr (), cm')"
    and w: "bt_get (cm_prepared_writes cm) ts = Some (ws, src, n)"
  shows "calm_inv env n0 cm' (D @ [(ts, ws)])"
proof -
  from publish_prepared_ok [OF linked log f w] obtain p log' sm where p: "bt_get (cm_prepared_transactions cm) txn = Some p"
      "ptx_commit_ts p = ts"
    and cm': "cm' = cm\<lparr>cm_prepared_transactions := bt_remove txn (cm_prepared_transactions cm),
            cm_prepared_writes := bt_remove ts (cm_prepared_writes cm), cm_log := log', cm_snapshots := sm\<rparr>"
      "last (sm_versions sm) = (ts, n)" by blast
  from remove_only [of "cm_prepared_transactions cm" txn] inv p(1) have none: "cm_prepared_transactions cm' = []" by (simp add: calm_inv_def cm')
  have "prepared_linked cm'" using prepared_linked_remove [OF linked p(1)] p(2) by (simp add: cm' prepared_linked_def)
  from prepared_linked_empty [OF this none] have "cm_prepared_writes cm' = []" .
  moreover have "cm_latest_snapshot cm' = n" by (simp add: cm' cm_latest_snapshot_def)
  moreover have "cm_pending_writes cm = []" using excl p(1) by auto
  ultimately show ?thesis using inv w none by (simp add: calm_inv_def replay_append) (simp add: cm')
qed

lemma calm_rollback:
  assumes inv: "calm_inv env n0 cm D" and linked: "prepared_linked cm"
    and p: "bt_get (cm_prepared_transactions cm) txn = Some p" and f: "handle_rollback_prepared io txn cm = (Inr (), cm')"
  shows "calm_inv env n0 cm' D"
proof -
  have cm': "cm' = cm\<lparr>cm_prepared_transactions := bt_remove txn (cm_prepared_transactions cm),
    cm_prepared_writes := bt_remove (ptx_commit_ts p) (cm_prepared_writes cm)\<rparr>" by (rule rollback_ok [OF linked p f])
  from remove_only [of "cm_prepared_transactions cm" txn] inv p have none: "cm_prepared_transactions cm' = []" by (simp add: calm_inv_def cm')
  have "prepared_linked cm'" using prepared_linked_remove [OF linked p] by (simp add: cm')
  from prepared_linked_empty [OF this none] have "cm_prepared_writes cm' = []" .
  moreover have "cm_latest_snapshot cm' = cm_latest_snapshot cm" by (simp add: cm' cm_latest_snapshot_def)
  ultimately show ?thesis using inv none by (simp add: calm_inv_def) (simp add: cm')
qed

lemma run_calm: "committer_run env True n0 cm h V D \<Longrightarrow> calm_inv env n0 cm D"
proof (induction rule: committer_run.induct)
  case (run_start cm h)
  then show ?case by (simp add: calm_inv_def replay_def)
next
  case (run_commit cm h V D "oracle" clock tx source commit_id handle cm')
  show ?case by (rule calm_commit [OF run_commit.IH run_facts(3,4) [OF run_commit.hyps(1)] run_commit.hyps(2)])
next
  case (run_commit_refused cm h V D "oracle" clock tx source commit_id e cm')
  from start_commit_refused [OF run_commit_refused.hyps(2)] show ?case
    by (auto simp: cm_latest_snapshot_def intro: calm_inv_same [OF run_commit_refused.IH])
next
  case (run_prepare cm h V D txn "oracle" clock begin_ts reads writes mapping source explicit_ts require_leader prepare_ts cm')
  show ?case
    by (rule calm_prepare [OF run_prepare.IH run_facts(4) [OF run_prepare.hyps(1)] run_prepare.hyps(3) [OF TrueI] run_prepare.hyps(4)])
next
  case (run_prepare_refused cm h V D "oracle" clock txn begin_ts reads writes mapping source explicit_ts require_leader e cm')
  from stage_refused [OF run_prepare_refused.hyps(2)] show ?case
    by (auto simp: cm_latest_snapshot_def intro: calm_inv_same [OF run_prepare_refused.IH])
next
  case (run_reads cm h V D tx source validate_ts cm')
  from validate_reads_ok [OF run_reads.hyps(2)] show ?case
    by (auto simp: cm_latest_snapshot_def intro: calm_inv_same [OF run_reads.IH])
next
  case (run_publish cm h V D ts ws src n rest closed commit_id handle delta_ts bytes cm')
  show ?case by (rule calm_publish [OF run_publish.IH run_publish.hyps(2) run_facts(4,5,1) [OF run_publish.hyps(1)] run_publish.hyps(3)])
next
  case (run_publish_prepared cm h V D closed txn ts bytes cm' ws src n)
  show ?case
    by (rule calm_publish_prepared [OF run_publish_prepared.IH run_facts(4,5,1) [OF run_publish_prepared.hyps(1)] run_publish_prepared.hyps(2,3)])
next
  case (run_rollback cm h V D txn prepared ws src n io cm')
  show ?case by (rule calm_rollback [OF run_rollback.IH run_facts(4) [OF run_rollback.hyps(1)] run_rollback.hyps(2,4)])
next
  case (run_barrier cm h V D target include_latest r cm')
  from close_read_ok [OF run_barrier.hyps(2)] show ?case
    by (auto simp: cm_latest_snapshot_def intro: calm_inv_same [OF run_barrier.IH])
next
  case (run_bump cm h V D maintenance clock ts cm')
  from bump_ok [OF run_bump.hyps(2)] show ?case
    by (auto simp: cm_latest_snapshot_def intro: calm_inv_same [OF run_bump.IH])
next
  case (run_allocate cm h V D "oracle" clock floor ts cm')
  from next_commit_ts_at_or_after_ok [OF run_allocate.hyps(2)] show ?case
    by (auto simp: cm_latest_snapshot_def intro: calm_inv_same [OF run_allocate.IH])
next
  case (run_repeatable cm h V D closed ts barrier r cm')
  from repeatable_ok [OF run_repeatable.hyps(2) run_facts(2,1) [OF run_repeatable.hyps(1)]] show ?case
    by (auto simp: cm_latest_snapshot_def intro: calm_inv_same [OF run_repeatable.IH])
next
  case (run_retain cm h V D)
  show ?case by (rule calm_inv_same [OF run_retain.IH]) (simp_all add: cm_latest_snapshot_def)
next
  case (run_bookkeeping cm h V D)
  show ?case by (rule calm_inv_same [OF run_bookkeeping.IH]) (simp_all add: cm_latest_snapshot_def)
qed simp

section \<open>Whole requests\<close>

text \<open>
  The handlers of whole requests are runs of such steps: what they do beyond
  staging and rolling back only touches the redo records and the waiters.
\<close>

lemma run_redo: "committer_run env calm n0 cm h V D \<Longrightarrow> committer_run env calm n0 (cm\<lparr>cm_redo := redo\<rparr>) h V D"
  using run_bookkeeping [where placement = "cm_placement cm" and commit_waiters = "cm_commit_waiters cm" and
      rollback_waiters = "cm_rollback_waiters cm" and raft = "cm_raft cm" and redo = redo]
  by fastforce

lemma run_delete_redo: "committer_run env calm n0 cm h V D \<Longrightarrow> committer_run env calm n0 (snd (delete_two_phase_redo io txn cm)) h V D"
  by (auto simp: delete_two_phase_redo_def run_redo split: sum.splits)

lemma run_persist_redo: "committer_run env calm n0 cm h V D \<Longrightarrow> committer_run env calm n0 (snd (persist_two_phase_redo io entry cm)) h V D"
  by (auto simp: persist_two_phase_redo_def run_redo split: sum.splits)

lemma run_handle_rollback:
  assumes run: "committer_run env calm n0 cm h V D"
  shows "\<exists>V'. committer_run env calm n0 (snd (handle_rollback_prepared io txn cm)) h V' D"
proof (cases "bt_get (cm_prepared_transactions cm) txn")
  case None
  then show ?thesis using run run_delete_redo [OF run, of io txn] by (auto simp: handle_rollback_prepared_def)
next
  case (Some p)
  from remove_intent [OF run_facts(4) [OF run] Some] obtain ws src n where
    w: "bt_get (cm_prepared_writes cm) (ptx_commit_ts p) = Some (ws, src, n)"
    and r: "writes_remove (ptx_prepared_write p) (cm_prepared_writes cm) =
      (Some (ptx_commit_ts p, ws, src, n), bt_remove (ptx_commit_ts p) (cm_prepared_writes cm))" by blast
  show ?thesis
  proof (cases "bt_get (cm_commit_waiters cm) txn = None")
    case True
    then have "fst (handle_rollback_prepared io txn cm) = Inr ()" by (simp add: handle_rollback_prepared_def Some r)
    with run_rollback [OF run Some w, of io "snd (handle_rollback_prepared io txn cm)"] show ?thesis by (metis prod.collapse)
  next
    case False
    then show ?thesis using run by (auto simp: handle_rollback_prepared_def)
  qed
qed

lemma run_make_durable:
  assumes run: "committer_run env calm n0 cm h V D"
  shows "\<exists>V'. committer_run env calm n0 (snd (make_prepare_durable io txn redo ts cm)) h V' D"
proof -
  obtain r cm1 where p: "persist_two_phase_redo (io_persist io) redo cm = (r, cm1)" by fastforce
  from run_persist_redo [OF run, of "io_persist io" redo] have run1: "committer_run env calm n0 cm1 h V D" by (simp add: p)
  obtain r2 cm2 where p2: "persist_two_phase_redo (io_persist_index io) redo cm1 = (r2, cm2)" by fastforce
  from run_persist_redo [OF run1, of "io_persist_index io" redo] have run2: "committer_run env calm n0 cm2 h V D" by (simp add: p2)
  from run_handle_rollback [OF run1, of "io_delete io" txn] obtain V' where
    rolled: "committer_run env calm n0 (snd (handle_rollback_prepared (io_delete io) txn cm1)) h V' D" by blast
  then have undone: "committer_run env calm n0 (undo_prepare (io_delete io) txn cm1) h V' D"
    unfolding undo_prepare_def by (rule run_delete_redo)
  show ?thesis
    unfolding make_prepare_durable_def p p2
    using run1 run2 rolled undone by (auto simp: p2 split: sum.splits option.splits)
qed

lemma run_stage:
  assumes run: "committer_run env calm n0 cm h V D" and calm: "calm \<Longrightarrow> cm_prepared_transactions cm = []"
    and s: "stage_prepared_transaction env oracle clock txn begin_ts reads writes mapping source explicit_ts require_leader False cm =
      Some (r, cm')"
  shows "\<exists>V'. committer_run env calm n0 cm' h V' D"
proof (cases "bt_get (cm_prepared_transactions cm) txn")
  case None
  show ?thesis
  proof (cases r)
    case (Inl e)
    with run_prepare_refused [OF run] s show ?thesis by blast
  next
    case (Inr ts)
    from stage_ok [OF None s [unfolded Inr]] run_facts(4) [OF run] have "bt_get (cm_prepared_writes cm') ts \<noteq> None"
      by (auto simp: prepared_linked_def bt_get_insert)
    then obtain ws src n where "bt_get (cm_prepared_writes cm') ts = Some (ws, src, n)" by auto
    from run_prepare [OF run None _ s [unfolded Inr] this] calm show ?thesis by blast
  qed
next
  case (Some p)
  with s have "cm' = cm" by (auto simp: stage_prepared_transaction_def split: sum.splits)
  with run show ?thesis by blast
qed

lemma run_handle_prepare_remote:
  assumes run: "committer_run env calm n0 cm h V D" and calm: "calm \<Longrightarrow> cm_prepared_transactions cm = []"
    and s: "handle_prepare_remote env encode_hex now io txn tx source prepare_ts ps cm = Some (r, cm')"
  shows "\<exists>V'. committer_run env calm n0 cm' h V' D"
proof -
  have stage: "\<exists>V'. committer_run env calm n0 cm1 h V' D"
    if "stage_participant_prepared_transaction env txn tx source prepare_ts True False cm = Some (x, cm1)" for x cm1
    using that run run_stage [OF run calm] unfolding stage_participant_prepared_transaction_def Let_def
    by (auto split: sum.splits)
  from s consider "cm' = cm"
    | x cm1 where "stage_participant_prepared_transaction env txn tx source prepare_ts True False cm = Some (x, cm1)" "cm' = cm1"
    | ts redo cm1 where "stage_participant_prepared_transaction env txn tx source prepare_ts True False cm = Some (Inr ts, cm1)"
        "make_prepare_durable io txn redo ts cm1 = (r, cm')"
    unfolding handle_prepare_remote_def by (auto split: sum.splits option.splits prod.splits)
  then show ?thesis
  proof cases
    case 3
    from stage [OF 3(1)] obtain V1 where "committer_run env calm n0 cm1 h V1 D" by blast
    from run_make_durable [OF this, of io txn redo ts] show ?thesis by (simp add: 3(2))
  qed (use run stage in auto)
qed

end
