(* ===== verification/CommitProperties.thy ===== *)
theory CommitProperties
  imports CommitHistory
begin

text \<open>
  The properties of the committer, with the sample runs that show where they hold
  and where the code breaks them.
\<close>

section \<open>Sample runs\<close>

text \<open>
  Documents are an id and a key; a snapshot is the list of the ids written, in
  order.  The committer is a single node without Raft and placement.
\<close>

definition sample_keys :: "resolved_document_id \<times> binary_key \<Rightarrow> unit document_index_keys" where
  "sample_keys d = [((fst (fst d), ''by_id''), Standard (snd d))]"

definition catalog_mapping :: table_mapping where
  "catalog_mapping = tm_insert [8] Global 1 tables_table (tm_insert [9] Global 2 index_table sample_mapping)"

definition sample_env :: "(resolved_document_id \<times> binary_key, unit, unit, resolved_document_id list) commit_env" where
  "sample_env = \<lparr>ce_ops = sample_ops, ce_catalog = sample_catalog, ce_update = (\<lambda>u _ n. Inr (n @ [pu_id u])),
     ce_transaction_window = 1000, ce_throughput_window = 1000, ce_table_mapping = (\<lambda>_. catalog_mapping),
     ce_index_keys = (\<lambda>_ u. \<lparr>ku_id = pu_id u, ku_old = map_option sample_keys (pu_old u), ku_new = map_option sample_keys (pu_new u)\<rparr>),
     ce_index_materialized = (\<lambda>_ _. Inr False), ce_remap_document = (\<lambda>_ d. Inr d)\<rparr>"

definition sample_cm :: "(resolved_document_id \<times> binary_key, unit, resolved_document_id list) committer" where
  "sample_cm = \<lparr>cm_pending_writes = [], cm_prepared_writes = [], cm_log = wm_new 5,
     cm_snapshots = sm_new (limiter_new 1000 1000 1000) 5 [] [] [], cm_last_assigned_ts = 5, cm_read_barrier_floor = 5,
     cm_closed_read_timestamps = [], cm_placement = None, cm_prepared_transactions = [], cm_commit_waiters = [],
     cm_rollback_waiters = [], cm_queued_snapshots = [], cm_raft = None, cm_redo = []\<rparr>"

definition reads_of :: "tablet_id \<Rightarrow> unit read_set" where
  "reads_of t = rs_new [((t, ''by_id''), \<lparr>ir_fields = [], ir_intervals = Intervals [([2], Excluded [4])], ir_stack_traces = None\<rparr>)] []"

definition message_doc :: resolved_document_id where "message_doc = ([1], 10001, [7])"
definition user_doc :: resolved_document_id where "user_doc = ([2], 10002, [7])"
definition module_doc :: resolved_document_id where "module_doc = ([3], 20, [7])"

definition insert_doc :: "resolved_document_id \<Rightarrow> (resolved_document_id \<times> binary_key) document_update_with_prev_ts" where
  "insert_doc ident = \<lparr>du_id = ident, du_old = None, du_new = Some (ident, [3])\<rparr>"

definition doc_writes :: "resolved_document_id \<Rightarrow> (resolved_document_id \<times> binary_key) ordered_document_writes" where
  "doc_writes ident = packed_writes [insert_doc ident]"

definition insert_tx :: "tablet_id \<Rightarrow> resolved_document_id \<Rightarrow> (resolved_document_id \<times> binary_key, unit) final_transaction" where
  "insert_tx t ident = \<lparr>ft_begin_timestamp = Repeatable 5, ft_table_mapping = catalog_mapping, ft_reads = reads_of t,
     ft_writes = [insert_doc ident]\<rparr>"

lemma sample_start: "committer_run sample_env calm [] sample_cm [] [] []"
  by (rule run_start) (simp_all add: sample_cm_def cm_latest_snapshot_def sm_new_def reach_new)


text \<open>The steps of the sample runs, on a state.\<close>

definition commit_step ::
  "timestamp \<Rightarrow> tablet_id \<Rightarrow> resolved_document_id \<Rightarrow> nat \<Rightarrow>
   (resolved_document_id \<times> binary_key, unit, resolved_document_id list) committer \<Rightarrow>
   ((anyhow_error + timestamp + write_handle) \<times> (resolved_document_id \<times> binary_key, unit, resolved_document_id list) committer) option" where
  "commit_step now t ident commit_id cm = start_commit sample_env None (Inr now) (insert_tx t ident) None commit_id cm"

definition prepare_step ::
  "string \<Rightarrow> timestamp \<Rightarrow> tablet_id \<Rightarrow> resolved_document_id \<Rightarrow>
   (resolved_document_id \<times> binary_key, unit, resolved_document_id list) committer \<Rightarrow>
   ((anyhow_error + timestamp) \<times> (resolved_document_id \<times> binary_key, unit, resolved_document_id list) committer) option" where
  "prepare_step txn at_ts t ident cm =
     stage_prepared_transaction sample_env None (Inr 0) txn 5 (reads_of t) [insert_doc ident] catalog_mapping None (Some at_ts) True False cm"

abbreviation sample_validated :: "tablet_id \<Rightarrow> timestamp \<Rightarrow> resolved_document_id \<Rightarrow> (resolved_document_id \<times> binary_key, unit) validated" where
  "sample_validated t ts ident \<equiv> \<lparr>vt_begin = 5, vt_reads = reads_of t, vt_ts = ts, vt_writes = doc_writes ident\<rparr>"

abbreviation sample_entry :: "timestamp \<Rightarrow> resolved_document_id \<Rightarrow> resolved_document_id list \<Rightarrow>
    (resolved_document_id \<times> binary_key, unit) log_entry" where
  "sample_entry ts ident n \<equiv> (ts, index_keys_from_full_documents sample_env (doc_writes ident) n, None)"

lemma sample_commit:
  assumes "committer_run sample_env calm [] cm h V D" "commit_step now t ident commit_id cm = Some (Inr (Inr handle), cm')"
    "last (cm_pending_writes cm') = (ts, doc_writes ident, None, n)"
  shows "committer_run sample_env calm [] cm' h (V @ [sample_validated t ts ident]) D"
  using run_commit [OF assms(1) assms(2) [unfolded commit_step_def] assms(3)] by (simp add: insert_tx_def)

lemma sample_prepare:
  assumes "committer_run sample_env False [] cm h V D" "bt_get (cm_prepared_transactions cm) txn = None"
    "prepare_step txn at_ts t ident cm = Some (Inr ts, cm')" "bt_get (cm_prepared_writes cm') ts = Some (doc_writes ident, None, n)"
  shows "committer_run sample_env False [] cm' h (V @ [sample_validated t ts ident]) D"
  using run_prepare [OF assms(1,2) _ assms(3) [unfolded prepare_step_def] assms(4)] by simp

lemma sample_publish:
  assumes "committer_run sample_env calm [] cm h V D" "cm_pending_writes cm = (ts, doc_writes ident, None, n) # rest"
    "finish_commit sample_env (\<lambda>_. False) commit_id (Some ts) ts 0 cm = Some (Inr (), cm')"
  shows "committer_run sample_env calm [] cm' (h @ [sample_entry ts ident n]) V (D @ [(ts, doc_writes ident)])"
  using run_publish [OF assms] .

lemma sample_publish_prepared:
  assumes "committer_run sample_env calm [] cm h V D"
    "publish_prepared_commit sample_env (\<lambda>_. False) txn ts 0 cm = Some (Inr (), cm')"
    "bt_get (cm_prepared_writes cm) ts = Some (doc_writes ident, None, n)"
  shows "committer_run sample_env calm [] cm' (h @ [sample_entry ts ident n]) V (D @ [(ts, doc_writes ident)])"
  using run_publish_prepared [OF assms] .

text \<open>Two local commits, a message and then a user, which is published.\<close>

definition local1 :: "(resolved_document_id \<times> binary_key, unit, resolved_document_id list) committer" where
  "local1 = snd (the (commit_step 10 [3] message_doc 1 sample_cm))"

definition local2 :: "(resolved_document_id \<times> binary_key, unit, resolved_document_id list) committer" where
  "local2 = snd (the (commit_step 11 [3] user_doc 2 local1))"

definition local3 :: "(resolved_document_id \<times> binary_key, unit, resolved_document_id list) committer" where
  "local3 = snd (the (finish_commit sample_env (\<lambda>_. False) 1 (Some 10) 10 0 local2))"

lemma sample_local2:
  "committer_run sample_env calm [] local2 [] [sample_validated [3] 10 message_doc, sample_validated [3] 11 user_doc] []"
proof -
  have "commit_step 10 [3] message_doc 1 sample_cm = Some (Inr (Inr (Some 10)), local1)" unfolding local1_def by code_simp
  moreover have "last (cm_pending_writes local1) = (10, doc_writes message_doc, None, [message_doc])" unfolding local1_def by code_simp
  ultimately have 1: "committer_run sample_env calm [] local1 [] [sample_validated [3] 10 message_doc] []"
    using sample_commit [OF sample_start] by (metis append_Nil)
  have "commit_step 11 [3] user_doc 2 local1 = Some (Inr (Inr (Some 11)), local2)" unfolding local2_def local1_def by code_simp
  moreover have "last (cm_pending_writes local2) = (11, doc_writes user_doc, None, [message_doc, user_doc])"
    unfolding local2_def local1_def by code_simp
  ultimately show ?thesis using sample_commit [OF 1] by (metis append_Cons append_Nil)
qed

lemma sample_local:
  "committer_run sample_env calm [] local3 [sample_entry 10 message_doc [message_doc]]
     [sample_validated [3] 10 message_doc, sample_validated [3] 11 user_doc] [(10, doc_writes message_doc)]"
proof -
  have "finish_commit sample_env (\<lambda>_. False) 1 (Some 10) 10 0 local2 = Some (Inr (), local3)"
    unfolding local3_def local2_def local1_def by code_simp
  moreover have "cm_pending_writes local2 = (10, doc_writes message_doc, None, [message_doc]) # tl (cm_pending_writes local2)"
    unfolding local2_def local1_def by code_simp
  ultimately show ?thesis using sample_publish [OF sample_local2] by (metis append_Nil)
qed

text \<open>Two prepared transactions that read what the other writes; the later one prepares at the earlier timestamp.\<close>

definition skew1 :: "(resolved_document_id \<times> binary_key, unit, resolved_document_id list) committer" where
  "skew1 = snd (the (prepare_step ''a'' 100 [1] user_doc sample_cm))"

definition skew2 :: "(resolved_document_id \<times> binary_key, unit, resolved_document_id list) committer" where
  "skew2 = snd (the (prepare_step ''b'' 90 [2] message_doc skew1))"

definition skew3 :: "(resolved_document_id \<times> binary_key, unit, resolved_document_id list) committer" where
  "skew3 = snd (the (publish_prepared_commit sample_env (\<lambda>_. False) ''b'' 90 0 skew2))"

definition skew4 :: "(resolved_document_id \<times> binary_key, unit, resolved_document_id list) committer" where
  "skew4 = snd (the (publish_prepared_commit sample_env (\<lambda>_. False) ''a'' 100 0 skew3))"

lemma sample_skew:
  "committer_run sample_env False [] skew4 [sample_entry 90 message_doc [message_doc], sample_entry 100 user_doc [user_doc]]
     [sample_validated [1] 100 user_doc, sample_validated [2] 90 message_doc] [(90, doc_writes message_doc), (100, doc_writes user_doc)]"
proof -
  have "prepare_step ''a'' 100 [1] user_doc sample_cm = Some (Inr 100, skew1)" unfolding skew1_def by code_simp
  moreover have "bt_get (cm_prepared_writes skew1) 100 = Some (doc_writes user_doc, None, [user_doc])" unfolding skew1_def by code_simp
  ultimately have 1: "committer_run sample_env False [] skew1 [] [sample_validated [1] 100 user_doc] []"
    using sample_prepare [OF sample_start] by (fastforce simp: sample_cm_def)
  have "prepare_step ''b'' 90 [2] message_doc skew1 = Some (Inr 90, skew2)" unfolding skew2_def skew1_def by code_simp
  moreover have "bt_get (cm_prepared_writes skew2) 90 = Some (doc_writes message_doc, None, [message_doc])"
    unfolding skew2_def skew1_def by code_simp
  moreover have "bt_get (cm_prepared_transactions skew1) ''b'' = None" unfolding skew1_def by code_simp
  ultimately have 2: "committer_run sample_env False [] skew2 [] [sample_validated [1] 100 user_doc, sample_validated [2] 90 message_doc] []"
    using sample_prepare [OF 1] by (metis append_Cons append_Nil)
  have "publish_prepared_commit sample_env (\<lambda>_. False) ''b'' 90 0 skew2 = Some (Inr (), skew3)"
    unfolding skew3_def skew2_def skew1_def by code_simp
  moreover have "bt_get (cm_prepared_writes skew2) 90 = Some (doc_writes message_doc, None, [message_doc])"
    unfolding skew2_def skew1_def by code_simp
  ultimately have 3: "committer_run sample_env False [] skew3 [sample_entry 90 message_doc [message_doc]]
      [sample_validated [1] 100 user_doc, sample_validated [2] 90 message_doc] [(90, doc_writes message_doc)]"
    using sample_publish_prepared [OF 2] by (metis append_Nil)
  have "publish_prepared_commit sample_env (\<lambda>_. False) ''a'' 100 0 skew3 = Some (Inr (), skew4)"
    unfolding skew4_def skew3_def skew2_def skew1_def by code_simp
  moreover have "bt_get (cm_prepared_writes skew3) 100 = Some (doc_writes user_doc, None, [user_doc])"
    unfolding skew3_def skew2_def skew1_def by code_simp
  ultimately show ?thesis using sample_publish_prepared [OF 3] by (metis append_Cons append_Nil)
qed

text \<open>
  Three local commits.  The first one is rejected after the second was staged on
  top of it; the third is staged after that, and then both are published.
\<close>

definition reject1 :: "(resolved_document_id \<times> binary_key, unit, resolved_document_id list) committer" where
  "reject1 = snd (the (reject_commit sample_env 1 (Some 10) local2))"

definition reject2 :: "(resolved_document_id \<times> binary_key, unit, resolved_document_id list) committer" where
  "reject2 = snd (the (commit_step 12 [1] module_doc 3 reject1))"

definition reject3 :: "(resolved_document_id \<times> binary_key, unit, resolved_document_id list) committer" where
  "reject3 = snd (the (finish_commit sample_env (\<lambda>_. False) 2 (Some 11) 11 0 reject2))"

definition reject4 :: "(resolved_document_id \<times> binary_key, unit, resolved_document_id list) committer" where
  "reject4 = snd (the (finish_commit sample_env (\<lambda>_. False) 3 (Some 12) 12 0 reject3))"

lemma sample_reject:
  "committer_run sample_env False [] reject4 [sample_entry 11 user_doc [user_doc], sample_entry 12 module_doc [message_doc, user_doc, module_doc]]
     [sample_validated [3] 11 user_doc, sample_validated [1] 12 module_doc] [(11, doc_writes user_doc), (12, doc_writes module_doc)]"
proof -
  have "give_up (10, doc_writes message_doc) [] [sample_validated [3] 10 message_doc, sample_validated [3] 11 user_doc] = [sample_validated [3] 11 user_doc]"
    by (simp add: give_up_def)
  moreover have "reject_commit sample_env 1 (Some 10) local2 = Some (Inr (), reject1)"
    unfolding reject1_def local2_def local1_def by code_simp
  moreover have "bt_get (cm_pending_writes local2) 10 = Some (doc_writes message_doc, None, [message_doc])"
    unfolding local2_def local1_def by code_simp
  ultimately have 1: "committer_run sample_env False [] reject1 [] [sample_validated [3] 11 user_doc] []"
    using run_reject [OF sample_local2] by metis
  have "commit_step 12 [1] module_doc 3 reject1 = Some (Inr (Inr (Some 12)), reject2)"
    unfolding reject2_def reject1_def local2_def local1_def by code_simp
  moreover have "last (cm_pending_writes reject2) = (12, doc_writes module_doc, None, [message_doc, user_doc, module_doc])"
    unfolding reject2_def reject1_def local2_def local1_def by code_simp
  ultimately have 2: "committer_run sample_env False [] reject2 [] [sample_validated [3] 11 user_doc, sample_validated [1] 12 module_doc] []"
    using sample_commit [OF 1] by (metis append_Cons append_Nil)
  have "finish_commit sample_env (\<lambda>_. False) 2 (Some 11) 11 0 reject2 = Some (Inr (), reject3)"
    unfolding reject3_def reject2_def reject1_def local2_def local1_def by code_simp
  moreover have "cm_pending_writes reject2 = (11, doc_writes user_doc, None, [user_doc]) # tl (cm_pending_writes reject2)"
    unfolding reject2_def reject1_def local2_def local1_def by code_simp
  ultimately have 3: "committer_run sample_env False [] reject3 [sample_entry 11 user_doc [user_doc]]
      [sample_validated [3] 11 user_doc, sample_validated [1] 12 module_doc] [(11, doc_writes user_doc)]"
    using sample_publish [OF 2] by (metis append_Nil)
  have "finish_commit sample_env (\<lambda>_. False) 3 (Some 12) 12 0 reject3 = Some (Inr (), reject4)"
    unfolding reject4_def reject3_def reject2_def reject1_def local2_def local1_def by code_simp
  moreover have "cm_pending_writes reject3 = (12, doc_writes module_doc, None, [message_doc, user_doc, module_doc]) # tl (cm_pending_writes reject3)"
    unfolding reject3_def reject2_def reject1_def local2_def local1_def by code_simp
  ultimately show ?thesis using sample_publish [OF 3] by (metis append_Cons append_Nil)
qed

section \<open>Properties\<close>

lemma linked_bij:
  assumes "linked f g"
  shows "bij_betw (\<lambda>txn. ptx_commit_ts (the (f txn))) (dom f) (dom g)"
  unfolding bij_betw_def
proof (intro conjI inj_onI equalityI subsetI)
  fix x y assume "x \<in> dom f" "y \<in> dom f" and e: "ptx_commit_ts (the (f x)) = ptx_commit_ts (the (f y))"
  then obtain p q where "f x = Some p" "f y = Some q" by blast
  with e assms show "x = y" unfolding linked_def by (metis option.sel)
next
  fix ts assume "ts \<in> (\<lambda>txn. ptx_commit_ts (the (f txn))) ` dom f"
  then obtain x p where "f x = Some p" "ts = ptx_commit_ts p" by auto
  with assms have "g ts \<noteq> None" unfolding linked_def by blast
  then show "ts \<in> dom g" by blast
next
  fix ts assume "ts \<in> dom g"
  with assms obtain x p where x: "f x = Some p" "ptx_commit_ts p = ts" unfolding linked_def by (metis domIff)
  show "ts \<in> (\<lambda>txn. ptx_commit_ts (the (f txn))) ` dom f"
    by (rule image_eqI [of _ _ x]) (use x in auto)
qed

lemma passed_pair:
  assumes "sorted_wrt (passed env) V" "sorted_wrt (\<lambda>u v. vt_ts u \<le> vt_ts v) V" "u \<in> set V" "v \<in> set V" "vt_ts u < vt_ts v"
  shows "passed env u v"
proof -
  from assms(3,4) obtain i j where i: "i < length V" "V ! i = u" and j: "j < length V" "V ! j = v" by (meson in_set_conv_nth)
  have "i < j"
  proof (rule ccontr)
    assume "\<not> i < j"
    with i j assms(5) have "j < i" by (metis less_irrefl linorder_neqE_nat)
    with sorted_wrt_nth_less [OF assms(2) this] i j assms(5) show False by simp
  qed
  with sorted_wrt_nth_less [OF assms(1) this] i j show ?thesis by simp
qed


lemma reads_of_wf: "read_set_wf (reads_of [1])" "read_set_wf (reads_of [2])" "read_set_wf (reads_of [3])"
  by (simp add: reads_of_def rs_new_def read_set_wf_def names_wf_def bt_wf_def iset_wf_def entries_wf_def
      is_valid_identifier_def, code_simp)+

lemma writes_conflict_eval:
  "read_set_wf reads \<Longrightarrow> writes_conflict ops reads ws \<longleftrightarrow> writes_overlap_docs ops reads [(0, ws, None)] \<noteq> None"
  by (simp add: writes_overlap_docs_conflict)

lemma sample_conflicts:
  "\<not> writes_conflict (ce_ops sample_env) (reads_of [3]) (doc_writes message_doc)"
  "writes_conflict (ce_ops sample_env) (reads_of [1]) (doc_writes message_doc)"
  "writes_conflict (ce_ops sample_env) (reads_of [2]) (doc_writes user_doc)"
  by (subst writes_conflict_eval, rule reads_of_wf, code_simp)+

lemma sample_faithful: "faithful_keys sample_env (reads_of [3]) (doc_writes message_doc)"
  using sample_conflicts(1) by (simp add: faithful_keys_def)


text \<open>
  C7. The latest snapshot of a leader is the replay of the published writes, in
  order, from the snapshot it started with, as long as no accepted commit is
  rejected and at most one transaction is prepared at a time.
\<close>
theorem snapshot_replays_commits:
  assumes "committer_run env True n0 cm h V D"
  shows "replay env n0 D = Inr (cm_latest_snapshot cm)"
  using run_calm [OF assms] by (simp add: calm_inv_def)

theorem snapshot_replays_commits_witness: "replay sample_env [] [(10, doc_writes message_doc)] = Inr (cm_latest_snapshot local3)"
  by (rule snapshot_replays_commits [OF sample_local])

text \<open>
  C10. In every state of a run, the pending writes are in the order of their
  timestamps, every prepared transaction has exactly one intent, under its own
  timestamp, and every intent has its transaction, and no write is pending while a
  transaction is prepared.
\<close>
theorem committer_state_wf:
  assumes "committer_run env calm n0 cm h V D"
  shows "sorted_wrt (<) (bt_keys (cm_pending_writes cm)) \<and>
    bij_betw (\<lambda>txn. ptx_commit_ts (the (bt_get (cm_prepared_transactions cm) txn)))
      (set (bt_keys (cm_prepared_transactions cm))) (set (bt_keys (cm_prepared_writes cm))) \<and>
    (cm_pending_writes cm = [] \<or> cm_prepared_writes cm = [])"
proof -
  let ?f = "bt_get (cm_prepared_transactions cm)" and ?g = "bt_get (cm_prepared_writes cm)"
  from run_facts(4) [OF assms] have "linked ?f ?g" by (simp add: prepared_linked_def)
  moreover have "set (bt_keys (cm_prepared_transactions cm)) = dom ?f" "set (bt_keys (cm_prepared_writes cm)) = dom ?g"
    by (simp_all add: set_eq_iff domIff bt_get_None_iff)
  ultimately have "bij_betw (\<lambda>txn. ptx_commit_ts (the (?f txn))) (set (bt_keys (cm_prepared_transactions cm)))
      (set (bt_keys (cm_prepared_writes cm)))" by (simp only: linked_bij)
  moreover have "sorted_wrt (<) (bt_keys (cm_pending_writes cm))"
    using run_facts(3) [OF assms] by (simp add: bt_wf_def bt_keys_def sorted_wrt_map)
  ultimately show ?thesis
    using run_facts(5) [OF assms] prepared_linked_empty [OF run_facts(4) [OF assms]] by blast
qed

theorem committer_state_wf_witness: "sorted_wrt (<) (bt_keys (cm_pending_writes local2))"
  using committer_state_wf [OF sample_local2 [of False]] by simp

text \<open>
  C11. Prepares that come out of order break serializability.  There is a run in
  which both transactions prepare and commit although each has read what the other
  writes: the one at timestamp 100 began before timestamp 90, at which the other
  one wrote what it had read.  The prepare at 90 comes second; it is not refused,
  because the lowest timestamp a prepare may have does not depend on what is
  already prepared, and it does not see the intent at 100.
\<close>
theorem prepare_order_skew:
  "\<exists>cm h V D u v. committer_run sample_env False [] cm h V D \<and> u \<in> set V \<and> v \<in> set V \<and>
     (vt_ts u, vt_writes u) \<in> set D \<and> (vt_ts v, vt_writes v) \<in> set D \<and>
     vt_begin v < vt_ts u \<and> vt_ts u < vt_ts v \<and>
     writes_conflict (ce_ops sample_env) (vt_reads v) (vt_writes u) \<and>
     writes_conflict (ce_ops sample_env) (vt_reads u) (vt_writes v)"
proof (intro exI conjI)
  show "committer_run sample_env False [] skew4 [sample_entry 90 message_doc [message_doc], sample_entry 100 user_doc [user_doc]]
     [sample_validated [1] 100 user_doc, sample_validated [2] 90 message_doc] [(90, doc_writes message_doc), (100, doc_writes user_doc)]"
    by (rule sample_skew)
  show "writes_conflict (ce_ops sample_env) (vt_reads (sample_validated [1] 100 user_doc)) (vt_writes (sample_validated [2] 90 message_doc))"
    "writes_conflict (ce_ops sample_env) (vt_reads (sample_validated [2] 90 message_doc)) (vt_writes (sample_validated [1] 100 user_doc))"
    using sample_conflicts by simp_all
qed simp_all

text \<open>
  C12. Two transactions that are prepared at the same time lose a snapshot.  Each
  stages its snapshot on the latest published one, without the other, and that is
  the snapshot its commit publishes: after both commits the latest snapshot has
  only the writes of the second.
\<close>
theorem prepared_snapshot_lost:
  "\<exists>cm h V. committer_run sample_env False [] cm h V [(90, doc_writes message_doc), (100, doc_writes user_doc)] \<and>
     cm_latest_snapshot cm = [user_doc] \<and>
     replay sample_env [] [(90, doc_writes message_doc), (100, doc_writes user_doc)] = Inr [message_doc, user_doc]"
proof (intro exI conjI)
  show "cm_latest_snapshot skew4 = [user_doc]" by code_simp
  show "replay sample_env [] [(90, doc_writes message_doc), (100, doc_writes user_doc)] = Inr [message_doc, user_doc]" by code_simp
qed (rule sample_skew)

text \<open>
  C13. The writes of a rejected commit can become visible.  After a rejection the
  pending snapshots are computed again, but the queued ones are not, and a new
  commit starts from the last queued snapshot: when it is published, the latest
  snapshot holds the write of the commit that was rejected.
\<close>
theorem rejected_commit_resurfaces:
  "\<exists>cm h V. committer_run sample_env False [] cm h V [(11, doc_writes user_doc), (12, doc_writes module_doc)] \<and>
     cm_latest_snapshot cm = [message_doc, user_doc, module_doc] \<and>
     replay sample_env [] [(11, doc_writes user_doc), (12, doc_writes module_doc)] = Inr [user_doc, module_doc]"
proof (intro exI conjI)
  show "cm_latest_snapshot reject4 = [message_doc, user_doc, module_doc]" by code_simp
  show "replay sample_env [] [(11, doc_writes user_doc), (12, doc_writes module_doc)] = Inr [user_doc, module_doc]" by code_simp
qed (rule sample_reject)

end
