(* ===== verification/Tasks.thy ===== *)
theory Tasks
  imports AnyhowErrors "HOL-Library.Multiset"
begin

text \<open>
  Asynchronous code as tasks.  A task is an \<open>async\<close> block: it is ready with a
  value, or it makes one call on the world \<open>'w\<close> and goes on as another task.
  Between two calls other tasks may run; \<open>exec R\<close> lets them change the world by
  any steps of the relation \<open>R\<close>.  \<open>join\<close> polls the tasks of a
  \<open>FuturesUnordered\<close> in any order.  The rules at the end are those of
  rely-guarantee reasoning, where what a task relies on of the other tasks is
  also what it guarantees them.
\<close>

section \<open>Tasks and their runs\<close>

datatype ('w, 'a) task = Ready 'a | Await "'w \<Rightarrow> ('w, 'a) task \<times> 'w"

primrec task_bind :: "('w, 'a) task \<Rightarrow> ('a \<Rightarrow> ('w, 'b) task) \<Rightarrow> ('w, 'b) task" where
  "task_bind (Ready x) k = k x"
| "task_bind (Await f) k = Await (\<lambda>w. map_prod (\<lambda>t. task_bind t k) id (f w))"

definition call :: "('w \<Rightarrow> 'a \<times> 'w) \<Rightarrow> ('w, 'a) task" where
  "call f = Await (\<lambda>w. map_prod Ready id (f w))"

text \<open>\<open>.await?\<close> on a fallible task.\<close>

definition try_bind :: "('w, 'e + 'a) task \<Rightarrow> ('a \<Rightarrow> ('w, 'e + 'b) task) \<Rightarrow> ('w, 'e + 'b) task" where
  "try_bind t k = task_bind t (\<lambda>r. case r of Inl e \<Rightarrow> Ready (Inl e) | Inr x \<Rightarrow> k x)"

definition task_context :: "string \<Rightarrow> ('w, anyhow_error + 'a) task \<Rightarrow> ('w, anyhow_error + 'a) task" where
  "task_context ctx t = task_bind t (\<lambda>r. Ready (case r of Inl e \<Rightarrow> Inl (with_context ctx e) | Inr x \<Rightarrow> Inr x))"

text \<open>A run with no other task.\<close>

primrec run_task :: "('w, 'a) task \<Rightarrow> 'w \<Rightarrow> 'a \<times> 'w" where
  "run_task (Ready x) w = (x, w)"
| "run_task (Await f) w = (case map_prod run_task id (f w) of (r, w') \<Rightarrow> r w')"

text \<open>A run among other tasks, which change the world by steps of \<open>R\<close>.\<close>

inductive exec :: "('w \<Rightarrow> 'w \<Rightarrow> bool) \<Rightarrow> ('w, 'a) task \<Rightarrow> 'w \<Rightarrow> 'a \<Rightarrow> 'w \<Rightarrow> bool" for R where
  exec_ready: "exec R (Ready x) w x w"
| exec_other: "R w w1 \<Longrightarrow> exec R t w1 x w' \<Longrightarrow> exec R t w x w'"
| exec_await: "f w = (t, w1) \<Longrightarrow> exec R t w1 x w' \<Longrightarrow> exec R (Await f) w x w'"

lemma run_task_bind: "run_task (task_bind t k) w = (case run_task t w of (x, w') \<Rightarrow> run_task (k x) w')"
proof (induction t arbitrary: w)
  case (Await f)
  obtain t' w' where f: "f w = (t', w')" by (cases "f w")
  have "t' \<in> Basic_BNFs.fsts (f w)" by (simp add: f)
  from Await [OF rangeI this] show ?case by (simp add: f)
qed simp

lemma run_task_call [simp]: "run_task (call f) w = f w"
  by (cases "f w") (simp add: call_def)

lemma run_exec: "run_task t w = (x, w') \<Longrightarrow> exec R t w x w'"
proof (induction t arbitrary: w)
  case (Ready y)
  then show ?case by (simp add: exec_ready)
next
  case (Await f)
  obtain t' w1 where f: "f w = (t', w1)" by (cases "f w")
  have "t' \<in> Basic_BNFs.fsts (f w)" by (simp add: f)
  from Await(1) [OF rangeI this, of w1] Await(2) f have "exec R t' w1 x w'" by simp
  then show ?case by (rule exec_await [of f w t' w1, OF f])
qed

section \<open>Joining tasks\<close>

inductive polled :: "('w, 'a) task \<Rightarrow> ('w, 'a) task \<Rightarrow> bool" where
  "f w = (t, w') \<Longrightarrow> polled t (Await f)"

inductive_simps polled_Ready [simp]: "polled t (Ready x)"
inductive_simps polled_Await: "polled t (Await f)"

lemma wf_polled: "wfp (polled :: ('w, 'a) task \<Rightarrow> ('w, 'a) task \<Rightarrow> bool)"
proof (rule wfpUNIVI)
  fix P :: "('w, 'a) task \<Rightarrow> bool" and t
  assume step: "\<forall>t. (\<forall>t'. polled t' t \<longrightarrow> P t') \<longrightarrow> P t"
  show "P t"
  proof (induction t)
    case (Ready x)
    then show ?case using step by simp
  next
    case (Await f)
    have "P t'" if "polled t' (Await f)" for t'
      using that unfolding polled_Await by (metis Await rangeI fst_conv fsts.intros)
    then show ?case using step by blast
  qed
qed

lemma mset_nth: "i < length xs \<Longrightarrow> mset xs = mset (take i xs @ drop (Suc i) xs) + {#xs ! i#}"
  by (subst id_take_nth_drop [of i xs]) simp_all

lemma polled_smaller:
  assumes "i < length ts" "snd (ts ! i) = Await f" "f w = (t', w')"
  shows "(mset (map snd (ts[i := (k, t')])), mset (map snd ts)) \<in> mult {(x, y). polled x y}"
proof -
  let ?ys = "map snd ts" and ?M = "mset (take i (map snd ts) @ drop (Suc i) (map snd ts))"
  have "mset ?ys = ?M + {#Await f#}" using assms mset_nth [of i ?ys] by simp
  moreover have "mset (map snd (ts[i := (k, t')])) = ?M + {#t'#}"
    using assms mset_nth [of i "?ys[i := t']"] by (simp add: map_update)
  moreover have "polled t' (Await f)" using assms(3) by (rule polled.intros)
  ultimately show ?thesis
    using one_step_implies_mult [of "{#Await f#}" "{#t'#}" "{(x, y). polled x y}" ?M] by simp
qed

lemma finished_smaller:
  assumes "i < length ts"
  shows "(mset (map snd (take i ts @ drop (Suc i) ts)), mset (map snd ts)) \<in> mult {(x, y). polled x y}"
proof -
  let ?M = "mset (take i (map snd ts) @ drop (Suc i) (map snd ts))"
  have "mset (map snd ts) = ?M + {#snd (ts ! i)#}" using assms mset_nth [of i "map snd ts"] by simp
  then show ?thesis
    using one_step_implies_mult [of "{#snd (ts ! i)#}" "{#}" "{(x, y). polled x y}" ?M]
    by (simp add: take_map drop_map)
qed

text \<open>
  The results in the order in which the tasks complete.  \<open>pick\<close> chooses the
  task that is polled next.
\<close>

function join :: "('w \<Rightarrow> nat) \<Rightarrow> ('k \<times> ('w, 'a) task) list \<Rightarrow> ('w, ('k \<times> 'a) list) task" where
  "join pick [] = Ready []"
| "join pick (t # ts) = Await (\<lambda>w.
     let i = pick w mod Suc (length ts) in
     case (t # ts) ! i of
       (k, Ready x) \<Rightarrow> (task_bind (join pick (take i (t # ts) @ drop (Suc i) (t # ts))) (\<lambda>rs. Ready ((k, x) # rs)), w)
     | (k, Await f) \<Rightarrow> (case f w of (t', w') \<Rightarrow> (join pick ((t # ts)[i := (k, t')]), w')))"
  by pat_completeness auto
termination
proof (relation "inv_image (mult {(x, y). polled x y}) (\<lambda>(pick, ts). mset (map snd ts))", goal_cases)
  case 1
  show ?case using wf_polled by (intro wf_inv_image wf_mult) (simp add: wfp_def)
next
  case 2
  then show ?case by (simp only: in_inv_image split_conv) (rule finished_smaller, simp)
next
  case 3
  then show ?case
    by (simp only: in_inv_image split_conv) (rule polled_smaller [OF _ _ sym], auto simp: prod_eq_iff)
qed

section \<open>Rules\<close>

definition stable_under :: "('w \<Rightarrow> 'w \<Rightarrow> bool) \<Rightarrow> ('w \<Rightarrow> bool) \<Rightarrow> bool" where
  "stable_under R P \<longleftrightarrow> (\<forall>w w'. R w w' \<longrightarrow> P w \<longrightarrow> P w')"

text \<open>Every call of the task is a step of \<open>R\<close>.\<close>

inductive keeps :: "('w \<Rightarrow> 'w \<Rightarrow> bool) \<Rightarrow> ('w, 'a) task \<Rightarrow> bool" for R where
  keeps_ready: "keeps R (Ready x)"
| keeps_await: "(\<And>w. keeps R (fst (f w))) \<Longrightarrow> (\<And>w. R w (snd (f w))) \<Longrightarrow> keeps R (Await f)"

inductive_cases keeps_AwaitE: "keeps R (Await f)"

text \<open>From a world with \<open>P\<close>, the task ends in one with \<open>Q\<close>.\<close>

definition achieves :: "('w \<Rightarrow> 'w \<Rightarrow> bool) \<Rightarrow> ('w \<Rightarrow> bool) \<Rightarrow> ('w, 'a) task \<Rightarrow> ('a \<Rightarrow> 'w \<Rightarrow> bool) \<Rightarrow> bool" where
  "achieves R P t Q \<longleftrightarrow> (\<forall>w x w'. P w \<longrightarrow> exec R t w x w' \<longrightarrow> Q x w')"

lemma stable_const: "stable_under R (\<lambda>w. c)"
  by (simp add: stable_under_def)

lemma stable_conj: "stable_under R P \<Longrightarrow> stable_under R Q \<Longrightarrow> stable_under R (\<lambda>w. P w \<and> Q w)"
  by (auto simp: stable_under_def)

lemma stable_imp: "(c \<Longrightarrow> stable_under R P) \<Longrightarrow> stable_under R (\<lambda>w. c \<longrightarrow> P w)"
  by (auto simp: stable_under_def)

lemma stable_all: "(\<And>x. stable_under R (P x)) \<Longrightarrow> stable_under R (\<lambda>w. \<forall>x. P x w)"
  unfolding stable_under_def by blast

lemma stable_ex: "(\<And>x. stable_under R (P x)) \<Longrightarrow> stable_under R (\<lambda>w. \<exists>x. P x w)"
  unfolding stable_under_def by blast

lemma stable_ball: "(\<And>x. stable_under R (P x)) \<Longrightarrow> stable_under R (\<lambda>w. \<forall>x\<in>A. P x w)"
  unfolding stable_under_def by blast

lemma stable_sum: "(\<And>e. stable_under R (E e)) \<Longrightarrow> (\<And>x. stable_under R (Q x)) \<Longrightarrow>
  stable_under R (\<lambda>w. case r of Inl e \<Rightarrow> E e w | Inr x \<Rightarrow> Q x w)"
  by (cases r) simp_all

lemmas stable_rules = stable_const stable_conj stable_imp stable_all stable_ex stable_ball stable_sum

lemma stable_star: "stable_under R P \<Longrightarrow> R\<^sup>*\<^sup>* w w' \<Longrightarrow> P w \<Longrightarrow> P w'"
  by (rotate_tac 1, induction rule: rtranclp_induct) (auto simp: stable_under_def)

lemma exec_star: "R\<^sup>*\<^sup>* w w1 \<Longrightarrow> exec R t w1 x w' \<Longrightarrow> exec R t w x w'"
  by (induction rule: converse_rtranclp_induct) (auto intro: exec_other)

lemma exec_ReadyE:
  fixes x y :: 'a and w w' :: 'w
  assumes "exec R (Ready y) w x w'"
  shows "x = y \<and> R\<^sup>*\<^sup>* w w'"
  using assms by (induction "Ready y :: ('w, 'a) task" w x w' rule: exec.induct)
    (auto intro: converse_rtranclp_into_rtranclp)

lemma exec_AwaitE:
  assumes "exec R (Await f) w x w'"
  shows "\<exists>w1. R\<^sup>*\<^sup>* w w1 \<and> exec R (fst (f w1)) (snd (f w1)) x w'"
  using assms
proof (induction "Await f :: (_, _) task" w x w' rule: exec.induct)
  case (exec_other w w1 x w')
  then show ?case by (meson converse_rtranclp_into_rtranclp)
next
  case (exec_await w t w1 x w')
  then show ?case by (metis fst_conv snd_conv rtranclp.rtrancl_refl)
qed

lemma exec_bindE:
  "exec R (task_bind t k) w y w'' \<Longrightarrow> \<exists>x w'. exec R t w x w' \<and> exec R (k x) w' y w''"
proof (induction t arbitrary: w)
  case (Ready x)
  then show ?case by (auto intro: exec_ready)
next
  case (Await f)
  obtain w1 where w1: "R\<^sup>*\<^sup>* w w1" "exec R (task_bind (fst (f w1)) k) (snd (f w1)) y w''"
    using exec_AwaitE [OF Await(2) [unfolded task_bind.simps]] by auto
  have "fst (f w1) \<in> Basic_BNFs.fsts (f w1)" by (cases "f w1") simp
  from Await(1) [OF rangeI this w1(2)] obtain x w' where
    x: "exec R (fst (f w1)) (snd (f w1)) x w'" "exec R (k x) w' y w''" by blast
  have "exec R (Await f) w x w'"
    by (rule exec_star [OF w1(1)], rule exec_await [of f w1, OF _ x(1)], simp)
  with x(2) show ?case by blast
qed

lemma keeps_bind: "keeps R t \<Longrightarrow> (\<And>x. keeps R (k x)) \<Longrightarrow> keeps R (task_bind t k)"
  by (induction rule: keeps.induct) (auto intro: keeps.intros)

lemma keeps_call: "(\<And>w. R w (snd (f w))) \<Longrightarrow> keeps R (call f)"
  by (auto simp: call_def intro!: keeps.intros)

lemma keeps_try_bind: "keeps R t \<Longrightarrow> (\<And>x. keeps R (k x)) \<Longrightarrow> keeps R (try_bind t k)"
  unfolding try_bind_def by (rule keeps_bind) (auto split: sum.splits intro: keeps_ready)

lemma keeps_context: "keeps R t \<Longrightarrow> keeps R (task_context ctx t)"
  unfolding task_context_def by (rule keeps_bind) (auto intro: keeps_ready)

lemma keeps_exec: "exec R t w x w' \<Longrightarrow> keeps R t \<Longrightarrow> R\<^sup>*\<^sup>* w w'"
proof (induction rule: exec.induct)
  case (exec_await f w t w1 x w')
  from exec_await(4) have "keeps R (fst (f w))" "R w (snd (f w))" by (auto elim: keeps_AwaitE)
  with exec_await show ?case by (auto intro: converse_rtranclp_into_rtranclp)
qed (auto intro: converse_rtranclp_into_rtranclp)

lemma join_wf_induct [case_names less]:
  fixes ts :: "('k \<times> ('w, 'a) task) list"
  assumes "\<And>ts :: ('k \<times> ('w, 'a) task) list.
      (\<And>us k x vs. ts = us @ (k, Ready x) # vs \<Longrightarrow> P (us @ vs)) \<Longrightarrow>
      (\<And>us k f vs w t' w'. ts = us @ (k, Await f) # vs \<Longrightarrow> f w = (t', w') \<Longrightarrow> P (us @ (k, t') # vs)) \<Longrightarrow> P ts"
  shows "P ts"
proof -
  let ?r = "inv_image (mult {(x, y). polled x y}) (\<lambda>ts :: ('k \<times> ('w, 'a) task) list. mset (map snd ts))"
  have "wf ?r" using wf_polled by (intro wf_inv_image wf_mult) (simp add: wfp_def)
  then show ?thesis
  proof (induction ts rule: wf_induct_rule)
    case (less ts)
    show ?case
    proof (rule assms)
      fix us k x vs
      assume ts: "ts = us @ (k, Ready x) # vs"
      show "P (us @ vs)" using finished_smaller [of "length us" ts] ts by (intro less) simp
    next
      fix us k f vs w t' w'
      assume ts: "ts = us @ (k, Await f) # vs" and f: "f w = (t', w')"
      show "P (us @ (k, t') # vs)" using polled_smaller [of "length us" ts f w t' w' k] ts f by (intro less) simp
    qed
  qed
qed

lemma join_poll:
  assumes "ts \<noteq> []"
  obtains g where "join pick ts = Await g"
    "\<And>w. (\<exists>us k x vs. ts = us @ (k, Ready x) # vs \<and> g w = (task_bind (join pick (us @ vs)) (\<lambda>rs. Ready ((k, x) # rs)), w)) \<or>
          (\<exists>us k f vs t' w'. ts = us @ (k, Await f) # vs \<and> f w = (t', w') \<and> g w = (join pick (us @ (k, t') # vs), w'))"
proof -
  obtain t ts' where ts: "ts = t # ts'" using assms by (cases ts) auto
  define g where "g w = (let i = pick w mod Suc (length ts') in
     case ts ! i of
       (k, Ready x) \<Rightarrow> (task_bind (join pick (take i ts @ drop (Suc i) ts)) (\<lambda>rs. Ready ((k, x) # rs)), w)
     | (k, Await f) \<Rightarrow> (case f w of (t', w') \<Rightarrow> (join pick (ts[i := (k, t')]), w')))" for w
  show ?thesis
  proof (rule that [of g])
    show "join pick ts = Await g" unfolding ts g_def by (simp only: join.simps)
    fix w
    define i where "i = pick w mod Suc (length ts')"
    have i: "i < length ts" by (simp add: i_def ts)
    obtain k t0 where t0: "ts ! i = (k, t0)" by (cases "ts ! i")
    note split = id_take_nth_drop [OF i, unfolded t0]
    show "(\<exists>us k x vs. ts = us @ (k, Ready x) # vs \<and> g w = (task_bind (join pick (us @ vs)) (\<lambda>rs. Ready ((k, x) # rs)), w)) \<or>
          (\<exists>us k f vs t' w'. ts = us @ (k, Await f) # vs \<and> f w = (t', w') \<and> g w = (join pick (us @ (k, t') # vs), w'))"
    proof (cases t0)
      case (Ready x)
      then have "g w = (task_bind (join pick (take i ts @ drop (Suc i) ts)) (\<lambda>rs. Ready ((k, x) # rs)), w)"
        by (simp add: g_def i_def [symmetric] t0)
      with split Ready show ?thesis by blast
    next
      case (Await f)
      obtain t' w' where f: "f w = (t', w')" by (cases "f w")
      with Await have "g w = (join pick (take i ts @ (k, t') # drop (Suc i) ts), w')"
        by (simp add: g_def i_def [symmetric] t0 upd_conv_take_nth_drop [OF i])
      with split Await f show ?thesis by blast
    qed
  qed
qed

lemma keeps_join: "(\<And>k t. (k, t) \<in> set ts \<Longrightarrow> keeps R t) \<Longrightarrow> reflp R \<Longrightarrow> keeps R (join pick ts)"
proof (induction ts rule: join_wf_induct)
  case (less ts)
  show ?case
  proof (cases "ts = []")
    case False
    then obtain g where g: "join pick ts = Await g"
      "\<And>w. (\<exists>us k x vs. ts = us @ (k, Ready x) # vs \<and> g w = (task_bind (join pick (us @ vs)) (\<lambda>rs. Ready ((k, x) # rs)), w)) \<or>
            (\<exists>us k f vs t' w'. ts = us @ (k, Await f) # vs \<and> f w = (t', w') \<and> g w = (join pick (us @ (k, t') # vs), w'))"
      by (rule join_poll [where pick = pick]) blast
    have "keeps R (fst (g w)) \<and> R w (snd (g w))" for w
      using g(2) [of w]
    proof (elim disjE exE conjE)
      fix us k x vs
      assume ts: "ts = us @ (k, Ready x) # vs" and gw: "g w = (task_bind (join pick (us @ vs)) (\<lambda>rs. Ready ((k, x) # rs)), w)"
      have "keeps R (join pick (us @ vs))" by (rule less(1) [OF ts]) (use less(3,4) ts in auto)
      then show ?thesis using gw less(4) by (auto intro!: keeps_bind keeps_ready dest: reflpD)
    next
      fix us k f vs t' w'
      assume ts: "ts = us @ (k, Await f) # vs" and f: "f w = (t', w')" and gw: "g w = (join pick (us @ (k, t') # vs), w')"
      have "keeps R (Await f)" by (rule less(3) [of k]) (simp add: ts)
      with f have k: "keeps R t'" "R w w'" by (auto elim!: keeps_AwaitE) (metis fst_conv, metis snd_conv)
      have "keeps R (join pick (us @ (k, t') # vs))" by (rule less(2) [OF ts f]) (use less(3,4) ts k(1) in auto)
      then show ?thesis using gw k(2) by simp
    qed
    then show ?thesis unfolding g(1) by (blast intro: keeps_await)
  qed (simp add: keeps_ready)
qed

text \<open>Each result comes from a run of its task, among the steps of the others.\<close>

definition joined :: "('w \<Rightarrow> 'w \<Rightarrow> bool) \<Rightarrow> ('k \<times> ('w, 'a) task) list \<Rightarrow> 'w \<Rightarrow> ('k \<times> 'a) list \<Rightarrow> 'w \<Rightarrow> bool" where
  "joined R ts w rs w' \<longleftrightarrow> mset (map fst rs) = mset (map fst ts) \<and>
     (\<forall>k x. (k, x) \<in> set rs \<longrightarrow> (\<exists>t w1 w2. (k, t) \<in> set ts \<and> R\<^sup>*\<^sup>* w w1 \<and> exec R t w1 x w2 \<and> R\<^sup>*\<^sup>* w2 w'))"

lemma joined_finished:
  assumes "joined R (us @ vs) w1 rs w2" "R\<^sup>*\<^sup>* w w1" "R\<^sup>*\<^sup>* w1 w2" "R\<^sup>*\<^sup>* w2 w'"
  shows "joined R (us @ (k, Ready x) # vs) w ((k, x) # rs) w'"
  unfolding joined_def
proof (intro conjI allI impI)
  show "mset (map fst ((k, x) # rs)) = mset (map fst (us @ (k, Ready x) # vs))" using assms(1) by (simp add: joined_def)
next
  fix k' x'
  assume mem: "(k', x') \<in> set ((k, x) # rs)"
  show "\<exists>t w1 w2. (k', t) \<in> set (us @ (k, Ready x) # vs) \<and> R\<^sup>*\<^sup>* w w1 \<and> exec R t w1 x' w2 \<and> R\<^sup>*\<^sup>* w2 w'"
  proof (cases "(k', x') \<in> set rs")
    case True
    with assms(1) obtain t v1 v2 where t: "(k', t) \<in> set (us @ vs)" "R\<^sup>*\<^sup>* w1 v1" "exec R t v1 x' v2" "R\<^sup>*\<^sup>* v2 w2"
      unfolding joined_def by blast
    from t(1) have "(k', t) \<in> set (us @ (k, Ready x) # vs)" by auto
    then show ?thesis using rtranclp_trans [OF assms(2) t(2)] t(3) rtranclp_trans [OF t(4) assms(4)] by blast
  next
    case False
    with mem have "(k', Ready x') \<in> set (us @ (k, Ready x) # vs)" by auto
    then show ?thesis using assms(2) rtranclp_trans [OF assms(3,4)] exec_ready [of R x' w1] by blast
  qed
qed

lemma joined_polled:
  assumes "joined R (us @ (k, t') # vs) v rs w'" "f w1 = (t', v)" "R\<^sup>*\<^sup>* w w1" "R w1 v"
  shows "joined R (us @ (k, Await f) # vs) w rs w'"
  unfolding joined_def
proof (intro conjI allI impI)
  show "mset (map fst rs) = mset (map fst (us @ (k, Await f) # vs))" using assms(1) by (simp add: joined_def)
next
  fix k' x'
  assume mem: "(k', x') \<in> set rs"
  with assms(1) obtain t v1 v2 where t: "(k', t) \<in> set (us @ (k, t') # vs)" "R\<^sup>*\<^sup>* v v1" "exec R t v1 x' v2" "R\<^sup>*\<^sup>* v2 w'"
    unfolding joined_def by blast
  show "\<exists>t w1 w2. (k', t) \<in> set (us @ (k, Await f) # vs) \<and> R\<^sup>*\<^sup>* w w1 \<and> exec R t w1 x' w2 \<and> R\<^sup>*\<^sup>* w2 w'"
  proof (cases "k' = k \<and> t = t'")
    case True
    have "exec R (Await f) w1 x' v2" by (rule exec_await [of f w1, OF assms(2)], rule exec_star [OF t(2)]) (use t(3) True in simp)
    moreover have "(k', Await f) \<in> set (us @ (k, Await f) # vs)" using True by simp
    ultimately show ?thesis using assms(3) t(4) by blast
  next
    case False
    then have "(k', t) \<in> set (us @ (k, Await f) # vs)" using t(1) by auto
    moreover have "R\<^sup>*\<^sup>* w v1" using assms(3,4) t(2) by (meson rtranclp.rtrancl_into_rtrancl rtranclp_trans)
    ultimately show ?thesis using t(3,4) by blast
  qed
qed

lemma exec_join:
  assumes "exec R (join pick ts) w rs w'" "\<And>k t. (k, t) \<in> set ts \<Longrightarrow> keeps R t" "reflp R"
  shows "joined R ts w rs w'"
  using assms
proof (induction ts arbitrary: w rs w' rule: join_wf_induct)
  case (less ts)
  show ?case
  proof (cases "ts = []")
    case True
    then show ?thesis using exec_ReadyE [of R "[]" w rs w'] less(3) by (simp add: joined_def)
  next
    case False
    then obtain g where g: "join pick ts = Await g"
      "\<And>w. (\<exists>us k x vs. ts = us @ (k, Ready x) # vs \<and> g w = (task_bind (join pick (us @ vs)) (\<lambda>rs. Ready ((k, x) # rs)), w)) \<or>
            (\<exists>us k f vs t' w'. ts = us @ (k, Await f) # vs \<and> f w = (t', w') \<and> g w = (join pick (us @ (k, t') # vs), w'))"
      by (rule join_poll [where pick = pick]) blast
    obtain w1 where w1: "R\<^sup>*\<^sup>* w w1" and rest: "exec R (fst (g w1)) (snd (g w1)) rs w'"
      using exec_AwaitE [OF less(3) [unfolded g(1)]] by blast
    show ?thesis
      using g(2) [of w1]
    proof (elim disjE exE conjE)
      fix us k x vs
      assume ts: "ts = us @ (k, Ready x) # vs" and gw: "g w1 = (task_bind (join pick (us @ vs)) (\<lambda>rs. Ready ((k, x) # rs)), w1)"
      from rest gw have "exec R (task_bind (join pick (us @ vs)) (\<lambda>rs. Ready ((k, x) # rs))) w1 rs w'" by simp
      from exec_bindE [OF this] obtain rs' w2 where
        rs': "exec R (join pick (us @ vs)) w1 rs' w2" "exec R (Ready ((k, x) # rs')) w2 rs w'" by blast
      have keep: "keeps R t" if "(k, t) \<in> set (us @ vs)" for k t using that less(4) [of k t] ts by auto
      have IH: "joined R (us @ vs) w1 rs' w2" by (rule less(1) [OF ts rs'(1)], erule keep, rule less(5))
      have "R\<^sup>*\<^sup>* w1 w2" by (rule keeps_exec [OF rs'(1)], rule keeps_join, erule keep, rule less(5))
      from joined_finished [OF IH w1 this exec_ReadyE [OF rs'(2), THEN conjunct2]] show ?thesis
        using exec_ReadyE [OF rs'(2), THEN conjunct1] ts by simp
    next
      fix us k f vs t' v
      assume ts: "ts = us @ (k, Await f) # vs" and f: "f w1 = (t', v)" and gw: "g w1 = (join pick (us @ (k, t') # vs), v)"
      have "keeps R (Await f)" by (rule less(4) [of k]) (simp add: ts)
      with f have kf: "keeps R t'" "R w1 v" by (auto elim!: keeps_AwaitE) (metis fst_conv, metis snd_conv)
      have keep: "keeps R t" if "(k', t) \<in> set (us @ (k, t') # vs)" for k' t using that less(4) [of k' t] ts kf(1) by auto
      from rest gw have "exec R (join pick (us @ (k, t') # vs)) v rs w'" by simp
      note IH = less(2) [of us k f vs w1 t' v, OF ts f this]
      have "joined R (us @ (k, t') # vs) v rs w'" by (rule IH) (blast intro: keep, rule less(5))
      from joined_polled [where f = f and ?w1.0 = w1, OF this f w1 kf(2)] show ?thesis using ts by simp
    qed
  qed
qed

lemmas keeps_rules = keeps_ready keeps_bind keeps_call keeps_try_bind keeps_context

lemma achieves_ready: "stable_under R (Q x) \<Longrightarrow> (\<And>w. P w \<Longrightarrow> Q x w) \<Longrightarrow> achieves R P (Ready x) Q"
  unfolding achieves_def by (metis exec_ReadyE stable_star)

lemma achieves_call:
  assumes "stable_under R P" "\<And>x. stable_under R (Q x)" "\<And>w x w'. P w \<Longrightarrow> f w = (x, w') \<Longrightarrow> Q x w'"
  shows "achieves R P (call f) Q"
  unfolding achieves_def
proof (intro allI impI)
  fix w x w'
  assume "P w" "exec R (call f) w x w'"
  then obtain w1 where w1: "R\<^sup>*\<^sup>* w w1" "exec R (Ready (fst (f w1))) (snd (f w1)) x w'"
    unfolding call_def by (auto dest!: exec_AwaitE)
  note r = exec_ReadyE [OF w1(2)]
  have "P w1" using assms(1) w1(1) \<open>P w\<close> by (rule stable_star)
  then have "Q x (snd (f w1))" using r by (intro assms(3)) auto
  then show "Q x w'" by (rule stable_star [OF assms(2) conjunct2 [OF r]])
qed

lemma achieves_bind: "achieves R P t Q \<Longrightarrow> (\<And>x. achieves R (Q x) (k x) S) \<Longrightarrow> achieves R P (task_bind t k) S"
  unfolding achieves_def by (blast dest!: exec_bindE)

lemma achieves_try:
  assumes "achieves R P t (\<lambda>r w. case r of Inl e \<Rightarrow> E e w | Inr x \<Rightarrow> Q x w)" "\<And>x. achieves R (Q x) (k x) S"
    "\<And>e w. E e w \<Longrightarrow> S (Inl e) w" "\<And>e. stable_under R (S (Inl e))"
  shows "achieves R P (try_bind t k) S"
  unfolding try_bind_def
proof (rule achieves_bind [OF assms(1)])
  fix r :: "_ + _"
  show "achieves R (\<lambda>w. case r of Inl e \<Rightarrow> E e w | Inr x \<Rightarrow> Q x w) (case r of Inl e \<Rightarrow> Ready (Inl e) | Inr x \<Rightarrow> k x) S"
    using assms(2-4) by (cases r) (auto intro: achieves_ready)
qed

lemma achieves_weaken: "achieves R P t Q \<Longrightarrow> (\<And>w. P' w \<Longrightarrow> P w) \<Longrightarrow> (\<And>x w. Q x w \<Longrightarrow> Q' x w) \<Longrightarrow> achieves R P' t Q'"
  unfolding achieves_def by blast

lemma achieves_frame:
  assumes "achieves R P t Q" "keeps R t" "stable_under R F"
  shows "achieves R (\<lambda>w. P w \<and> F w) t (\<lambda>x w. Q x w \<and> F w)"
  unfolding achieves_def
proof (intro allI impI)
  fix w x w'
  assume a: "P w \<and> F w" "exec R t w x w'"
  have "F w'" by (rule stable_star [OF assms(3) keeps_exec [OF a(2) assms(2)]]) (use a in blast)
  then show "Q x w' \<and> F w'" using assms(1) a unfolding achieves_def by blast
qed

lemma achieves_context:
  assumes "achieves R P t (\<lambda>r w. case r of Inl e \<Rightarrow> E w | Inr x \<Rightarrow> Q x w)" "stable_under R E" "\<And>x. stable_under R (Q x)"
  shows "achieves R P (task_context ctx t) (\<lambda>r w. case r of Inl e \<Rightarrow> E w | Inr x \<Rightarrow> Q x w)"
  unfolding task_context_def
  by (rule achieves_bind [OF assms(1)]) (auto intro!: achieves_ready assms(2,3) split: sum.splits)

lemma achieves_join:
  assumes "\<And>k t. (k, t) \<in> set ts \<Longrightarrow> achieves R P t (Q k)" "\<And>k t. (k, t) \<in> set ts \<Longrightarrow> keeps R t"
    "reflp R" "stable_under R P" "\<And>k x. stable_under R (Q k x)"
  shows "achieves R P (join pick ts) (\<lambda>rs w. mset (map fst rs) = mset (map fst ts) \<and> (\<forall>k x. (k, x) \<in> set rs \<longrightarrow> Q k x w))"
  unfolding achieves_def
proof (intro allI impI)
  fix w rs w'
  assume P: "P w" and e: "exec R (join pick ts) w rs w'"
  have j: "joined R ts w rs w'" by (rule exec_join [OF e assms(2,3)])
  have "Q k x w'" if kx: "(k, x) \<in> set rs" for k x
  proof -
    from j kx obtain t w1 w2 where t: "(k, t) \<in> set ts" "R\<^sup>*\<^sup>* w w1" "exec R t w1 x w2" "R\<^sup>*\<^sup>* w2 w'"
      unfolding joined_def by blast
    from assms(1) [OF t(1)] stable_star [OF assms(4) t(2) P] t(3) have "Q k x w2" unfolding achieves_def by blast
    then show ?thesis by (rule stable_star [OF assms(5) t(4)])
  qed
  then show "mset (map fst rs) = mset (map fst ts) \<and> (\<forall>k x. (k, x) \<in> set rs \<longrightarrow> Q k x w')"
    using j unfolding joined_def by blast
qed

section \<open>Tasks among others\<close>

text \<open>
  A client of the rules: \<open>other\<close> are the steps of all tasks, and \<open>ok\<close> is an
  invariant that they keep.
\<close>

locale rely =
  fixes other :: "'w \<Rightarrow> 'w \<Rightarrow> bool" and ok :: "'w \<Rightarrow> bool"
  assumes other_refl: "reflp other" and stable_ok: "stable_under other ok"
begin

text \<open>The result of a fallible task in an \<open>ok\<close> world: an error, or a value with \<open>Q\<close>.\<close>

definition outcome :: "('a \<Rightarrow> 'w \<Rightarrow> bool) \<Rightarrow> 'e + 'a \<Rightarrow> 'w \<Rightarrow> bool" where
  "outcome Q r w \<longleftrightarrow> ok w \<and> (case r of Inl e \<Rightarrow> True | Inr x \<Rightarrow> Q x w)"

lemma outcome_simps [simp]: "outcome Q (Inl e) w = ok w" "outcome Q (Inr x) w = (ok w \<and> Q x w)"
  by (simp_all add: outcome_def)

lemma outcome_fun: "outcome Q (Inl e) = ok" "outcome Q (Inr x) = (\<lambda>w. ok w \<and> Q x w)"
  by (simp_all add: fun_eq_iff)

lemma stable_outcome: "(\<And>x. stable_under other (Q x)) \<Longrightarrow> stable_under other (outcome Q r)"
  unfolding outcome_def by (intro stable_ok stable_rules)

lemma event_call:
  assumes "\<And>w. other w (snd (f w))" "\<And>x. stable_under other (Q x)" "\<And>w x w'. ok w \<Longrightarrow> f w = (Inr x, w') \<Longrightarrow> Q x w'"
  shows "achieves other ok (call f) (outcome Q)"
proof (rule achieves_call)
  fix w x w'
  assume "ok w" "f w = (x, w')"
  moreover from this assms(1) [of w] have "ok w'" using stable_ok by (simp add: stable_under_def)
  ultimately show "outcome Q x w'" using assms(3) by (cases x) auto
qed (intro stable_ok stable_outcome assms(2))+

lemma event_task:
  assumes "keeps other t" "\<And>x. stable_under other (Q x)" "achieves other ok t (\<lambda>r w. \<forall>x. r = Inr x \<longrightarrow> Q x w)"
  shows "achieves other ok t (outcome Q)"
  unfolding achieves_def
proof (intro allI impI)
  fix w r w'
  assume "ok w" "exec other t w r w'"
  moreover from this have "ok w'" using stable_star [OF stable_ok keeps_exec [OF _ assms(1)]] by blast
  ultimately show "outcome Q r w'" using assms(3) by (auto simp: outcome_def achieves_def split: sum.split)
qed

lemma quiet_task:
  assumes "keeps other t"
  shows "achieves other ok t (\<lambda>x. ok)"
  unfolding achieves_def by (intro allI impI, rule stable_star [OF stable_ok], rule keeps_exec [OF _ assms])

lemma quiet_call:
  assumes "\<And>w. other w (snd (f w))"
  shows "achieves other ok (call f) (\<lambda>x. ok)"
proof (rule achieves_call)
  fix w x w'
  assume "ok w" "f w = (x, w')"
  with assms [of w] show "ok w'" using stable_ok by (simp add: stable_under_def)
qed (intro stable_ok)+

lemma outcome_ready: "(\<And>x. stable_under other (Q x)) \<Longrightarrow> (\<And>w. P w \<Longrightarrow> outcome Q r w) \<Longrightarrow> achieves other P (Ready r) (outcome Q)"
  by (rule achieves_ready [OF stable_outcome])

lemma outcome_cases:
  assumes "achieves other P t (outcome Q)"
    and "\<And>e. achieves other ok (k (Inl e)) S" "\<And>x. achieves other (\<lambda>w. ok w \<and> Q x w) (k (Inr x)) S"
  shows "achieves other P (task_bind t k) S"
proof (rule achieves_bind [OF assms(1)])
  fix r
  show "achieves other (outcome Q r) (k r) S"
    using assms(2,3) by (cases r) (simp_all only: outcome_fun)
qed

lemma outcome_try:
  assumes "achieves other P t (outcome Q)" "\<And>x. stable_under other (S x)"
    and "\<And>x. achieves other (\<lambda>w. ok w \<and> Q x w) (k x) (outcome S)"
  shows "achieves other P (try_bind t k) (outcome S)"
  unfolding try_bind_def
  by (rule outcome_cases [OF assms(1)]) (auto intro!: outcome_ready assms(2,3))

lemma outcome_context:
  assumes "achieves other P t (outcome Q)" "\<And>x. stable_under other (Q x)"
  shows "achieves other P (task_context ctx t) (outcome Q)"
  unfolding task_context_def
  by (rule outcome_cases [OF assms(1)]) (auto intro!: outcome_ready assms(2))

lemma outcome_true: "achieves other ok t (\<lambda>x. ok) \<Longrightarrow> achieves other ok t (outcome (\<lambda>x w. True))"
  unfolding achieves_def outcome_def by (auto split: sum.splits)

lemma ok_frame:
  assumes "achieves other ok t Q" "keeps other t" "stable_under other F"
  shows "achieves other (\<lambda>w. ok w \<and> F w) t (\<lambda>x w. Q x w \<and> F w)"
  by (rule achieves_frame [OF assms])

lemma outcome_frame:
  assumes "achieves other ok t (outcome Q)" "keeps other t" "stable_under other F"
  shows "achieves other (\<lambda>w. ok w \<and> F w) t (outcome (\<lambda>x w. Q x w \<and> F w))"
  by (rule achieves_weaken [OF ok_frame [OF assms]]) (auto simp: outcome_def split: sum.splits)

end

end
