(* ===== verification/TwoPhaseCoordinator.thy ===== *)
theory TwoPhaseCoordinator
  imports Routing DecisionLog Tasks
begin

text \<open>
  The coordinator of two-phase commit, from
  \<open>crates/database/src/two_phase_coordinator.rs\<close>: how a transaction is prepared
  on its participants at one timestamp, how a failed attempt is rolled back and
  tried again, and how the commit is decided and carried out.

  \<open>coord_env\<close> holds the calls that leave the coordinator: to the local committer,
  to the clients of the other partitions, to the timestamp oracle and to the
  decision log.  The functions are tasks over a world \<open>'w\<close>, which other tasks
  change between two calls.  \<open>co_pick\<close> is the order in which a
  \<open>FuturesUnordered\<close> polls its futures, \<open>co_spawn\<close> hands a task to the runtime,
  which runs it at any time or never.  Log lines and metrics are left out, except
  the number of attempts; messages are kept without the values printed in them.
\<close>

section \<open>Calls\<close>

record ('w, 'd, 's) coord_env =
  co_log :: "'w decision_log"
  co_catalog :: "'d catalog_ops"
  co_encode :: "('d, 's) participant_transaction \<Rightarrow> anyhow_error + string"
  co_sha :: "u8 list \<Rightarrow> string"
  co_now :: "'w \<Rightarrow> u64"
  co_pick :: "'w \<Rightarrow> nat"
  co_spawn :: "('w, unit) task \<Rightarrow> 'w \<Rightarrow> 'w"
  co_fresh :: "'w \<Rightarrow> string \<times> 'w"
  co_allocate :: "timestamp \<Rightarrow> ('w, anyhow_error + timestamp) task"
  co_prepare :: "string \<Rightarrow> ('d, 's) participant_transaction \<Rightarrow> write_source \<Rightarrow> timestamp \<Rightarrow> partition_id list \<Rightarrow>
    ('w, anyhow_error + timestamp) task"
  co_validate :: "string \<Rightarrow> ('d, 's) participant_transaction \<Rightarrow> write_source \<Rightarrow> timestamp \<Rightarrow> ('w, anyhow_error + unit) task"
  co_commit :: "string \<Rightarrow> ('w, anyhow_error + timestamp) task"
  co_rollback :: "string \<Rightarrow> ('w, anyhow_error + unit) task"
  co_connect :: "string \<Rightarrow> ('w, anyhow_error + unit) task"
  co_remote_prepare :: "string \<Rightarrow> string \<Rightarrow> ('d, 's) participant_transaction \<Rightarrow> write_source \<Rightarrow> timestamp \<Rightarrow> placement_version \<Rightarrow>
    partition_id list \<Rightarrow> ('w, anyhow_error + timestamp) task"
  co_remote_validate :: "string \<Rightarrow> string \<Rightarrow> ('d, 's) participant_transaction \<Rightarrow> write_source \<Rightarrow> timestamp \<Rightarrow> placement_version \<Rightarrow>
    ('w, anyhow_error + unit) task"
  co_remote_commit :: "string \<Rightarrow> string \<Rightarrow> ('w, anyhow_error + u64) task"
  co_remote_rollback :: "string \<Rightarrow> string \<Rightarrow> ('w, anyhow_error + unit) task"

section \<open>Kinds of errors\<close>

definition to_ascii_lowercase :: "string \<Rightarrow> string" where
  "to_ascii_lowercase s = map (\<lambda>c. let n = (of_char c :: nat) in if 65 \<le> n \<and> n \<le> 90 then char_of (n + 32) else c) s"

fun str_contains :: "string \<Rightarrow> string \<Rightarrow> bool" where
  "str_contains [] sub = (sub = [])"
| "str_contains (c # s) sub = (take (length sub) (c # s) = sub \<or> str_contains s sub)"

definition should_try_next_participant_address :: "anyhow_error \<Rightarrow> bool" where
  "should_try_next_participant_address err =
     (\<not> err_is_occ err \<and>
      (let msg = to_ascii_lowercase (err_format err) in
       list_ex (str_contains msg)
         [''transport error'', ''connection error'', ''connection refused'', ''broken pipe'', ''deadline has elapsed'',
          ''timed out'', ''unavailable'', ''no elected raft leader'', ''missing raft_peers entry for raft leader'',
          ''failed to connect to raft leader'', ''leader prepare failed'', ''leader commitprepared failed'',
          ''leader rollbackprepared failed'']))"

definition required_prepare_ts :: "anyhow_error \<Rightarrow> timestamp option" where
  "required_prepare_ts err = map_option snd (prepare_timestamp_too_low err)"

definition is_retryable_prepare_ts_error :: "anyhow_error \<Rightarrow> bool" where
  "is_retryable_prepare_ts_error err = (required_prepare_ts err \<noteq> None)"

definition is_ambiguous_prepare_error :: "anyhow_error \<Rightarrow> bool" where
  "is_ambiguous_prepare_error err = should_try_next_participant_address err"

definition is_unknown_rollback_error :: "anyhow_error \<Rightarrow> bool" where
  "is_unknown_rollback_error err = str_contains (err_format err) ''unknown transaction''"

section \<open>Participants\<close>

definition verify_prepare_result :: "timestamp \<Rightarrow> timestamp \<Rightarrow> anyhow_error + unit" where
  "verify_prepare_result prepare_ts result_ts =
     (if result_ts = prepare_ts then Inr () else Inl (anyhow ''Participant prepared at another ts than the coordinator assigned''))"

fun try_participant_addresses ::
  "(string \<Rightarrow> ('w, anyhow_error + 'a) task) \<Rightarrow> anyhow_error option \<Rightarrow> string list \<Rightarrow> ('w, anyhow_error + 'a) task" where
  "try_participant_addresses call_addr last_err [] =
     Ready (Inl (case last_err of Some e \<Rightarrow> e | None \<Rightarrow> anyhow ''2PC: No usable NODE_ADDRESSES entry for participant''))"
| "try_participant_addresses call_addr last_err (addr # addrs) =
     task_bind (call_addr addr) (\<lambda>r. case r of
         Inr x \<Rightarrow> Ready (Inr x)
       | Inl e \<Rightarrow>
           if should_try_next_participant_address e then try_participant_addresses call_addr (Some e) addrs
           else Ready (Inl e))"

text \<open>The addresses of a remote participant.\<close>

definition participant_addresses :: "node_addresses option \<Rightarrow> partition_id \<Rightarrow> anyhow_error + string list" where
  "participant_addresses addresses p =
     (case addresses of
        None \<Rightarrow> Inl (anyhow ''NODE_ADDRESSES is required to reach the authoritative owner'')
      | Some book \<Rightarrow>
          (case addresses_for book p of
             None \<Rightarrow> Inl (anyhow ''Missing NODE_ADDRESSES entry'')
           | Some [] \<Rightarrow> Inl (anyhow ''Missing NODE_ADDRESSES entry'')
           | Some addrs \<Rightarrow> Inr addrs))"

text \<open>
  A remote prepare.  An address that cannot be reached leads to the next one; a
  prepare at the wrong timestamp is an error at once.
\<close>

fun prepare_addresses ::
  "('w, 'd, 's) coord_env \<Rightarrow> partition_map \<Rightarrow> string \<Rightarrow> partition_id list \<Rightarrow> ('d, 's) participant_transaction \<Rightarrow> write_source \<Rightarrow>
   timestamp \<Rightarrow> anyhow_error option \<Rightarrow> string list \<Rightarrow> ('w, anyhow_error + bool) task" where
  "prepare_addresses env pm txn stateful tx source prepare_ts last_err [] =
     Ready (Inl (case last_err of Some e \<Rightarrow> e | None \<Rightarrow> anyhow ''2PC: No usable NODE_ADDRESSES entry for participant''))"
| "prepare_addresses env pm txn stateful tx source prepare_ts last_err (addr # addrs) =
     (let failed = (\<lambda>e. if should_try_next_participant_address e
                        then prepare_addresses env pm txn stateful tx source prepare_ts (Some e) addrs else Ready (Inl e)) in
      task_bind (co_connect env addr) (\<lambda>connected. case connected of
          Inl e \<Rightarrow> failed e
        | Inr _ \<Rightarrow>
            if pt_writes tx \<noteq> []
            then task_bind (co_remote_prepare env addr txn tx source prepare_ts (pmap_version pm) stateful) (\<lambda>r. case r of
                     Inl e \<Rightarrow> failed e
                   | Inr result_ts \<Rightarrow> Ready (and_then (verify_prepare_result prepare_ts result_ts) (\<lambda>_. Inr True)))
            else task_bind (co_remote_validate env addr txn tx source prepare_ts (pmap_version pm)) (\<lambda>r. case r of
                     Inl e \<Rightarrow> failed e
                   | Inr _ \<Rightarrow> Ready (Inr False))))"

text \<open>The result tells whether the participant has staged writes.\<close>

definition prepare_participant ::
  "('w, 'd, 's) coord_env \<Rightarrow> node_addresses option \<Rightarrow> partition_map \<Rightarrow> string \<Rightarrow> partition_id list \<Rightarrow> partition_id \<Rightarrow>
   ('d, 's) participant_transaction \<Rightarrow> write_source \<Rightarrow> timestamp \<Rightarrow> ('w, anyhow_error + bool) task" where
  "prepare_participant env addresses pm txn stateful p tx source prepare_ts =
     (if p = pmap_local pm
      then
        (if pt_writes tx \<noteq> []
         then try_bind (co_prepare env txn tx source prepare_ts stateful) (\<lambda>result_ts.
                Ready (and_then (verify_prepare_result prepare_ts result_ts) (\<lambda>_. Inr True)))
         else try_bind (co_validate env txn tx source prepare_ts) (\<lambda>_. Ready (Inr False)))
      else
        (case participant_addresses addresses p of
           Inl e \<Rightarrow> Ready (Inl e)
         | Inr addrs \<Rightarrow> prepare_addresses env pm txn stateful tx source prepare_ts None addrs))"

text \<open>The participants that staged writes, and the failures, in the order of completion.\<close>

definition prepare_outcome ::
  "(partition_id \<times> (anyhow_error + bool)) list \<Rightarrow> partition_id list \<times> (partition_id \<times> anyhow_error) list" where
  "prepare_outcome results =
     (map fst (filter (\<lambda>(_, r). r = Inr True) results),
      List.map_filter (\<lambda>(p, r). case r of Inl e \<Rightarrow> Some (p, e) | Inr _ \<Rightarrow> None) results)"

definition prepare_participants ::
  "('w, 'd, 's) coord_env \<Rightarrow> node_addresses option \<Rightarrow> partition_map \<Rightarrow> string \<Rightarrow> partition_id list \<Rightarrow>
   (partition_id \<times> ('d, 's) participant_transaction) list \<Rightarrow> write_source \<Rightarrow> timestamp \<Rightarrow>
   ('w, partition_id list \<times> (partition_id \<times> anyhow_error) list) task" where
  "prepare_participants env addresses pm txn stateful ps source prepare_ts =
     task_bind (join (co_pick env)
       (map (\<lambda>(p, tx). (p, prepare_participant env addresses pm txn stateful p tx source prepare_ts)) ps))
       (\<lambda>results. Ready (prepare_outcome results))"

definition rollback_participant ::
  "('w, 'd, 's) coord_env \<Rightarrow> node_addresses option \<Rightarrow> partition_map \<Rightarrow> string \<Rightarrow> partition_id \<Rightarrow> ('w, anyhow_error + unit) task" where
  "rollback_participant env addresses pm txn p =
     (if p = pmap_local pm then co_rollback env txn
      else
        (case participant_addresses addresses p of
           Inl e \<Rightarrow> Ready (Inl e)
         | Inr addrs \<Rightarrow>
             try_participant_addresses
               (\<lambda>addr. try_bind (co_connect env addr) (\<lambda>_. co_remote_rollback env addr txn)) None addrs))"

definition coordinator_mark_resolved ::
  "('w, 'd, 's) coord_env \<Rightarrow> string \<Rightarrow> partition_id \<Rightarrow> ('w, anyhow_error + unit) task" where
  "coordinator_mark_resolved env txn p = try_bind (call (dl_mark_resolved (co_log env) txn p)) (\<lambda>_. Ready (Inr ()))"

fun rollback_each ::
  "('w, 'd, 's) coord_env \<Rightarrow> node_addresses option \<Rightarrow> partition_map \<Rightarrow> string \<Rightarrow> partition_id list \<Rightarrow> ('w, unit) task" where
  "rollback_each env addresses pm txn [] = Ready ()"
| "rollback_each env addresses pm txn (p # ps) =
     task_bind (rollback_participant env addresses pm txn p) (\<lambda>r.
     task_bind (case r of
                  Inr _ \<Rightarrow> coordinator_mark_resolved env txn p
                | Inl e \<Rightarrow>
                    if is_unknown_rollback_error e then coordinator_mark_resolved env txn p else Ready (Inl e)) (\<lambda>_.
     rollback_each env addresses pm txn ps))"

definition rollback_prepared_participants ::
  "('w, 'd, 's) coord_env \<Rightarrow> node_addresses option \<Rightarrow> partition_map \<Rightarrow> string \<Rightarrow> partition_id list \<Rightarrow> ('w, unit) task" where
  "rollback_prepared_participants env addresses pm txn ps = rollback_each env addresses pm txn (rev ps)"

definition commit_participant ::
  "('w, 'd, 's) coord_env \<Rightarrow> node_addresses option \<Rightarrow> partition_map \<Rightarrow> string \<Rightarrow> partition_id \<Rightarrow>
   ('w, anyhow_error + timestamp) task" where
  "commit_participant env addresses pm txn p =
     (if p = pmap_local pm then co_commit env txn
      else
        (case participant_addresses addresses p of
           Inl e \<Rightarrow> Ready (Inl e)
         | Inr addrs \<Rightarrow>
             try_participant_addresses
               (\<lambda>addr. try_bind (co_connect env addr) (\<lambda>_.
                       try_bind (co_remote_commit env addr txn) (\<lambda>ts. Ready (lift_ts (ts_from_u64 ts)))))
               None addrs))"

definition commit_and_resolve ::
  "('w, 'd, 's) coord_env \<Rightarrow> node_addresses option \<Rightarrow> partition_map \<Rightarrow> string \<Rightarrow> partition_id \<Rightarrow>
   ('w, anyhow_error + timestamp) task" where
  "commit_and_resolve env addresses pm txn p =
     try_bind (commit_participant env addresses pm txn p) (\<lambda>ts.
     try_bind (task_context ''2PC Coordinator: participant committed but resolution acknowledgement failed''
                 (coordinator_mark_resolved env txn p)) (\<lambda>_.
     Ready (Inr ts)))"

fun commit_results ::
  "(partition_id \<times> timestamp) list \<Rightarrow> anyhow_error option \<Rightarrow> (partition_id \<times> (anyhow_error + timestamp)) list \<Rightarrow>
   anyhow_error + (partition_id \<times> timestamp) list" where
  "commit_results results first_err [] = (case first_err of Some e \<Rightarrow> Inl e | None \<Rightarrow> Inr results)"
| "commit_results results first_err ((p, Inr ts) # rest) = commit_results (results @ [(p, ts)]) first_err rest"
| "commit_results results first_err ((p, Inl e) # rest) =
     commit_results results (if first_err = None then Some e else first_err) rest"

definition commit_participants ::
  "('w, 'd, 's) coord_env \<Rightarrow> node_addresses option \<Rightarrow> partition_map \<Rightarrow> string \<Rightarrow> partition_id list \<Rightarrow>
   ('w, anyhow_error + (partition_id \<times> timestamp) list) task" where
  "commit_participants env addresses pm txn ps =
     task_bind (join (co_pick env) (map (\<lambda>p. (p, commit_and_resolve env addresses pm txn p)) ps))
       (\<lambda>results. Ready (commit_results [] None results))"

section \<open>Decisions\<close>

definition write_decision_record ::
  "('w, 'd, 's) coord_env \<Rightarrow> string \<Rightarrow> two_phase_decision \<Rightarrow> ('w, anyhow_error + unit) task" where
  "write_decision_record env txn d =
     try_bind (call (dl_write_if_absent (co_log env) txn d)) (\<lambda>written.
       if written then Ready (Inr ())
       else
         try_bind (call (dl_get (co_log env) txn)) (\<lambda>found.
           case found of
             None \<Rightarrow> Ready (Inl (anyhow ''2PC Coordinator: decision already existed but could not be read''))
           | Some existing \<Rightarrow>
               if existing = d then Ready (Inr ())
               else Ready (Inl (anyhow ''2PC Coordinator: durable decision is already another one, cannot overwrite''))))"

fun intents_of ::
  "('w, 'd, 's) coord_env \<Rightarrow> u64 \<Rightarrow> string \<Rightarrow> timestamp \<Rightarrow> partition_id list \<Rightarrow> (partition_id \<times> ('d, 's) participant_transaction) list \<Rightarrow>
   write_source \<Rightarrow> anyhow_error + participant_intent list" where
  "intents_of env now txn prepare_ts all_ps [] source = Inr []"
| "intents_of env now txn prepare_ts all_ps ((p, tx) # ps) source =
     and_then (redo_new_with_participants (co_encode env) now txn prepare_ts p all_ps tx source) (\<lambda>redo.
     and_then (intents_of env now txn prepare_ts all_ps ps source) (\<lambda>rest.
     Inr (from_redo_entry (co_sha env) redo # rest)))"

definition participant_intents_for_staging ::
  "('w, 'd, 's) coord_env \<Rightarrow> u64 \<Rightarrow> string \<Rightarrow> timestamp \<Rightarrow> partition_id list \<Rightarrow> (partition_id \<times> ('d, 's) participant_transaction) list \<Rightarrow>
   write_source \<Rightarrow> anyhow_error + participant_intent list" where
  "participant_intents_for_staging env now txn prepare_ts all_ps ps source =
     and_then (intents_of env now txn prepare_ts all_ps ps source) (\<lambda>intents. Inr (sort_key pi_partition_id intents))"

definition write_complete_staging_decision ::
  "('w, 'd, 's) coord_env \<Rightarrow> string \<Rightarrow> timestamp \<Rightarrow> partition_id list \<Rightarrow> (partition_id \<times> ('d, 's) participant_transaction) list \<Rightarrow>
   write_source \<Rightarrow> ('w, anyhow_error + two_phase_decision) task" where
  "write_complete_staging_decision env txn prepare_ts all_ps ps source =
     task_bind (call (\<lambda>w. (co_now env w, w))) (\<lambda>now.
     case participant_intents_for_staging env now txn prepare_ts all_ps ps source of
       Inl e \<Rightarrow> Ready (Inl e)
     | Inr intents \<Rightarrow>
         let d = staging (co_sha env) now prepare_ts all_ps intents in
         if \<not> all_participants_staged d then Ready (Inl (anyhow ''2PC Coordinator: constructed incomplete staging decision''))
         else try_bind (task_context ''2PC Coordinator: failed to write staging decision'' (write_decision_record env txn d))
                (\<lambda>_. Ready (Inr d)))"

definition recover_complete_staging_decision ::
  "('w, 'd, 's) coord_env \<Rightarrow> string \<Rightarrow> ('w, anyhow_error + two_phase_decision) task" where
  "recover_complete_staging_decision env txn =
     try_bind (task_context ''2PC Coordinator: failed to recover complete staging decision''
                 (call (dl_recover_staging (co_log env) txn)))
       (\<lambda>recovered. Ready (case recovered of
            RecCommitted d \<Rightarrow> Inr d
          | RecAlreadyFinal d \<Rightarrow>
              (case d of
                 Committed _ _ _ _ \<Rightarrow> Inr d
               | _ \<Rightarrow> Inl (anyhow ''2PC Coordinator: staging decision recovered to non-committed final state''))
          | RecPending _ \<Rightarrow> Inl (anyhow ''2PC Coordinator: staging decision is still pending'')
          | RecMissing \<Rightarrow> Inl (anyhow ''2PC Coordinator: staging decision disappeared before recovery'')))"

definition verify_committed_decision :: "two_phase_decision \<Rightarrow> timestamp \<Rightarrow> partition_id list \<Rightarrow> anyhow_error + unit" where
  "verify_committed_decision d expected_ts expected_ps =
     (case d of
        Committed ts ps _ _ \<Rightarrow>
          if ts \<noteq> expected_ts then Inl (anyhow ''2PC Coordinator: recovered commit decision at another ts'')
          else if sort_dedup ps \<noteq> sort_dedup expected_ps
          then Inl (anyhow ''2PC Coordinator: recovered commit decision has other participants'')
          else Inr ()
      | _ \<Rightarrow> Inl (anyhow ''2PC Coordinator: expected committed decision''))"

section \<open>The protocol\<close>

datatype two_phase_commit_mode = DurableDecision | ParallelEarlyAck

record commit_outcome =
  oc_ts :: timestamp
  oc_source_partition :: "partition_id option"
  oc_read_after_write_partitions :: "partition_id list"
  oc_invalidated_tables :: "table_name list"

definition max_prepare_ts_retries :: nat where
  "max_prepare_ts_retries = 8"

definition two_phase_commit_mode_from_knob :: "bool \<Rightarrow> two_phase_commit_mode" where
  "two_phase_commit_mode_from_knob early_ack = (if early_ack then ParallelEarlyAck else DurableDecision)"

text \<open>
  After a failed prepare: the failure that is reported, the participants that are
  rolled back, and the timestamp to try next.
\<close>

definition selected_failure :: "(partition_id \<times> anyhow_error) list \<Rightarrow> anyhow_error" where
  "selected_failure failures =
     (case find (\<lambda>(_, e). \<not> is_retryable_prepare_ts_error e) failures of
        Some (_, e) \<Rightarrow> e | None \<Rightarrow> snd (failures ! 0))"

definition participants_to_rollback ::
  "(partition_id \<times> anyhow_error) list \<Rightarrow> partition_id list \<Rightarrow> partition_id list \<Rightarrow> partition_id list" where
  "participants_to_rollback failures stateful prepared =
     (if list_ex (\<lambda>(_, e). is_ambiguous_prepare_error e) failures then stateful else prepared)"

definition required_retry_floor :: "(partition_id \<times> anyhow_error) list \<Rightarrow> timestamp option" where
  "required_retry_floor failures =
     (case List.map_filter (\<lambda>(_, e). required_prepare_ts e) failures of [] \<Rightarrow> None | t # ts \<Rightarrow> Some (fold max ts t))"

text \<open>Record the rollback and carry it out; the result tells whether the attempt is repeated.\<close>

definition fail_attempt ::
  "('w, 'd, 's) coord_env \<Rightarrow> node_addresses option \<Rightarrow> partition_map \<Rightarrow> string \<Rightarrow> partition_id list \<Rightarrow> nat \<Rightarrow>
   partition_id list \<Rightarrow> (partition_id \<times> anyhow_error) list \<Rightarrow> ('w, anyhow_error + unit) task" where
  "fail_attempt env addresses pm txn stateful attempt prepared failures =
     (let selected = selected_failure failures;
          rollback = participants_to_rollback failures stateful prepared in
      try_bind
        (if rollback \<noteq> []
         then task_context ''2PC Coordinator: failed to write rollback decision''
                (write_decision_record env txn (rolled_back (err_to_string selected) rollback))
         else Ready (Inr ()))
        (\<lambda>_. task_bind (rollback_prepared_participants env addresses pm txn rollback) (\<lambda>_.
          Ready (if is_retryable_prepare_ts_error selected \<and> attempt + 1 < max_prepare_ts_retries \<and>
                    list_all (\<lambda>(_, e). is_retryable_prepare_ts_error e) failures
                 then Inr () else Inl selected))))"

definition spawn_parallel_commit_cleanup ::
  "('w, 'd, 's) coord_env \<Rightarrow> node_addresses option \<Rightarrow> partition_map \<Rightarrow> string \<Rightarrow> partition_id list \<Rightarrow> ('w, unit) task" where
  "spawn_parallel_commit_cleanup env addresses pm txn prepared =
     call (\<lambda>w. ((), co_spawn env (task_bind (commit_participants env addresses pm txn prepared) (\<lambda>_. Ready ())) w))"

definition commit_attempt ::
  "('w, 'd, 's) coord_env \<Rightarrow> node_addresses option \<Rightarrow> partition_map \<Rightarrow> two_phase_commit_mode \<Rightarrow> string \<Rightarrow> timestamp \<Rightarrow>
   (partition_id \<times> ('d, 's) participant_transaction) list \<Rightarrow> write_source \<Rightarrow> partition_id list \<Rightarrow>
   ('w, anyhow_error + unit) task" where
  "commit_attempt env addresses pm mode txn prepare_ts ps source prepared =
     (case mode of
        DurableDecision \<Rightarrow>
          try_bind (task_context ''2PC Coordinator: failed to write commit decision''
                      (write_decision_record env txn (committed prepare_ts prepared))) (\<lambda>_.
          try_bind (commit_participants env addresses pm txn prepared) (\<lambda>results.
          Ready (if list_ex (\<lambda>(_, ts). ts \<noteq> prepare_ts) results
                 then Inl (anyhow ''Participant committed at another ts than the coordinator assigned'') else Inr ())))
      | ParallelEarlyAck \<Rightarrow>
          let stateful = filter (\<lambda>(_, tx). pt_writes tx \<noteq> []) ps in
          try_bind (write_complete_staging_decision env txn prepare_ts (map fst stateful) stateful source) (\<lambda>_.
          try_bind (recover_complete_staging_decision env txn) (\<lambda>recovered.
          case verify_committed_decision recovered prepare_ts prepared of
            Inl e \<Rightarrow> Ready (Inl e)
          | Inr _ \<Rightarrow>
              task_bind (spawn_parallel_commit_cleanup env addresses pm txn prepared) (\<lambda>_. Ready (Inr ())))))"

text \<open>
  The loop over the attempts; \<open>left\<close> counts those that remain.  The result comes
  with the number of attempts that were made; \<open>None\<close> is the panic of the
  \<open>expect\<close> on the floor for the next attempt.
\<close>

fun attempt_loop ::
  "('w, 'd, 's) coord_env \<Rightarrow> node_addresses option \<Rightarrow> partition_map \<Rightarrow> two_phase_commit_mode \<Rightarrow>
   (partition_id \<times> ('d, 's) participant_transaction) list \<Rightarrow> write_source \<Rightarrow> nat \<Rightarrow> anyhow_error option \<Rightarrow> timestamp \<Rightarrow>
   ('w, (anyhow_error + timestamp \<times> partition_id list) option \<times> nat) task" where
  "attempt_loop env addresses pm mode ps source 0 last_err min_ts =
     Ready (Some (Inl (case last_err of Some e \<Rightarrow> e | None \<Rightarrow> anyhow ''2PC coordinator exhausted prepare timestamp retries'')),
            max_prepare_ts_retries)"
| "attempt_loop env addresses pm mode ps source (Suc left) last_err min_ts =
     (let attempt = max_prepare_ts_retries - Suc left;
          stateful = map fst (filter (\<lambda>(_, tx). pt_writes tx \<noteq> []) ps) in
      task_bind (call (co_fresh env)) (\<lambda>txn.
      task_bind (co_allocate env min_ts) (\<lambda>allocated. case allocated of
        Inl e \<Rightarrow> Ready (Some (Inl e), attempt + 1)
      | Inr prepare_ts \<Rightarrow>
          task_bind (prepare_participants env addresses pm txn stateful ps source prepare_ts) (\<lambda>(prepared, failures).
          if failures \<noteq> []
          then
            task_bind (fail_attempt env addresses pm txn stateful attempt prepared failures) (\<lambda>r. case r of
                Inl e \<Rightarrow> Ready (Some (Inl e), attempt + 1)
              | Inr _ \<Rightarrow>
                  (case required_retry_floor failures of
                     None \<Rightarrow> Ready (None, attempt + 1)
                   | Some floor \<Rightarrow>
                       attempt_loop env addresses pm mode ps source left (Some (selected_failure failures)) floor))
          else
            task_bind (commit_attempt env addresses pm mode txn prepare_ts ps source prepared) (\<lambda>r.
              Ready (Some (and_then r (\<lambda>_. Inr (prepare_ts, prepared))), attempt + 1))))))"

fun participant_transactions ::
  "'d catalog_ops \<Rightarrow> ('d, 's) final_transaction \<Rightarrow> partition_map \<Rightarrow> write_source \<Rightarrow> (partition_id \<times> nat list) list \<Rightarrow>
   anyhow_error + (partition_id \<times> ('d, 's) participant_transaction) list" where
  "participant_transactions cat tx pm source [] = Inr []"
| "participant_transactions cat tx pm source ((p, indexes) # rest) =
     and_then (from_final_transaction cat tx p indexes pm source) (\<lambda>pt.
     and_then (participant_transactions cat tx pm source rest) (\<lambda>pts. Inr ((p, pt) # pts)))"

text \<open>What is computed before the first attempt: the invalidated tables, the source partition, and the participants.\<close>

definition plan_two_phase_commit ::
  "'d catalog_ops \<Rightarrow> ('d, 's) final_transaction \<Rightarrow> write_source \<Rightarrow> partition_map \<Rightarrow>
   anyhow_error + table_name list \<times> partition_id option \<times> (partition_id \<times> ('d, 's) participant_transaction) list" where
  "plan_two_phase_commit cat tx source pm =
     and_then (invalidated_table_names cat tx) (\<lambda>tables.
     and_then (classify_transaction cat tx pm source) (\<lambda>classification.
     and_then (case classification of
                 SinglePartition \<Rightarrow> Inl (anyhow ''2PC coordinator called for a local single-partition transaction'')
               | RemoteSinglePartition owner \<Rightarrow> Inr (Some owner)
               | CrossPartition _ \<Rightarrow> Inr None) (\<lambda>source_partition.
     and_then (participant_prepare_indexes cat tx pm source) (\<lambda>indexes.
     and_then (participant_transactions cat tx pm source indexes) (\<lambda>ps.
     Inr (tables, source_partition, ps))))))"

definition coordinate_two_phase_commit_with_mode ::
  "('w, 'd, 's) coord_env \<Rightarrow> node_addresses option \<Rightarrow> ('d, 's) final_transaction \<Rightarrow> write_source \<Rightarrow> partition_map \<Rightarrow>
   two_phase_commit_mode \<Rightarrow> ('w, (anyhow_error + commit_outcome) option \<times> nat) task" where
  "coordinate_two_phase_commit_with_mode env addresses tx source pm mode =
     (case plan_two_phase_commit (co_catalog env) tx source pm of
        Inl e \<Rightarrow> Ready (Some (Inl e), 0)
      | Inr (tables, source_partition, ps) \<Rightarrow>
          task_bind (attempt_loop env addresses pm mode ps source max_prepare_ts_retries None ts_min) (\<lambda>(result, attempts).
            Ready (map_option (\<lambda>r. and_then r (\<lambda>(ts, prepared).
                     Inr \<lparr>oc_ts = ts, oc_source_partition = source_partition, oc_read_after_write_partitions = prepared,
                          oc_invalidated_tables = tables\<rparr>)) result, attempts)))"

definition coordinate_two_phase_commit ::
  "bool \<Rightarrow> ('w, 'd, 's) coord_env \<Rightarrow> node_addresses option \<Rightarrow> ('d, 's) final_transaction \<Rightarrow> write_source \<Rightarrow> partition_map \<Rightarrow>
   ('w, (anyhow_error + commit_outcome) option \<times> nat) task" where
  "coordinate_two_phase_commit early_ack env addresses tx source pm =
     coordinate_two_phase_commit_with_mode env addresses tx source pm (two_phase_commit_mode_from_knob early_ack)"

section \<open>The contract of the participants\<close>

text \<open>
  What the coordinator relies on.  \<open>other\<close> are the steps of all other tasks, and
  every call is one.  \<open>voted\<close>, \<open>reads_valid\<close>, \<open>published\<close> and \<open>decided\<close> tell what
  has happened so far: that a participant had the transaction staged at a
  timestamp, that its reads were valid there, that its writes were published, and
  that the decision log held a decision.
\<close>

locale coordination = rely other ok
  for other :: "'w \<Rightarrow> 'w \<Rightarrow> bool" and ok :: "'w \<Rightarrow> bool" +
  fixes env :: "('w, 'd, 's) coord_env"
    and here :: partition_id
    and serves :: "string \<Rightarrow> partition_id \<Rightarrow> bool"
    and voted :: "string \<Rightarrow> partition_id \<Rightarrow> timestamp \<Rightarrow> ('d, 's) participant_transaction \<Rightarrow> 'w \<Rightarrow> bool"
    and reads_valid :: "string \<Rightarrow> partition_id \<Rightarrow> timestamp \<Rightarrow> ('d, 's) participant_transaction \<Rightarrow> 'w \<Rightarrow> bool"
    and published :: "string \<Rightarrow> partition_id \<Rightarrow> timestamp \<Rightarrow> 'w \<Rightarrow> bool"
    and decided :: "string \<Rightarrow> two_phase_decision \<Rightarrow> 'w \<Rightarrow> bool"
  assumes stable_voted: "stable_under other (voted txn p ts tx)"
    and stable_reads_valid: "stable_under other (reads_valid txn p ts tx)"
    and stable_published: "stable_under other (published txn p ts)"
    and stable_decided: "stable_under other (decided txn d)"
    and step_local:
      "keeps other (co_allocate env ts)" "keeps other (co_prepare env txn tx source ts ps)" "keeps other (co_validate env txn tx source ts)"
      "keeps other (co_commit env txn)" "keeps other (co_rollback env txn)"
    and step_remote:
      "keeps other (co_connect env addr)" "keeps other (co_remote_prepare env addr txn tx source ts v ps)"
      "keeps other (co_remote_validate env addr txn tx source ts v)"
      "keeps other (co_remote_commit env addr txn)" "keeps other (co_remote_rollback env addr txn)"
    and step_log:
      "other w (snd (co_fresh env w))" "other w (snd (dl_write_if_absent (co_log env) txn d w))"
      "other w (snd (dl_get (co_log env) txn w))"
      "other w (snd (dl_mark_resolved (co_log env) txn p w))" "other w (snd (dl_recover_staging (co_log env) txn w))"
    and step_spawn: "keeps other t \<Longrightarrow> other w (co_spawn env t w)"
    and prepare_law: "achieves other ok (co_prepare env txn tx source ts ps) (\<lambda>r w. \<forall>ts'. r = Inr ts' \<longrightarrow> voted txn here ts' tx w)"
    and validate_law: "achieves other ok (co_validate env txn tx source ts) (\<lambda>r w. \<forall>u. r = Inr u \<longrightarrow> reads_valid txn here ts tx w)"
    and commit_law: "achieves other ok (co_commit env txn) (\<lambda>r w. \<forall>ts. r = Inr ts \<longrightarrow> published txn here ts w)"
    and remote_prepare_law: "serves addr p \<Longrightarrow>
      achieves other ok (co_remote_prepare env addr txn tx source ts v ps) (\<lambda>r w. \<forall>ts'. r = Inr ts' \<longrightarrow> voted txn p ts' tx w)"
    and remote_validate_law: "serves addr p \<Longrightarrow>
      achieves other ok (co_remote_validate env addr txn tx source ts v) (\<lambda>r w. \<forall>u. r = Inr u \<longrightarrow> reads_valid txn p ts tx w)"
    and remote_commit_law: "serves addr p \<Longrightarrow>
      achieves other ok (co_remote_commit env addr txn) (\<lambda>r w. \<forall>ts. r = Inr ts \<longrightarrow> published txn p ts w)"
    and write_law: "ok w \<Longrightarrow> dl_write_if_absent (co_log env) txn d w = (Inr True, w') \<Longrightarrow> decided txn d w'"
    and get_law: "ok w \<Longrightarrow> dl_get (co_log env) txn w = (Inr (Some d), w') \<Longrightarrow> decided txn d w'"
    and recover_law: "ok w \<Longrightarrow> dl_recover_staging (co_log env) txn w = (Inr (RecCommitted d), w') \<Longrightarrow> decided txn d w'"
    and recover_final_law: "ok w \<Longrightarrow> dl_recover_staging (co_log env) txn w = (Inr (RecAlreadyFinal d), w') \<Longrightarrow> decided txn d w'"
begin

lemmas step_rules = step_local step_remote step_log
lemmas stable_events = stable_ok stable_voted stable_reads_valid stable_published stable_decided stable_rules

lemma keeps_try_addresses:
  "(\<And>addr. keeps other (f addr)) \<Longrightarrow> keeps other (try_participant_addresses f last_err addrs)"
  by (induction f last_err addrs rule: try_participant_addresses.induct)
    (auto intro!: keeps_rules split: sum.splits)

lemma keeps_prepare_addresses: "keeps other (prepare_addresses env pm txn st tx source ts last_err addrs)"
  by (induction addrs arbitrary: last_err)
    (auto simp: Let_def intro!: keeps_rules step_rules split: sum.splits)

lemma keeps_prepare_participant: "keeps other (prepare_participant env addresses pm txn st p tx source ts)"
  unfolding prepare_participant_def
  by (auto intro!: keeps_rules step_rules keeps_prepare_addresses split: sum.splits)

lemma keeps_prepare_participants: "keeps other (prepare_participants env addresses pm txn st ps source ts)"
  unfolding prepare_participants_def
  by (auto intro!: keeps_bind keeps_ready keeps_join keeps_prepare_participant other_refl)

lemma keeps_mark_resolved: "keeps other (coordinator_mark_resolved env txn p)"
  unfolding coordinator_mark_resolved_def by (intro keeps_rules step_rules)

lemma keeps_rollback_participant: "keeps other (rollback_participant env addresses pm txn p)"
  unfolding rollback_participant_def
  by (auto intro!: keeps_rules step_rules keeps_try_addresses split: sum.splits)

lemma keeps_rollback_each: "keeps other (rollback_each env addresses pm txn ps)"
  by (induction ps)
    (auto intro!: keeps_bind keeps_ready keeps_rollback_participant keeps_mark_resolved split: sum.splits)

lemma keeps_commit_participant: "keeps other (commit_participant env addresses pm txn p)"
  unfolding commit_participant_def
  by (auto intro!: keeps_rules step_rules keeps_try_addresses split: sum.splits)

lemma keeps_commit_and_resolve: "keeps other (commit_and_resolve env addresses pm txn p)"
  unfolding commit_and_resolve_def
  by (intro keeps_try_bind keeps_context keeps_ready keeps_commit_participant keeps_mark_resolved)

lemma keeps_commit_participants: "keeps other (commit_participants env addresses pm txn ps)"
  unfolding commit_participants_def
  by (auto intro!: keeps_bind keeps_ready keeps_join keeps_commit_and_resolve other_refl)

lemma keeps_write_decision: "keeps other (write_decision_record env txn d)"
  unfolding write_decision_record_def
  by (auto intro!: keeps_rules step_rules split: option.splits)

lemma keeps_write_staging: "keeps other (write_complete_staging_decision env txn ts all_ps ps source)"
  unfolding write_complete_staging_decision_def Let_def
  by (auto intro!: keeps_rules keeps_write_decision reflpD [OF other_refl] split: sum.splits)

lemma keeps_recover_staging: "keeps other (recover_complete_staging_decision env txn)"
  unfolding recover_complete_staging_decision_def by (intro keeps_rules step_rules)

lemma keeps_spawn_cleanup: "keeps other (spawn_parallel_commit_cleanup env addresses pm txn prepared)"
  unfolding spawn_parallel_commit_cleanup_def
  by (auto intro!: keeps_call step_spawn keeps_bind keeps_ready keeps_commit_participants)

lemma keeps_fail_attempt: "keeps other (fail_attempt env addresses pm txn st attempt prepared failures)"
  unfolding fail_attempt_def Let_def rollback_prepared_participants_def
  by (auto intro!: keeps_try_bind keeps_bind keeps_context keeps_ready keeps_write_decision keeps_rollback_each)

lemma keeps_commit_attempt: "keeps other (commit_attempt env addresses pm mode txn ts ps source prepared)"
  unfolding commit_attempt_def Let_def
  by (auto intro!: keeps_try_bind keeps_bind keeps_context keeps_ready keeps_write_decision keeps_commit_participants
      keeps_write_staging keeps_recover_staging keeps_spawn_cleanup split: two_phase_commit_mode.splits sum.splits)

end

text \<open>Every address of \<open>NODE_ADDRESSES\<close> reaches the partition it is listed for.\<close>

definition book_correct :: "(string \<Rightarrow> partition_id \<Rightarrow> bool) \<Rightarrow> node_addresses option \<Rightarrow> bool" where
  "book_correct serves addresses \<longleftrightarrow>
     (\<forall>p addrs. participant_addresses addresses p = Inr addrs \<longrightarrow> (\<forall>addr \<in> set addrs. serves addr p))"

lemma verify_prepare_result_Inr: "verify_prepare_result ts ts' = Inr u \<longleftrightarrow> ts' = ts"
  by (simp add: verify_prepare_result_def)

lemma prepare_outcome_ok:
  assumes "prepare_outcome results = (prepared, [])"
  shows "\<forall>(p, r) \<in> set results. \<exists>b. r = Inr b" "prepared = map fst (filter (\<lambda>(_, r). r = Inr True) results)"
  using assms by (auto simp: prepare_outcome_def List.map_filter_def filter_empty_conv split: sum.splits prod.splits)
    (metis obj_sumE)

lemma commit_results_Inr:
  "commit_results results first_err rs = Inr out \<Longrightarrow>
     first_err = None \<and> (\<forall>(p, r) \<in> set rs. \<exists>ts. r = Inr ts \<and> (p, ts) \<in> set out) \<and> set results \<subseteq> set out"
  by (induction results first_err rs rule: commit_results.induct) (auto split: option.splits if_splits)

context coordination
begin

subsection \<open>Prepares\<close>

definition prepared_at :: "string \<Rightarrow> timestamp \<Rightarrow> partition_id \<Rightarrow> ('d, 's) participant_transaction \<Rightarrow> bool \<Rightarrow> 'w \<Rightarrow> bool" where
  "prepared_at txn ts p tx stages w \<longleftrightarrow>
     (if stages then pt_writes tx \<noteq> [] \<and> voted txn p ts tx w else pt_writes tx = [] \<and> reads_valid txn p ts tx w)"

lemma stable_prepared_at: "stable_under other (prepared_at txn ts p tx stages)"
  unfolding prepared_at_def by (cases stages) (simp_all add: stable_events)

lemma prepare_addresses_post:
  assumes "\<forall>addr \<in> set addrs. serves addr p"
  shows "achieves other ok (prepare_addresses env pm txn st tx source ts last_err addrs) (outcome (prepared_at txn ts p tx))"
  using assms
proof (induction addrs arbitrary: last_err)
  case Nil
  then show ?case by (auto intro!: outcome_ready stable_prepared_at)
next
  case (Cons addr addrs)
  have failed: "achieves other ok
      (if should_try_next_participant_address e then prepare_addresses env pm txn st tx source ts (Some e) addrs else Ready (Inl e))
      (outcome (prepared_at txn ts p tx))" for e
    using Cons by (auto intro!: outcome_ready stable_prepared_at)
  have prepared: "achieves other ok (co_remote_prepare env addr txn tx source ts v st) (outcome (\<lambda>ts'. voted txn p ts' tx))" for v
    using Cons(2) by (intro event_task step_rules stable_events remote_prepare_law) simp
  have valid: "achieves other ok (co_remote_validate env addr txn tx source ts v) (outcome (\<lambda>_. reads_valid txn p ts tx))" for v
    using Cons(2) by (intro event_task step_rules stable_events remote_validate_law) simp
  have verified: "achieves other (\<lambda>w. ok w \<and> voted txn p ts' tx w)
      (Ready (and_then (verify_prepare_result ts ts') (\<lambda>_. Inr True))) (outcome (prepared_at txn ts p tx))"
    if "pt_writes tx \<noteq> []" for ts'
    using that by (intro outcome_ready stable_prepared_at) (auto simp: verify_prepare_result_def prepared_at_def)
  have read: "achieves other (\<lambda>w. ok w \<and> reads_valid txn p ts tx w) (Ready (Inr False)) (outcome (prepared_at txn ts p tx))"
    if "pt_writes tx = []"
    using that by (intro outcome_ready stable_prepared_at) (auto simp: prepared_at_def)
  show ?case
    unfolding prepare_addresses.simps Let_def
  proof (rule outcome_cases [OF outcome_true [OF quiet_task [OF step_remote(1)]]], goal_cases)
    case (1 e)
    then show ?case by (simp only: sum.case) (rule failed)
  next
    case (2 x)
    show ?case
      by (cases "pt_writes tx = []"; simp only: sum.case if_True if_False simp_thms;
          rule outcome_cases [OF valid] outcome_cases [OF prepared];
          simp only: sum.case failed read verified not_False_eq_True)
  qed
qed

lemma prepare_participant_post:
  assumes "book_correct serves addresses" "pmap_local pm = here"
  shows "achieves other ok (prepare_participant env addresses pm txn st p tx source ts) (outcome (prepared_at txn ts p tx))"
proof (cases "p = here")
  case True
  have prepared: "achieves other ok (co_prepare env txn tx source ts st) (outcome (\<lambda>ts'. voted txn here ts' tx))"
    by (intro event_task step_rules stable_events prepare_law)
  have valid: "achieves other ok (co_validate env txn tx source ts) (outcome (\<lambda>_. reads_valid txn here ts tx))"
    by (intro event_task step_rules stable_events validate_law)
  show ?thesis
    using True assms(2) unfolding prepare_participant_def
    by (auto intro!: outcome_try [OF prepared] outcome_try [OF valid] outcome_ready stable_prepared_at
        simp: verify_prepare_result_def prepared_at_def)
next
  case False
  then show ?thesis
    using assms unfolding prepare_participant_def book_correct_def
    by (auto intro!: prepare_addresses_post outcome_ready stable_prepared_at split: sum.splits)
qed

definition all_prepared ::
  "string \<Rightarrow> timestamp \<Rightarrow> (partition_id \<times> ('d, 's) participant_transaction) list \<Rightarrow> 'w \<Rightarrow> bool" where
  "all_prepared txn ts ps w \<longleftrightarrow> (\<forall>p tx. (p, tx) \<in> set ps \<longrightarrow> prepared_at txn ts p tx (pt_writes tx \<noteq> []) w)"

lemma stable_all_prepared: "stable_under other (all_prepared txn ts ps)"
  unfolding all_prepared_def by (intro stable_events stable_prepared_at)

lemma prepare_outcome_complete:
  assumes d: "distinct (map fst ps)" and rs: "mset (map fst rs) = mset (map fst ps)"
    and post: "\<And>p r tx. (p, r) \<in> set rs \<Longrightarrow> (p, tx) \<in> set ps \<Longrightarrow> outcome (prepared_at txn ts p tx) r w"
    and out: "prepare_outcome rs = (prepared, [])"
  shows "mset prepared = mset (map fst (filter (\<lambda>(_, tx). pt_writes tx \<noteq> []) ps)) \<and> all_prepared txn ts ps w"
proof -
  from d rs have d': "distinct (map fst rs)" by (blast dest: mset_eq_imp_distinct_iff)
  have keys: "fst ` set rs = fst ` set ps" using rs by (metis set_map set_mset_mset)
  have result: "(p, Inr (pt_writes tx \<noteq> [])) \<in> set rs \<and> prepared_at txn ts p tx (pt_writes tx \<noteq> []) w" if "(p, tx) \<in> set ps" for p tx
  proof -
    from that keys have "p \<in> fst ` set rs" by force
    then obtain r where r: "(p, r) \<in> set rs" by auto
    with prepare_outcome_ok(1) [OF out] obtain b where b: "r = Inr b" by auto
    from post [OF r that] b have at: "prepared_at txn ts p tx b w" by simp
    then have "b = (pt_writes tx \<noteq> [])" by (auto simp: prepared_at_def split: if_splits)
    with at b r show ?thesis by simp
  qed
  have "set prepared = fst ` set (filter (\<lambda>(_, tx). pt_writes tx \<noteq> []) ps)"
  proof (intro set_eqI iffI)
    fix p
    assume "p \<in> set prepared"
    then have p: "(p, Inr True) \<in> set rs" using prepare_outcome_ok(2) [OF out] by auto
    then obtain tx where tx: "(p, tx) \<in> set ps" using keys by (metis (no_types, lifting) fst_conv imageE image_eqI prod.collapse)
    from post [OF p tx] have "pt_writes tx \<noteq> []" by (simp add: prepared_at_def)
    with tx show "p \<in> fst ` set (filter (\<lambda>(_, tx). pt_writes tx \<noteq> []) ps)" by force
  next
    fix p
    assume "p \<in> fst ` set (filter (\<lambda>(_, tx). pt_writes tx \<noteq> []) ps)"
    then obtain tx where "(p, tx) \<in> set ps" "pt_writes tx \<noteq> []" by auto
    with result [of p tx] show "p \<in> set prepared" using prepare_outcome_ok(2) [OF out] by force
  qed
  moreover have "distinct prepared" using prepare_outcome_ok(2) [OF out] d' by (simp add: distinct_map_filter)
  moreover have "distinct (map fst (filter (\<lambda>(_, tx). pt_writes tx \<noteq> []) ps))" using d by (rule distinct_map_filter)
  ultimately show ?thesis using result by (auto simp: all_prepared_def set_eq_iff_mset_eq_distinct [symmetric] simp del: mset_map)
qed

lemma prepare_participants_post:
  assumes "book_correct serves addresses" "pmap_local pm = here" "distinct (map fst ps)"
  shows "achieves other ok (prepare_participants env addresses pm txn st ps source ts)
    (\<lambda>out w. ok w \<and> (snd out = [] \<longrightarrow>
       mset (fst out) = mset (map fst (filter (\<lambda>(_, tx). pt_writes tx \<noteq> []) ps)) \<and> all_prepared txn ts ps w))"
  unfolding prepare_participants_def
proof (rule achieves_bind)
  let ?Q = "\<lambda>p r w. ok w \<and> (\<forall>tx. (p, tx) \<in> set ps \<longrightarrow> outcome (prepared_at txn ts p tx) r w)"
  let ?ts = "map (\<lambda>(p, tx). (p, prepare_participant env addresses pm txn st p tx source ts)) ps"
  have one: "achieves other ok t (?Q p)" if "(p, t) \<in> set ?ts" for p t
  proof -
    from that obtain tx where tx: "(p, tx) \<in> set ps" "t = prepare_participant env addresses pm txn st p tx source ts" by auto
    have "tx' = tx" if "(p, tx') \<in> set ps" for tx' using that tx(1) assms(3) by (simp add: eq_key_imp_eq_value)
    then show ?thesis
      unfolding tx(2)
      by (intro achieves_weaken [OF prepare_participant_post [OF assms(1,2), of txn st p tx source ts]])
        (auto simp: outcome_def)
  qed
  show "achieves other ok (join (co_pick env) ?ts)
      (\<lambda>rs w. ok w \<and> mset (map fst rs) = mset (map fst ps) \<and> (\<forall>p r. (p, r) \<in> set rs \<longrightarrow> ?Q p r w))"
  proof (rule achieves_weaken)
    have keep: "keeps other t" if "(p, t) \<in> set ?ts" for p t using that by (auto intro: keeps_prepare_participant)
    have st: "stable_under other (?Q k x)" for k x unfolding outcome_def by (intro stable_events stable_prepared_at)
    show "achieves other (\<lambda>w. ok w \<and> ok w) (join (co_pick env) ?ts)
        (\<lambda>rs w. (mset (map fst rs) = mset (map fst ?ts) \<and> (\<forall>p r. (p, r) \<in> set rs \<longrightarrow> ?Q p r w)) \<and> ok w)"
      by (rule achieves_frame [OF achieves_join [where Q = ?Q] keeps_join stable_ok])
        (use one keep st stable_ok other_refl in blast)+
  qed (auto simp: comp_def case_prod_unfold)
  fix rs :: "(partition_id \<times> (anyhow_error + bool)) list"
  show "achieves other (\<lambda>w. ok w \<and> mset (map fst rs) = mset (map fst ps) \<and> (\<forall>p r. (p, r) \<in> set rs \<longrightarrow> ?Q p r w))
      (Ready (prepare_outcome rs))
      (\<lambda>out w. ok w \<and> (snd out = [] \<longrightarrow>
         mset (fst out) = mset (map fst (filter (\<lambda>(_, tx). pt_writes tx \<noteq> []) ps)) \<and> all_prepared txn ts ps w))"
  proof (rule achieves_ready)
    fix w
    assume "ok w \<and> mset (map fst rs) = mset (map fst ps) \<and> (\<forall>p r. (p, r) \<in> set rs \<longrightarrow> ?Q p r w)"
    then show "ok w \<and> (snd (prepare_outcome rs) = [] \<longrightarrow>
        mset (fst (prepare_outcome rs)) = mset (map fst (filter (\<lambda>(_, tx). pt_writes tx \<noteq> []) ps)) \<and> all_prepared txn ts ps w)"
      using prepare_outcome_complete [OF assms(3), of rs txn ts w "fst (prepare_outcome rs)"]
      by (metis prod.collapse)
  qed (intro stable_events stable_all_prepared)
qed

subsection \<open>Decisions and commits\<close>

definition decided_commit :: "string \<Rightarrow> timestamp \<Rightarrow> partition_id list \<Rightarrow> 'w \<Rightarrow> bool" where
  "decided_commit txn ts prepared w \<longleftrightarrow>
     (\<exists>parts resolved at. decided txn (Committed ts parts resolved at) w \<and> set parts = set prepared)"

lemma stable_decided_commit: "stable_under other (decided_commit txn ts prepared)"
  unfolding decided_commit_def by (intro stable_events)

lemma write_decision_post: "achieves other ok (write_decision_record env txn d) (outcome (\<lambda>_. decided txn d))"
proof -
  have found: "achieves other ok (call (dl_get (co_log env) txn)) (outcome (\<lambda>d' w. \<forall>d''. d' = Some d'' \<longrightarrow> decided txn d'' w))"
    by (intro event_call step_rules stable_events) (auto intro: get_law)
  have written: "achieves other ok (call (dl_write_if_absent (co_log env) txn d)) (outcome (\<lambda>b w. b \<longrightarrow> decided txn d w))"
    by (intro event_call step_rules stable_events) (auto intro: write_law)
  have read: "achieves other ok (try_bind (call (dl_get (co_log env) txn)) (\<lambda>found. case found of
             None \<Rightarrow> Ready (Inl (anyhow ''2PC Coordinator: decision already existed but could not be read''))
           | Some existing \<Rightarrow>
               if existing = d then Ready (Inr ())
               else Ready (Inl (anyhow ''2PC Coordinator: durable decision is already another one, cannot overwrite''))))
      (outcome (\<lambda>_. decided txn d))"
    by (rule outcome_try [OF found stable_decided]) (auto intro!: outcome_ready stable_decided split: option.splits)
  show ?thesis
    unfolding write_decision_record_def
    by (rule outcome_try [OF written stable_decided])
      (auto intro!: outcome_ready stable_decided intro: achieves_weaken [OF read])
qed

lemma try_addresses_post:
  assumes "\<And>addr. addr \<in> set addrs \<Longrightarrow> achieves other ok (f addr) (outcome Q)" and Q: "\<And>x. stable_under other (Q x)"
  shows "achieves other ok (try_participant_addresses f last_err addrs) (outcome Q)"
  using assms(1)
proof (induction addrs arbitrary: last_err)
  case Nil
  then show ?case by (auto intro!: outcome_ready Q)
next
  case (Cons addr addrs)
  have "achieves other ok (f addr) (outcome Q)" by (rule Cons(2)) simp
  then show ?case
    unfolding try_participant_addresses.simps
    by (rule outcome_cases) (auto intro!: outcome_ready Q Cons(1) Cons(2))
qed

lemma commit_participant_post:
  assumes "book_correct serves addresses" "pmap_local pm = here"
  shows "achieves other ok (commit_participant env addresses pm txn p) (outcome (published txn p))"
proof (cases "p = here")
  case True
  have "achieves other ok (co_commit env txn) (outcome (published txn here))"
    by (intro event_task step_rules stable_events commit_law)
  then show ?thesis using True assms(2) unfolding commit_participant_def by simp
next
  case False
  have one: "achieves other ok (try_bind (co_connect env addr) (\<lambda>_.
        try_bind (co_remote_commit env addr txn) (\<lambda>ts. Ready (lift_ts (ts_from_u64 ts)))))
      (outcome (published txn p))" if "serves addr p" for addr
  proof (rule outcome_try [OF outcome_true [OF quiet_task [OF step_remote(1)]] stable_published])
    have "achieves other ok (co_remote_commit env addr txn) (outcome (published txn p))"
      using that by (intro event_task step_rules stable_events remote_commit_law)
    then have "achieves other ok (try_bind (co_remote_commit env addr txn) (\<lambda>ts. Ready (lift_ts (ts_from_u64 ts))))
        (outcome (published txn p))"
      by (rule outcome_try) (auto intro!: outcome_ready stable_published simp: lift_ts_def ts_from_u64_def)
    then show "achieves other (\<lambda>w. ok w \<and> True)
        (try_bind (co_remote_commit env addr txn) (\<lambda>ts. Ready (lift_ts (ts_from_u64 ts)))) (outcome (published txn p))"
      by simp
  qed
  show ?thesis
    using False assms unfolding commit_participant_def book_correct_def
    by (auto intro!: try_addresses_post one outcome_ready stable_published split: sum.splits)
qed

lemma commit_and_resolve_post:
  assumes "book_correct serves addresses" "pmap_local pm = here"
  shows "achieves other ok (commit_and_resolve env addresses pm txn p) (outcome (published txn p))"
  unfolding commit_and_resolve_def
proof (rule outcome_try [OF commit_participant_post [OF assms] stable_published])
  fix ts
  have "achieves other ok (task_context ctx (coordinator_mark_resolved env txn p)) (outcome (\<lambda>_ w. True))" for ctx
    unfolding coordinator_mark_resolved_def
    by (intro outcome_context outcome_try [OF outcome_true [OF quiet_call [OF step_log(4)]]] outcome_ready stable_const) auto
  from ok_frame [OF this keeps_context [OF keeps_mark_resolved] stable_published]
  have "achieves other (\<lambda>w. ok w \<and> published txn p ts w) (task_context ctx (coordinator_mark_resolved env txn p))
      (outcome (\<lambda>_. published txn p ts))" for ctx
    by (rule achieves_weaken) (auto simp: outcome_def split: sum.splits)
  then show "achieves other (\<lambda>w. ok w \<and> published txn p ts w)
      (try_bind (task_context ''2PC Coordinator: participant committed but resolution acknowledgement failed''
          (coordinator_mark_resolved env txn p)) (\<lambda>_. Ready (Inr ts))) (outcome (published txn p))"
    by (rule outcome_try) (auto intro!: outcome_ready stable_published)
qed

lemma commit_participants_post:
  assumes "book_correct serves addresses" "pmap_local pm = here"
  shows "achieves other ok (commit_participants env addresses pm txn ps)
    (outcome (\<lambda>out w. \<forall>p \<in> set ps. \<exists>ts. (p, ts) \<in> set out \<and> published txn p ts w))"
  unfolding commit_participants_def
proof (rule achieves_bind)
  let ?ts = "map (\<lambda>p. (p, commit_and_resolve env addresses pm txn p)) ps"
  let ?Q = "\<lambda>p. outcome (published txn p)"
  have one: "achieves other ok t (?Q p)" if "(p, t) \<in> set ?ts" for p t
    using that commit_and_resolve_post [OF assms] by auto
  have keep: "keeps other t" if "(p, t) \<in> set ?ts" for p t using that by (auto intro: keeps_commit_and_resolve)
  have st: "stable_under other (?Q p r)" for p r by (intro stable_outcome stable_published)
  have "achieves other (\<lambda>w. ok w \<and> ok w) (join (co_pick env) ?ts)
      (\<lambda>rs w. (mset (map fst rs) = mset (map fst ?ts) \<and> (\<forall>p r. (p, r) \<in> set rs \<longrightarrow> ?Q p r w)) \<and> ok w)"
    by (rule achieves_frame [OF achieves_join [where Q = ?Q] keeps_join stable_ok])
      (use one keep st stable_ok other_refl in blast)+
  then show "achieves other ok (join (co_pick env) ?ts)
      (\<lambda>rs w. (mset (map fst rs) = mset (map fst ?ts) \<and> (\<forall>p r. (p, r) \<in> set rs \<longrightarrow> ?Q p r w)) \<and> ok w)" by simp
next
  fix rs :: "(partition_id \<times> (anyhow_error + timestamp)) list"
  show "achieves other (\<lambda>w. (mset (map fst rs) = mset (map fst (map (\<lambda>p. (p, commit_and_resolve env addresses pm txn p)) ps)) \<and>
        (\<forall>p r. (p, r) \<in> set rs \<longrightarrow> outcome (published txn p) r w)) \<and> ok w)
      (Ready (commit_results [] None rs))
      (outcome (\<lambda>out w. \<forall>p \<in> set ps. \<exists>ts. (p, ts) \<in> set out \<and> published txn p ts w))"
  proof (rule outcome_ready)
    fix w
    assume a: "(mset (map fst rs) = mset (map fst (map (\<lambda>p. (p, commit_and_resolve env addresses pm txn p)) ps)) \<and>
        (\<forall>p r. (p, r) \<in> set rs \<longrightarrow> outcome (published txn p) r w)) \<and> ok w"
    then have "mset (map fst rs) = mset ps" by (simp add: comp_def)
    then have keys: "fst ` set rs = set ps" by (metis set_map set_mset_mset)
    have "\<exists>ts. (p, ts) \<in> set out \<and> published txn p ts w" if "commit_results [] None rs = Inr out" "p \<in> set ps" for out p
    proof -
      from that(2) keys obtain r where r: "(p, r) \<in> set rs" by force
      with commit_results_Inr [OF that(1)] obtain ts where ts: "r = Inr ts" "(p, ts) \<in> set out" by blast
      from a r have "outcome (published txn p) r w" by blast
      with ts show ?thesis by auto
    qed
    with a show "outcome (\<lambda>out w. \<forall>p \<in> set ps. \<exists>ts. (p, ts) \<in> set out \<and> published txn p ts w) (commit_results [] None rs) w"
      by (simp add: outcome_def split: sum.split)
  qed (intro stable_events)
qed

lemma recover_post: "achieves other ok (recover_complete_staging_decision env txn) (outcome (decided txn))"
proof -
  let ?Q = "\<lambda>r w. \<forall>d. r = RecCommitted d \<or> r = RecAlreadyFinal d \<longrightarrow> decided txn d w"
  have st: "stable_under other (?Q r)" for r by (intro stable_events)
  have "achieves other ok (call (dl_recover_staging (co_log env) txn)) (outcome ?Q)"
    by (intro event_call step_rules st) (auto intro: recover_law recover_final_law)
  then have "achieves other ok (task_context ctx (call (dl_recover_staging (co_log env) txn))) (outcome ?Q)" for ctx
    by (rule outcome_context) (rule st)
  then show ?thesis
    unfolding recover_complete_staging_decision_def
    by (rule outcome_try [OF _ stable_decided], intro outcome_ready [OF stable_decided])
      (auto split: staging_recovery_result.splits two_phase_decision.splits)
qed

lemma verify_committed_ok:
  assumes "verify_committed_decision d ts prepared = Inr u" "decided txn d w"
  shows "decided_commit txn ts prepared w"
proof -
  from assms(1) obtain parts resolved at where d: "d = Committed ts parts resolved at" and "sort_dedup parts = sort_dedup prepared"
    by (auto simp: verify_committed_decision_def split: two_phase_decision.splits if_splits)
  from this(2) have "set parts = set prepared" unfolding sort_dedup_def by (metis remdups_adj_set set_sort)
  with d assms(2) show ?thesis unfolding decided_commit_def by blast
qed

definition carried_out :: "two_phase_commit_mode \<Rightarrow> string \<Rightarrow> timestamp \<Rightarrow> partition_id list \<Rightarrow> 'w \<Rightarrow> bool" where
  "carried_out mode txn ts prepared w \<longleftrightarrow> decided_commit txn ts prepared w \<and>
     (mode = DurableDecision \<longrightarrow> (\<forall>p \<in> set prepared. published txn p ts w))"

lemma stable_carried_out: "stable_under other (carried_out mode txn ts prepared)"
  unfolding carried_out_def by (intro stable_events stable_decided_commit)

lemma commit_durable_post:
  assumes "book_correct serves addresses" "pmap_local pm = here"
  shows "achieves other ok (commit_attempt env addresses pm DurableDecision txn ts ps source prepared)
    (outcome (\<lambda>_. carried_out DurableDecision txn ts prepared))"
proof -
  have "achieves other (\<lambda>w. ok w \<and> decided txn (committed ts prepared) w)
      (try_bind (commit_participants env addresses pm txn prepared) (\<lambda>results.
          Ready (if list_ex (\<lambda>(_, ts'). ts' \<noteq> ts) results
                 then Inl (anyhow ''Participant committed at another ts than the coordinator assigned'') else Inr ())))
      (outcome (\<lambda>_. carried_out DurableDecision txn ts prepared))"
    by (rule outcome_try [OF outcome_frame [OF commit_participants_post [OF assms] keeps_commit_participants stable_decided]
          stable_carried_out], rule outcome_ready [OF stable_carried_out])
      (fastforce simp: carried_out_def decided_commit_def committed_def list_ex_iff)
  then show ?thesis
    unfolding commit_attempt_def two_phase_commit_mode.case
    by (intro outcome_try [OF outcome_context [OF write_decision_post stable_decided] stable_carried_out])
qed

lemma commit_parallel_post:
  "achieves other ok (commit_attempt env addresses pm ParallelEarlyAck txn ts ps source prepared)
    (outcome (\<lambda>_. carried_out ParallelEarlyAck txn ts prepared))"
proof -
  have staged: "achieves other ok (write_complete_staging_decision env txn ts all_ps qs source) (outcome (\<lambda>_ w. True))" for all_ps qs
    unfolding write_complete_staging_decision_def Let_def
    by (rule achieves_bind [OF quiet_call])
      (auto intro!: outcome_ready outcome_try [OF outcome_context [OF write_decision_post]] stable_events
        reflpD [OF other_refl] split: sum.splits)
  have spawned: "achieves other (\<lambda>w. ok w \<and> carried_out ParallelEarlyAck txn ts prepared w)
      (task_bind (spawn_parallel_commit_cleanup env addresses pm txn prepared) (\<lambda>_. Ready (Inr ())))
      (outcome (\<lambda>_. carried_out ParallelEarlyAck txn ts prepared))"
  proof (rule achieves_bind)
    have "achieves other ok (spawn_parallel_commit_cleanup env addresses pm txn prepared) (\<lambda>_. ok)"
      unfolding spawn_parallel_commit_cleanup_def
      by (rule quiet_call) (auto intro!: step_spawn keeps_bind keeps_ready keeps_commit_participants)
    from ok_frame [OF this keeps_spawn_cleanup stable_carried_out]
    show "achieves other (\<lambda>w. ok w \<and> carried_out ParallelEarlyAck txn ts prepared w)
      (spawn_parallel_commit_cleanup env addresses pm txn prepared)
      (\<lambda>_ w. ok w \<and> carried_out ParallelEarlyAck txn ts prepared w)" .
  qed (auto intro!: outcome_ready stable_carried_out)
  have recovered: "achieves other (\<lambda>w. ok w \<and> decided txn d w)
      (case verify_committed_decision d ts prepared of
            Inl e \<Rightarrow> Ready (Inl e)
          | Inr _ \<Rightarrow> task_bind (spawn_parallel_commit_cleanup env addresses pm txn prepared) (\<lambda>_. Ready (Inr ())))
      (outcome (\<lambda>_. carried_out ParallelEarlyAck txn ts prepared))" for d
    using verify_committed_ok [of d ts prepared]
    by (cases "verify_committed_decision d ts prepared")
      (auto intro!: outcome_ready stable_carried_out achieves_weaken [OF spawned] simp: carried_out_def)
  show ?thesis
    unfolding commit_attempt_def two_phase_commit_mode.case Let_def
    by (rule outcome_try [OF staged stable_carried_out], simp)
      (rule outcome_try [OF recover_post stable_carried_out], rule recovered)
qed

lemma commit_attempt_post:
  assumes "book_correct serves addresses" "pmap_local pm = here"
  shows "achieves other ok (commit_attempt env addresses pm mode txn ts ps source prepared)
    (outcome (\<lambda>_. carried_out mode txn ts prepared))"
  using commit_durable_post [OF assms] commit_parallel_post by (cases mode) simp_all

end

lemma participant_transactions_keys:
  "participant_transactions cat tx pm source m = Inr ps \<Longrightarrow> map fst ps = map fst m"
  by (induction m arbitrary: ps) (auto simp: and_then_Inr)

lemma plan_distinct:
  assumes "plan_two_phase_commit cat tx source pm = Inr (tables, owner, ps)"
  shows "distinct (map fst ps)"
proof -
  from assms obtain m where m: "participant_prepare_indexes cat tx pm source = Inr m"
    and ps: "participant_transactions cat tx pm source m = Inr ps"
    by (auto simp: plan_two_phase_commit_def and_then_Inr)
  from m have "bt_wf m" by (rule participant_prepare_indexes_spec)
  then show ?thesis
    unfolding participant_transactions_keys [OF ps] by (simp add: bt_wf_def strict_sorted_iff)
qed

context coordination
begin

definition justified ::
  "two_phase_commit_mode \<Rightarrow> (partition_id \<times> ('d, 's) participant_transaction) list \<Rightarrow> timestamp \<Rightarrow> partition_id list \<Rightarrow> 'w \<Rightarrow> bool" where
  "justified mode ps ts prepared w \<longleftrightarrow> (\<exists>txn.
     mset prepared = mset (map fst (filter (\<lambda>(_, tx). pt_writes tx \<noteq> []) ps)) \<and>
     all_prepared txn ts ps w \<and> carried_out mode txn ts prepared w)"

lemma stable_justified: "stable_under other (justified mode ps ts prepared)"
  unfolding justified_def by (intro stable_events stable_all_prepared stable_carried_out)

lemma keeps_attempt_loop: "keeps other (attempt_loop env addresses pm mode ps source left last_err min_ts)"
  by (induction left arbitrary: last_err min_ts)
    (auto simp: Let_def intro!: keeps_bind keeps_call keeps_ready step_rules keeps_prepare_participants keeps_fail_attempt
      keeps_commit_attempt split: sum.splits option.splits)

definition loop_post ::
  "two_phase_commit_mode \<Rightarrow> (partition_id \<times> ('d, 's) participant_transaction) list \<Rightarrow>
   (anyhow_error + timestamp \<times> partition_id list) option \<times> nat \<Rightarrow> 'w \<Rightarrow> bool" where
  "loop_post mode ps r w \<longleftrightarrow> ok w \<and> (\<forall>ts prepared. fst r = Some (Inr (ts, prepared)) \<longrightarrow> justified mode ps ts prepared w)"

lemma stable_loop_post: "stable_under other (loop_post mode ps r)"
  unfolding loop_post_def by (intro stable_events stable_justified)

lemma attempt_commits:
  assumes "book_correct serves addresses" "pmap_local pm = here"
  shows "achieves other (\<lambda>w. ok w \<and> mset prepared = mset (map fst (filter (\<lambda>(_, tx). pt_writes tx \<noteq> []) ps)) \<and> all_prepared txn ts ps w)
    (task_bind (commit_attempt env addresses pm mode txn ts ps source prepared) (\<lambda>r.
       Ready (Some (and_then r (\<lambda>_. Inr (ts, prepared))), n)))
    (loop_post mode ps)"
proof -
  let ?F = "\<lambda>w. mset prepared = mset (map fst (filter (\<lambda>(_, tx). pt_writes tx \<noteq> []) ps)) \<and> all_prepared txn ts ps w"
  have F: "stable_under other ?F" by (intro stable_events stable_all_prepared)
  show ?thesis
    by (rule outcome_cases [OF outcome_frame [OF commit_attempt_post [OF assms] keeps_commit_attempt F]])
      (auto intro!: achieves_ready stable_loop_post simp: loop_post_def justified_def)
qed

lemma fail_attempt_post: "achieves other ok (fail_attempt env addresses pm txn st attempt prepared failures) (\<lambda>r. ok)"
  by (rule quiet_task [OF keeps_fail_attempt])

lemma attempt_loop_post:
  assumes "book_correct serves addresses" "pmap_local pm = here" "distinct (map fst ps)"
  shows "achieves other ok (attempt_loop env addresses pm mode ps source left last_err min_ts) (loop_post mode ps)"
proof (induction left arbitrary: last_err min_ts)
  case 0
  show ?case by (simp only: attempt_loop.simps, rule achieves_ready [OF stable_loop_post]) (simp add: loop_post_def)
next
  case (Suc left)
  show ?case
    unfolding attempt_loop.simps Let_def
  proof (rule achieves_bind [OF quiet_call [OF step_log(1)]],
      rule outcome_cases [OF outcome_true [OF quiet_task [OF step_local(1)]]], goal_cases)
    case (1 txn e)
    show ?case by (simp only: sum.case, rule achieves_ready [OF stable_loop_post]) (simp add: loop_post_def)
  next
    case (2 txn ts)
    let ?attempt = "max_prepare_ts_retries - Suc left" and ?st = "map fst (filter (\<lambda>(_, tx). pt_writes tx \<noteq> []) ps)"
    have failed: "achieves other ok (task_bind (fail_attempt env addresses pm txn ?st ?attempt prepared failures) (\<lambda>r. case r of
                Inl e \<Rightarrow> Ready (Some (Inl e), ?attempt + 1)
              | Inr _ \<Rightarrow>
                  (case required_retry_floor failures of
                     None \<Rightarrow> Ready (None, ?attempt + 1)
                   | Some floor \<Rightarrow>
                       attempt_loop env addresses pm mode ps source left (Some (selected_failure failures)) floor))) (loop_post mode ps)"
      for prepared failures
    proof (rule achieves_bind [OF fail_attempt_post], goal_cases)
      case (1 r)
      have "achieves other ok (Ready (x, n)) (loop_post mode ps)" if "\<And>y. x \<noteq> Some (Inr y)" for x n
        by (rule achieves_ready [OF stable_loop_post]) (simp add: loop_post_def that)
      then show ?case using Suc by (simp split: sum.split option.split)
    qed
    have "achieves other (\<lambda>w. ok w \<and> (snd out = [] \<longrightarrow> mset (fst out) = mset ?st \<and> all_prepared txn ts ps w))
       (case out of (prepared, failures) \<Rightarrow>
          if failures \<noteq> []
          then
            task_bind (fail_attempt env addresses pm txn ?st ?attempt prepared failures) (\<lambda>r. case r of
                Inl e \<Rightarrow> Ready (Some (Inl e), ?attempt + 1)
              | Inr _ \<Rightarrow>
                  (case required_retry_floor failures of
                     None \<Rightarrow> Ready (None, ?attempt + 1)
                   | Some floor \<Rightarrow>
                       attempt_loop env addresses pm mode ps source left (Some (selected_failure failures)) floor))
          else
            task_bind (commit_attempt env addresses pm mode txn ts ps source prepared) (\<lambda>r.
              Ready (Some (and_then r (\<lambda>_. Inr (ts, prepared))), ?attempt + 1))) (loop_post mode ps)" for out
    proof (cases "snd out = []")
      case True
      then show ?thesis using attempt_commits [OF assms(1,2)] by (cases out) (auto intro: achieves_weaken)
    next
      case False
      obtain prepared failures where out: "out = (prepared, failures)" by (cases out)
      with False have "failures \<noteq> []" by simp
      show ?thesis
        unfolding out prod.case if_P [OF \<open>failures \<noteq> []\<close>] by (rule achieves_weaken [OF failed]) simp
    qed
    then show ?case
      by (simp only: sum.case simp_thms) (rule achieves_bind [OF prepare_participants_post [OF assms]])
  qed
qed

lemma coordinate_post:
  assumes "book_correct serves addresses" "pmap_local pm = here"
    and "plan_two_phase_commit (co_catalog env) tx source pm = Inr (tables, owner, ps)"
  shows "achieves other ok (coordinate_two_phase_commit_with_mode env addresses tx source pm mode)
    (\<lambda>r w. \<forall>out. fst r = Some (Inr out) \<longrightarrow>
       oc_source_partition out = owner \<and> oc_invalidated_tables out = tables \<and>
       justified mode ps (oc_ts out) (oc_read_after_write_partitions out) w)"
  unfolding coordinate_two_phase_commit_with_mode_def assms(3) sum.case prod.case
  by (rule achieves_bind [OF attempt_loop_post [OF assms(1,2) plan_distinct [OF assms(3)]]])
    (auto intro!: achieves_ready stable_events stable_justified simp: loop_post_def and_then_Inr split: prod.splits)

end

section \<open>The attempts end\<close>

lemma achieves_any: "(\<And>x w. Q x w) \<Longrightarrow> achieves R P t Q"
  by (simp add: achieves_def)

lemma required_retry_floor_Some:
  assumes "failures \<noteq> []" "list_all (\<lambda>(_, e). is_retryable_prepare_ts_error e) failures"
  shows "\<exists>floor. required_retry_floor failures = Some floor \<and> floor \<in> set (List.map_filter (\<lambda>(_, e). required_prepare_ts e) failures) \<and>
    (\<forall>(p, e) \<in> set failures. \<exists>t. required_prepare_ts e = Some t \<and> t \<le> floor)"
proof -
  let ?ts = "List.map_filter (\<lambda>(_, e). required_prepare_ts e) failures"
  have all: "\<exists>t. required_prepare_ts e = Some t \<and> t \<in> set ?ts" if "(p, e) \<in> set failures" for p e
    using assms(2) that by (force simp: list_all_iff is_retryable_prepare_ts_error_def List.map_filter_def)
  obtain p e where "(p, e) \<in> set failures" using assms(1) by (cases failures) auto
  with all obtain t ts where ts: "?ts = t # ts" by (metis list.exhaust list.set_cases)
  have "fold max ts t = Max (set ?ts)" unfolding ts by (metis Max.set_eq_fold)
  moreover have "Max (set ?ts) \<in> set ?ts" by (rule Max_in) (simp_all add: ts)
  moreover have "x \<le> Max (set ?ts)" if "x \<in> set ?ts" for x using that by simp
  ultimately show ?thesis using all by (fastforce simp: required_retry_floor_def ts)
qed

lemma fail_attempt_retries:
  "achieves R P (fail_attempt env addresses pm txn st attempt prepared failures)
    (\<lambda>r w. r = Inr () \<longrightarrow> attempt + 1 < max_prepare_ts_retries \<and> list_all (\<lambda>(_, e). is_retryable_prepare_ts_error e) failures)"
  unfolding fail_attempt_def Let_def try_bind_def
  by (rule achieves_bind [OF achieves_any [where Q = "\<lambda>_ _. True"]])
    (auto intro!: achieves_ready achieves_bind [OF achieves_any [where Q = "\<lambda>_ _. True"]] stable_const split: sum.split)

lemma attempt_loop_returns:
  "left \<le> max_prepare_ts_retries \<Longrightarrow>
   achieves R P (attempt_loop env addresses pm mode ps source left last_err min_ts)
     (\<lambda>r w. fst r \<noteq> None \<and> snd r \<le> max_prepare_ts_retries)"
proof (induction left arbitrary: last_err min_ts P)
  case 0
  show ?case by (auto intro!: achieves_ready stable_const)
next
  case (Suc left)
  let ?attempt = "max_prepare_ts_retries - Suc left" and ?Q = "\<lambda>r w. fst r \<noteq> None \<and> snd r \<le> max_prepare_ts_retries"
  have n: "?attempt + 1 \<le> max_prepare_ts_retries" using Suc(2) by simp
  have failed: "achieves R P' (task_bind (fail_attempt env addresses pm txn st ?attempt prepared failures) (\<lambda>r. case r of
                Inl e \<Rightarrow> Ready (Some (Inl e), ?attempt + 1)
              | Inr _ \<Rightarrow>
                  (case required_retry_floor failures of
                     None \<Rightarrow> Ready (None, ?attempt + 1)
                   | Some floor \<Rightarrow>
                       attempt_loop env addresses pm mode ps source left (Some (selected_failure failures)) floor))) ?Q"
    if "failures \<noteq> []" for P' txn st prepared failures
  proof (rule achieves_bind [OF fail_attempt_retries], goal_cases)
    case (1 r)
    show ?case
    proof (cases r)
      case (Inl e)
      then show ?thesis using n by (auto intro!: achieves_ready stable_const)
    next
      case (Inr u)
      show ?thesis
      proof (cases "list_all (\<lambda>(_, e). is_retryable_prepare_ts_error e) failures")
        case True
        with required_retry_floor_Some [OF that] obtain floor where "required_retry_floor failures = Some floor" by blast
        then show ?thesis using Suc by (simp add: Inr)
      next
        case False
        then show ?thesis by (simp add: Inr achieves_def)
      qed
    qed
  qed
  have attempted: "achieves R P' (case out of (prepared, failures) \<Rightarrow>
          if failures \<noteq> []
          then
            task_bind (fail_attempt env addresses pm txn st ?attempt prepared failures) (\<lambda>r. case r of
                Inl e \<Rightarrow> Ready (Some (Inl e), ?attempt + 1)
              | Inr _ \<Rightarrow>
                  (case required_retry_floor failures of
                     None \<Rightarrow> Ready (None, ?attempt + 1)
                   | Some floor \<Rightarrow>
                       attempt_loop env addresses pm mode ps source left (Some (selected_failure failures)) floor))
          else
            task_bind (commit_attempt env addresses pm mode txn ts ps source prepared) (\<lambda>r.
              Ready (Some (and_then r (\<lambda>_. Inr (ts, prepared))), ?attempt + 1))) ?Q" for P' out txn st ts
  proof -
    obtain prepared failures where out: "out = (prepared, failures)" by (cases out)
    show ?thesis
    proof (cases "failures = []")
      case True
      then show ?thesis
        unfolding out using n
        by (auto intro!: achieves_bind [OF achieves_any [where Q = "\<lambda>_ _. True"]] achieves_ready stable_const)
    next
      case False
      then show ?thesis unfolding out prod.case if_P [OF False] by (rule failed)
    qed
  qed
  show ?case
    unfolding attempt_loop.simps Let_def
  proof (rule achieves_bind [OF achieves_any [where Q = "\<lambda>_ _. True"]], simp,
      rule achieves_bind [OF achieves_any [where Q = "\<lambda>_ _. True"]], simp, goal_cases)
    case (1 txn r)
    show ?case
    proof (cases r)
      case (Inl e)
      then show ?thesis using n by (auto intro!: achieves_ready stable_const)
    next
      case (Inr ts)
      show ?thesis
        unfolding Inr sum.case
        by (rule achieves_bind [OF achieves_any [where Q = "\<lambda>_ _. True"]], simp) (rule attempted)
    qed
  qed
qed

text \<open>
  C9. A coordinated commit always returns: from any world there is a result, and
  whatever the participants, the decision log and the other tasks do in between,
  every result is a value or an error, never a panic, after at most eight
  attempts.
\<close>

theorem coordinator_returns:
  "{r. \<exists>w'. exec R (coordinate_two_phase_commit_with_mode env addresses tx source pm mode) w r w'} \<noteq> {} \<and>
   {r. \<exists>w'. exec R (coordinate_two_phase_commit_with_mode env addresses tx source pm mode) w r w'} \<subseteq>
     {(Some x, n) | x n. n \<le> 8}"
proof
  let ?t = "coordinate_two_phase_commit_with_mode env addresses tx source pm mode"
  have "exec R ?t w (fst (run_task ?t w)) (snd (run_task ?t w))" by (rule run_exec) simp
  then show "{r. \<exists>w'. exec R ?t w r w'} \<noteq> {}" by blast
  have "achieves R (\<lambda>_. True) ?t (\<lambda>r w. fst r \<noteq> None \<and> snd r \<le> max_prepare_ts_retries)"
    unfolding coordinate_two_phase_commit_with_mode_def
    by (cases "plan_two_phase_commit (co_catalog env) tx source pm")
      (auto intro!: achieves_ready stable_const achieves_bind [OF attempt_loop_returns] split: prod.splits)
  then show "{r. \<exists>w'. exec R ?t w r w'} \<subseteq> {(Some x, n) | x n. n \<le> 8}"
    unfolding achieves_def max_prepare_ts_retries_def by fastforce
qed

end
