(* ===== verification/TwoPhaseService.thy ===== *)
theory TwoPhaseService
  imports TwoPhaseCoordinator
begin

text \<open>
  Two-phase commit between nodes: the gRPC service of a participant, from
  \<open>crates/local_backend/src/two_phase_service.rs\<close>, and the client that the
  coordinator and the service itself use, from \<open>crates/database/src/two_phase.rs\<close>.

  A follower of the partition's Raft group forwards a request to the leader, whose
  service may forward it again; \<open>hops\<close> bounds how often, as the timeout of the
  first request does.  \<open>rpc_env\<close> has the calls that leave this code.  Of a gRPC
  status the code, the message and whether its details carry OCC metadata are
  kept; other error metadata is left out.
\<close>

section \<open>Statuses and responses\<close>

datatype grpc_code = Unavailable | InvalidArgument | FailedPrecondition | ResourceExhausted | Internal

record grpc_status =
  st_code :: grpc_code
  st_message :: string
  st_occ :: bool

definition status :: "grpc_code \<Rightarrow> string \<Rightarrow> grpc_status" where
  "status code msg = \<lparr>st_code = code, st_message = msg, st_occ = False\<rparr>"

definition status_from_anyhow :: "anyhow_error \<Rightarrow> grpc_status" where
  "status_from_anyhow e =
     \<lparr>st_code = if err_is_occ e then ResourceExhausted else Internal, st_message = err_format e, st_occ = err_is_occ e\<rparr>"

text \<open>\<open>show_status\<close> and \<open>occ_message\<close> stand for how a status and OCC metadata are displayed.\<close>

definition status_into_anyhow :: "(grpc_code \<Rightarrow> string \<Rightarrow> string) \<Rightarrow> string \<Rightarrow> grpc_status \<Rightarrow> anyhow_error" where
  "status_into_anyhow show_status occ_message st =
     (let e = anyhow (show_status (st_code st) (st_message st)) in
      if st_occ st then (with_context occ_message e)\<lparr>err_is_occ := True\<rparr>
      else if st_code st = ResourceExhausted then with_context ''Your request couldn't be completed. Try again later.'' e
      else e)"

definition prepare_timestamp_too_low_error :: "timestamp \<Rightarrow> timestamp \<Rightarrow> anyhow_error" where
  "prepare_timestamp_too_low_error proposed required =
     (anyhow ''2PC Prepare assigned ts but this participant requires a higher ts'')\<lparr>err_too_low := Some (proposed, required)\<rparr>"

record prepare_response_proto =
  pr_prepare_ts :: u64
  pr_required_prepare_ts :: "u64 option"

definition prepare_response :: "string \<Rightarrow> anyhow_error + timestamp \<Rightarrow> grpc_status + prepare_response_proto" where
  "prepare_response ctx result =
     (case result of
        Inr ts \<Rightarrow> Inr \<lparr>pr_prepare_ts = ts, pr_required_prepare_ts = None\<rparr>
      | Inl e \<Rightarrow>
          (case prepare_timestamp_too_low e of
             Some (proposed, required) \<Rightarrow> Inr \<lparr>pr_prepare_ts = proposed, pr_required_prepare_ts = Some required\<rparr>
           | None \<Rightarrow> Inl (status_from_anyhow (with_context ctx e))))"

definition validate_reads_response :: "string \<Rightarrow> anyhow_error + unit \<Rightarrow> grpc_status + u64 option" where
  "validate_reads_response ctx result =
     (case result of
        Inr _ \<Rightarrow> Inr None
      | Inl e \<Rightarrow>
          (case prepare_timestamp_too_low e of
             Some (_, required) \<Rightarrow> Inr (Some required)
           | None \<Rightarrow> Inl (status_from_anyhow (with_context ctx e))))"

definition handle_response ::
  "(grpc_code \<Rightarrow> string \<Rightarrow> string) \<Rightarrow> string \<Rightarrow> string \<Rightarrow> grpc_status + 'a \<Rightarrow> anyhow_error + 'a" where
  "handle_response show_status occ_message ctx response =
     (case response of
        Inl st \<Rightarrow> Inl (with_context ctx (status_into_anyhow show_status occ_message st))
      | Inr x \<Rightarrow> Inr x)"

text \<open>What the client makes of a response.\<close>

definition client_prepare_result ::
  "(grpc_code \<Rightarrow> string \<Rightarrow> string) \<Rightarrow> string \<Rightarrow> grpc_status + prepare_response_proto \<Rightarrow> anyhow_error + timestamp" where
  "client_prepare_result show_status occ_message response =
     and_then (handle_response show_status occ_message ''gRPC Prepare failed'' response) (\<lambda>proto.
     case pr_required_prepare_ts proto of
       Some required \<Rightarrow>
         and_then (lift_ts (ts_from_u64 (pr_prepare_ts proto))) (\<lambda>proposed.
         and_then (lift_ts (ts_from_u64 required)) (\<lambda>required.
         Inl (prepare_timestamp_too_low_error proposed required)))
     | None \<Rightarrow> lift_ts (ts_from_u64 (pr_prepare_ts proto)))"

definition client_validate_result ::
  "(grpc_code \<Rightarrow> string \<Rightarrow> string) \<Rightarrow> string \<Rightarrow> timestamp \<Rightarrow> grpc_status + u64 option \<Rightarrow> anyhow_error + unit" where
  "client_validate_result show_status occ_message validate_ts response =
     and_then (handle_response show_status occ_message ''gRPC ValidateReads failed'' response) (\<lambda>required.
     case required of
       Some required \<Rightarrow>
         and_then (lift_ts (ts_from_u64 required)) (\<lambda>required.
         Inl (prepare_timestamp_too_low_error validate_ts required))
     | None \<Rightarrow> Inr ())"

section \<open>The service\<close>

record service_raft =
  sr_genesis_ready :: bool
  sr_leader_ready :: bool
  sr_leader :: bool
  sr_leader_id :: u64

text \<open>
  The calls of a node, by its address: how requests and replies travel, the
  placement and Raft state of the node, and its committer.
\<close>

record ('w, 'd, 's, 'p) rpc_env =
  rp_send :: "string \<Rightarrow> 'w \<Rightarrow> (anyhow_error + unit) \<times> 'w"
  rp_reply :: "string \<Rightarrow> 'w \<Rightarrow> (anyhow_error + unit) \<times> 'w"
  rp_authenticate :: "string \<Rightarrow> 'w \<Rightarrow> (grpc_status + unit) \<times> 'w"
  rp_encode :: "('d, 's) participant_transaction \<Rightarrow> anyhow_error + string"
  rp_decode :: "string \<Rightarrow> anyhow_error + ('d, 's) participant_transaction"
  rp_version :: "string \<Rightarrow> 'w \<Rightarrow> placement_version"
  rp_load_placement :: "(string \<Rightarrow> 'w \<Rightarrow> (anyhow_error + 'p option) \<times> 'w) option"
  rp_install_placement :: "string \<Rightarrow> 'p \<Rightarrow> 'w \<Rightarrow> (anyhow_error + unit) \<times> 'w"
  rp_raft :: "string \<Rightarrow> 'w \<Rightarrow> service_raft option"
  rp_peers :: "string \<Rightarrow> (u64, string) btree_map option"
  rp_connect :: "string \<Rightarrow> ('w, anyhow_error + unit) task"
  rp_prepare :: "string \<Rightarrow> string \<Rightarrow> ('d, 's) participant_transaction \<Rightarrow> write_source \<Rightarrow> timestamp \<Rightarrow> partition_id list \<Rightarrow>
    ('w, anyhow_error + timestamp) task"
  rp_validate :: "string \<Rightarrow> string \<Rightarrow> ('d, 's) participant_transaction \<Rightarrow> write_source \<Rightarrow> timestamp \<Rightarrow> ('w, anyhow_error + unit) task"
  rp_commit :: "string \<Rightarrow> string \<Rightarrow> ('w, anyhow_error + timestamp) task"
  rp_rollback :: "string \<Rightarrow> string \<Rightarrow> ('w, anyhow_error + unit) task"
  rp_show :: "grpc_code \<Rightarrow> string \<Rightarrow> string"
  rp_occ_message :: string

definition refresh_placement_metadata :: "('w, 'd, 's, 'p) rpc_env \<Rightarrow> string \<Rightarrow> ('w, grpc_status + unit) task" where
  "refresh_placement_metadata env addr =
     (case rp_load_placement env of
        None \<Rightarrow> Ready (Inr ())
      | Some load \<Rightarrow>
          task_bind (call (load addr)) (\<lambda>loaded. case loaded of
              Inl e \<Rightarrow> Ready (Inl (status Unavailable (''Failed to refresh placement metadata before Prepare retry: '' @ err_format e)))
            | Inr None \<Rightarrow> Ready (Inr ())
            | Inr (Some metadata) \<Rightarrow>
                task_bind (call (rp_install_placement env addr metadata)) (\<lambda>r. Ready (case r of
                    Inl e \<Rightarrow> Inl (status FailedPrecondition
                                   (''Refreshed placement metadata but local state is still invalid: '' @ err_format e))
                  | Inr _ \<Rightarrow> Inr ()))))"

definition ensure_placement_version :: "('w, 'd, 's, 'p) rpc_env \<Rightarrow> string \<Rightarrow> placement_version \<Rightarrow> ('w, grpc_status + unit) task" where
  "ensure_placement_version env addr requested =
     task_bind (call (\<lambda>w. (rp_version env addr w, w))) (\<lambda>local_version.
     if local_version = requested then Ready (Inr ())
     else
       try_bind (refresh_placement_metadata env addr) (\<lambda>_.
       task_bind (call (\<lambda>w. (rp_version env addr w, w))) (\<lambda>local_version.
       Ready (if local_version = requested then Inr ()
              else Inl (status FailedPrecondition ''Prepare rejected after placement metadata refresh'')))))"

text \<open>The address of the leader, when the request has to be forwarded.\<close>

definition leader_client :: "('w, 'd, 's, 'p) rpc_env \<Rightarrow> string \<Rightarrow> ('w, grpc_status + string option) task" where
  "leader_client env addr =
     task_bind (call (\<lambda>w. (rp_raft env addr w, w))) (\<lambda>raft. case raft of
         None \<Rightarrow> Ready (Inr None)
       | Some state \<Rightarrow>
           if \<not> sr_genesis_ready state
           then Ready (Inl (status Unavailable ''Canonical cluster genesis is not Raft-confirmed by every partition''))
           else if sr_leader_ready state then Ready (Inr None)
           else if sr_leader state
           then Ready (Inl (status Unavailable ''Raft leader is still applying its current-term barrier''))
           else if sr_leader_id state = 0
           then Ready (Inl (status Unavailable ''No elected Raft leader for this partition yet''))
           else
             (case Option.bind (rp_peers env addr) (\<lambda>urls. bt_get urls (sr_leader_id state)) of
                None \<Rightarrow> Ready (Inl (status Unavailable ''Missing RAFT_PEERS entry for Raft leader node''))
              | Some leader_addr \<Rightarrow>
                  task_bind (rp_connect env leader_addr) (\<lambda>r. Ready (case r of
                      Inl e \<Rightarrow> Inl (status Unavailable (''Failed to connect to Raft leader: '' @ err_format e))
                    | Inr _ \<Rightarrow> Inr (Some leader_addr)))))"

definition invalid_argument :: "string \<Rightarrow> anyhow_error + 'a \<Rightarrow> grpc_status + 'a" where
  "invalid_argument what r =
     (case r of Inl e \<Rightarrow> Inl (status InvalidArgument (what @ err_format e)) | Inr x \<Rightarrow> Inr x)"

definition status_context :: "string \<Rightarrow> anyhow_error + 'a \<Rightarrow> grpc_status + 'a" where
  "status_context ctx r = (case r of Inl e \<Rightarrow> Inl (status_from_anyhow (with_context ctx e)) | Inr x \<Rightarrow> Inr x)"

text \<open>The handlers.  \<open>forward\<close> is the client's call to the leader.\<close>

definition service_prepare ::
  "('w, 'd, 's, 'p) rpc_env \<Rightarrow> (string \<Rightarrow> ('d, 's) participant_transaction \<Rightarrow> write_source \<Rightarrow> timestamp \<Rightarrow> ('w, anyhow_error + timestamp) task) \<Rightarrow>
   string \<Rightarrow> string \<Rightarrow> string \<Rightarrow> string \<Rightarrow> u64 \<Rightarrow> placement_version \<Rightarrow> partition_id list \<Rightarrow>
   ('w, grpc_status + prepare_response_proto) task" where
  "service_prepare env forward addr txn payload source prepare_ts version ps =
     try_bind (call (rp_authenticate env addr)) (\<lambda>_.
     try_bind (Ready (invalid_argument ''Invalid prepare payload: '' (rp_decode env payload))) (\<lambda>tx.
     try_bind (Ready (invalid_argument ''Invalid prepare timestamp: '' (lift_ts (ts_from_u64 prepare_ts)))) (\<lambda>ts.
     try_bind (ensure_placement_version env addr version) (\<lambda>_.
     try_bind (leader_client env addr) (\<lambda>leader. case leader of
         Some leader_addr \<Rightarrow>
           task_bind (forward leader_addr tx (Some source) ts) (\<lambda>r. Ready (prepare_response ''Leader Prepare failed'' r))
       | None \<Rightarrow>
           task_bind (rp_prepare env addr txn tx (Some source) ts ps) (\<lambda>r. Ready (prepare_response ''Prepare failed'' r)))))))"

definition service_validate_reads ::
  "('w, 'd, 's, 'p) rpc_env \<Rightarrow> (string \<Rightarrow> ('d, 's) participant_transaction \<Rightarrow> write_source \<Rightarrow> timestamp \<Rightarrow> ('w, anyhow_error + unit) task) \<Rightarrow>
   string \<Rightarrow> string \<Rightarrow> string \<Rightarrow> string \<Rightarrow> u64 \<Rightarrow> placement_version \<Rightarrow> ('w, grpc_status + u64 option) task" where
  "service_validate_reads env forward addr txn payload source validate_ts version =
     try_bind (call (rp_authenticate env addr)) (\<lambda>_.
     try_bind (Ready (invalid_argument ''Invalid ValidateReads payload: '' (rp_decode env payload))) (\<lambda>tx.
     try_bind (Ready (invalid_argument ''Invalid ValidateReads timestamp: '' (lift_ts (ts_from_u64 validate_ts)))) (\<lambda>ts.
     try_bind (ensure_placement_version env addr version) (\<lambda>_.
     try_bind (leader_client env addr) (\<lambda>leader. case leader of
         Some leader_addr \<Rightarrow>
           task_bind (forward leader_addr tx (Some source) ts) (\<lambda>r. Ready (validate_reads_response ''Leader ValidateReads failed'' r))
       | None \<Rightarrow>
           task_bind (rp_validate env addr txn tx (Some source) ts) (\<lambda>r. Ready (validate_reads_response ''ValidateReads failed'' r)))))))"

definition service_commit_prepared ::
  "('w, 'd, 's, 'p) rpc_env \<Rightarrow> (string \<Rightarrow> ('w, anyhow_error + u64) task) \<Rightarrow> string \<Rightarrow> string \<Rightarrow> ('w, grpc_status + u64) task" where
  "service_commit_prepared env forward addr txn =
     try_bind (call (rp_authenticate env addr)) (\<lambda>_.
     try_bind (leader_client env addr) (\<lambda>leader. case leader of
         Some leader_addr \<Rightarrow>
           task_bind (forward leader_addr) (\<lambda>r. Ready (status_context ''Leader CommitPrepared failed'' r))
       | None \<Rightarrow> task_bind (rp_commit env addr txn) (\<lambda>r. Ready (status_context ''CommitPrepared failed'' r))))"

definition service_rollback_prepared ::
  "('w, 'd, 's, 'p) rpc_env \<Rightarrow> (string \<Rightarrow> ('w, anyhow_error + unit) task) \<Rightarrow> string \<Rightarrow> string \<Rightarrow> ('w, grpc_status + unit) task" where
  "service_rollback_prepared env forward addr txn =
     try_bind (call (rp_authenticate env addr)) (\<lambda>_.
     try_bind (leader_client env addr) (\<lambda>leader. case leader of
         Some leader_addr \<Rightarrow>
           task_bind (forward leader_addr) (\<lambda>r. Ready (status_context ''Leader RollbackPrepared failed'' r))
       | None \<Rightarrow> task_bind (rp_rollback env addr txn) (\<lambda>r. Ready (status_context ''RollbackPrepared failed'' r))))"

section \<open>The client\<close>

text \<open>A request travels to the service, and its response back.\<close>

definition over_network :: "('w, 'd, 's, 'p) rpc_env \<Rightarrow> string \<Rightarrow> ('w, 'b) task \<Rightarrow> ('b \<Rightarrow> anyhow_error + 'a) \<Rightarrow> ('w, anyhow_error + 'a) task" where
  "over_network env addr serve receive =
     try_bind (call (rp_send env addr)) (\<lambda>_.
     task_bind serve (\<lambda>response.
     try_bind (call (rp_reply env addr)) (\<lambda>_. Ready (receive response))))"

fun client_prepare ::
  "nat \<Rightarrow> ('w, 'd, 's, 'p) rpc_env \<Rightarrow> string \<Rightarrow> string \<Rightarrow> ('d, 's) participant_transaction \<Rightarrow> write_source \<Rightarrow> timestamp \<Rightarrow>
   placement_version \<Rightarrow> partition_id list \<Rightarrow> ('w, anyhow_error + timestamp) task" where
  "client_prepare 0 env addr txn tx source prepare_ts version ps = Ready (Inl (anyhow ''deadline has elapsed''))"
| "client_prepare (Suc hops) env addr txn tx source prepare_ts version ps =
     (case rp_encode env tx of
        Inl e \<Rightarrow> Ready (Inl e)
      | Inr payload \<Rightarrow>
          over_network env addr
            (service_prepare env
               (\<lambda>leader tx source ts. client_prepare hops env leader txn tx source ts version ps)
               addr txn payload (case source of None \<Rightarrow> [] | Some s \<Rightarrow> s) prepare_ts version ps)
            (client_prepare_result (rp_show env) (rp_occ_message env)))"

fun client_validate_reads ::
  "nat \<Rightarrow> ('w, 'd, 's, 'p) rpc_env \<Rightarrow> string \<Rightarrow> string \<Rightarrow> ('d, 's) participant_transaction \<Rightarrow> write_source \<Rightarrow> timestamp \<Rightarrow>
   placement_version \<Rightarrow> ('w, anyhow_error + unit) task" where
  "client_validate_reads 0 env addr txn tx source validate_ts version = Ready (Inl (anyhow ''deadline has elapsed''))"
| "client_validate_reads (Suc hops) env addr txn tx source validate_ts version =
     (case rp_encode env tx of
        Inl e \<Rightarrow> Ready (Inl e)
      | Inr payload \<Rightarrow>
          over_network env addr
            (service_validate_reads env
               (\<lambda>leader tx source ts. client_validate_reads hops env leader txn tx source ts version)
               addr txn payload (case source of None \<Rightarrow> [] | Some s \<Rightarrow> s) validate_ts version)
            (client_validate_result (rp_show env) (rp_occ_message env) validate_ts))"

fun client_commit_prepared :: "nat \<Rightarrow> ('w, 'd, 's, 'p) rpc_env \<Rightarrow> string \<Rightarrow> string \<Rightarrow> ('w, anyhow_error + u64) task" where
  "client_commit_prepared 0 env addr txn = Ready (Inl (anyhow ''deadline has elapsed''))"
| "client_commit_prepared (Suc hops) env addr txn =
     over_network env addr
       (service_commit_prepared env (\<lambda>leader. client_commit_prepared hops env leader txn) addr txn)
       (handle_response (rp_show env) (rp_occ_message env) ''gRPC CommitPrepared failed'')"

fun client_rollback_prepared :: "nat \<Rightarrow> ('w, 'd, 's, 'p) rpc_env \<Rightarrow> string \<Rightarrow> string \<Rightarrow> ('w, anyhow_error + unit) task" where
  "client_rollback_prepared 0 env addr txn = Ready (Inl (anyhow ''deadline has elapsed''))"
| "client_rollback_prepared (Suc hops) env addr txn =
     over_network env addr
       (service_rollback_prepared env (\<lambda>leader. client_rollback_prepared hops env leader txn) addr txn)
       (handle_response (rp_show env) (rp_occ_message env) ''gRPC RollbackPrepared failed'')"

section \<open>Remote calls keep the contract\<close>

text \<open>
  What the nodes promise for calls on their own committers carries over to calls
  through the service: the addresses of a partition's peers serve it, and a
  transaction survives its encoding.
\<close>

locale participants = rely other ok
  for other :: "'w \<Rightarrow> 'w \<Rightarrow> bool" and ok :: "'w \<Rightarrow> bool" +
  fixes env :: "('w, 'd, 's, 'p) rpc_env"
    and serves :: "string \<Rightarrow> partition_id \<Rightarrow> bool"
    and voted :: "string \<Rightarrow> partition_id \<Rightarrow> timestamp \<Rightarrow> ('d, 's) participant_transaction \<Rightarrow> 'w \<Rightarrow> bool"
    and reads_valid :: "string \<Rightarrow> partition_id \<Rightarrow> timestamp \<Rightarrow> ('d, 's) participant_transaction \<Rightarrow> 'w \<Rightarrow> bool"
    and published :: "string \<Rightarrow> partition_id \<Rightarrow> timestamp \<Rightarrow> 'w \<Rightarrow> bool"
  assumes stable_voted: "stable_under other (voted txn p ts tx)"
    and stable_reads_valid: "stable_under other (reads_valid txn p ts tx)"
    and stable_published: "stable_under other (published txn p ts)"
    and step_network: "other w (snd (rp_send env addr w))" "other w (snd (rp_reply env addr w))" "other w (snd (rp_authenticate env addr w))"
    and step_placement: "rp_load_placement env = Some load \<Longrightarrow> other w (snd (load addr w))"
      "other w (snd (rp_install_placement env addr metadata w))"
    and step_node: "keeps other (rp_connect env addr)" "keeps other (rp_prepare env addr txn tx source ts ps)"
      "keeps other (rp_validate env addr txn tx source ts)" "keeps other (rp_commit env addr txn)"
      "keeps other (rp_rollback env addr txn)"
    and codec_law: "ok w \<Longrightarrow> rp_encode env tx = Inr payload \<Longrightarrow> rp_decode env payload = Inr tx"
    and peers_law: "ok w \<Longrightarrow> serves addr p \<Longrightarrow> rp_peers env addr = Some urls \<Longrightarrow> bt_get urls leader = Some addr' \<Longrightarrow> serves addr' p"
    and prepare_law: "serves addr p \<Longrightarrow>
      achieves other ok (rp_prepare env addr txn tx source ts ps) (\<lambda>r w. \<forall>ts'. r = Inr ts' \<longrightarrow> voted txn p ts' tx w)"
    and validate_law: "serves addr p \<Longrightarrow>
      achieves other ok (rp_validate env addr txn tx source ts) (\<lambda>r w. \<forall>u. r = Inr u \<longrightarrow> reads_valid txn p ts tx w)"
    and commit_law: "serves addr p \<Longrightarrow>
      achieves other ok (rp_commit env addr txn) (\<lambda>r w. \<forall>ts. r = Inr ts \<longrightarrow> published txn p ts w)"
begin

lemmas step_rules = step_network step_placement step_node reflpD [OF other_refl]

lemma keeps_placement: "keeps other (ensure_placement_version env addr version)"
  unfolding ensure_placement_version_def refresh_placement_metadata_def
  by (auto intro!: keeps_rules step_rules split: option.splits sum.splits)

lemma keeps_leader: "keeps other (leader_client env addr)"
  unfolding leader_client_def
  by (auto intro!: keeps_rules step_rules split: option.splits)

lemmas keeps_service = keeps_rules step_rules keeps_placement keeps_leader

lemma keeps_client_prepare: "keeps other (client_prepare hops env addr txn tx source ts version ps)"
  by (induction hops arbitrary: addr tx source ts)
    (auto simp: over_network_def service_prepare_def intro!: keeps_service split: sum.splits option.splits)

lemma keeps_client_validate: "keeps other (client_validate_reads hops env addr txn tx source ts version)"
  by (induction hops arbitrary: addr tx source ts)
    (auto simp: over_network_def service_validate_reads_def intro!: keeps_service split: sum.splits option.splits)

lemma keeps_client_commit: "keeps other (client_commit_prepared hops env addr txn)"
  by (induction hops arbitrary: addr)
    (auto simp: over_network_def service_commit_prepared_def intro!: keeps_service split: sum.splits option.splits)

lemma keeps_client_rollback: "keeps other (client_rollback_prepared hops env addr txn)"
  by (induction hops arbitrary: addr)
    (auto simp: over_network_def service_rollback_prepared_def intro!: keeps_service split: sum.splits option.splits)

lemma in_ok_world: "(\<And>w. ok w \<Longrightarrow> achieves other ok t Q) \<Longrightarrow> achieves other ok t Q"
  unfolding achieves_def by blast

lemma leader_post:
  assumes "serves addr p"
  shows "achieves other ok (leader_client env addr) (outcome (\<lambda>leader w. \<forall>addr'. leader = Some addr' \<longrightarrow> serves addr' p))"
proof (rule in_ok_world)
  fix w0
  assume w0: "ok w0"
  let ?Q = "\<lambda>leader w. \<forall>addr'. leader = Some addr' \<longrightarrow> serves addr' p"
  have Q: "stable_under other (?Q leader)" for leader by (rule stable_const)
  have read: "achieves other ok (call (\<lambda>w. (rp_raft env addr w, w))) (\<lambda>_. ok)"
    by (rule quiet_call) (simp add: reflpD [OF other_refl])
  have connected: "achieves other ok (task_bind (rp_connect env leader_addr) (\<lambda>r. Ready (case r of
                      Inl e \<Rightarrow> Inl (status Unavailable (''Failed to connect to Raft leader: '' @ err_format e))
                    | Inr _ \<Rightarrow> Inr (Some leader_addr)))) (outcome ?Q)" if "serves leader_addr p" for leader_addr
    by (rule achieves_bind [OF quiet_task [OF step_node(1)]])
      (use that in \<open>auto intro!: outcome_ready Q split: sum.split\<close>)
  show "achieves other ok (leader_client env addr) (outcome ?Q)"
    unfolding leader_client_def
    by (rule achieves_bind [OF read])
      (auto intro!: outcome_ready Q connected peers_law [OF w0 assms] simp: bind_eq_Some_conv split: option.split)
qed

text \<open>What the client reads off a response; a reply that is lost is an error.\<close>

definition replied :: "('b \<Rightarrow> anyhow_error + 'a) \<Rightarrow> ('a \<Rightarrow> 'w \<Rightarrow> bool) \<Rightarrow> 'b \<Rightarrow> 'w \<Rightarrow> bool" where
  "replied receive Q response w \<longleftrightarrow> ok w \<and> (\<forall>x. receive response = Inr x \<longrightarrow> Q x w)"

lemma stable_replied: "(\<And>x. stable_under other (Q x)) \<Longrightarrow> stable_under other (replied receive Q response)"
  unfolding replied_def by (intro stable_ok stable_rules)

lemma over_network_post:
  assumes "achieves other ok serve (replied receive Q)" and Q: "\<And>x. stable_under other (Q x)"
  shows "achieves other ok (over_network env addr serve receive) (outcome Q)"
  unfolding over_network_def
proof (rule outcome_try [OF outcome_true [OF quiet_call [OF step_network(1)]] Q], simp, rule achieves_bind [OF assms(1)])
  fix response
  have "achieves other (\<lambda>w. ok w \<and> replied receive Q response w) (call (rp_reply env addr)) (outcome (\<lambda>_ w. True \<and> replied receive Q response w))"
    by (rule outcome_frame [OF outcome_true [OF quiet_call [OF step_network(2)]] _ stable_replied [OF Q]]) (intro keeps_call step_network)
  then have "achieves other (\<lambda>w. ok w \<and> replied receive Q response w)
      (try_bind (call (rp_reply env addr)) (\<lambda>_. Ready (receive response))) (outcome Q)"
    by (rule outcome_try [OF _ Q]) (rule outcome_ready [OF Q], auto simp: replied_def outcome_def split: sum.split)
  then show "achieves other (replied receive Q response) (try_bind (call (rp_reply env addr)) (\<lambda>_. Ready (receive response))) (outcome Q)"
    by (rule achieves_weaken) (simp_all add: replied_def)
qed

lemma replied_try:
  assumes "achieves other P t (outcome Q0)" "\<And>x. achieves other (\<lambda>w. ok w \<and> Q0 x w) (k x) (replied receive Q)"
    and "\<And>st x. receive (Inl st) \<noteq> Inr x" and Q: "\<And>x. stable_under other (Q x)"
  shows "achieves other P (try_bind t k) (replied receive Q)"
  unfolding try_bind_def
  by (rule outcome_cases [OF assms(1)])
    (auto intro!: achieves_ready stable_replied Q assms(2) simp: replied_def assms(3))

lemma replied_check:
  assumes "\<And>x. r = Inr x \<Longrightarrow> achieves other ok (k x) (replied receive Q)"
    and "\<And>st x. receive (Inl st) \<noteq> Inr x" and Q: "\<And>x. stable_under other (Q x)"
  shows "achieves other ok (try_bind (Ready r) k) (replied receive Q)"
  using assms(1) unfolding try_bind_def
  by (cases r) (auto intro!: achieves_ready stable_replied Q simp: replied_def assms(2))

lemma replied_result:
  assumes "achieves other ok t (outcome Q)" and Q: "\<And>x. stable_under other (Q x)"
    and "\<And>r x. receive (answer r) = Inr x \<Longrightarrow> r = Inr x"
  shows "achieves other ok (task_bind t (\<lambda>r. Ready (answer r))) (replied receive Q)"
  by (rule achieves_bind [OF assms(1)], rule achieves_ready [OF stable_replied [OF Q]])
    (auto simp: replied_def outcome_def dest!: assms(3) split: sum.splits)

text \<open>The checks before a handler reaches a committer, its own or the leader's.\<close>

lemma authenticated: "achieves other ok (call (rp_authenticate env addr)) (outcome (\<lambda>_ w. True))"
  by (rule outcome_true [OF quiet_call]) (rule step_network(3))

lemma placement_checked: "achieves other ok (ensure_placement_version env addr version) (outcome (\<lambda>_ w. True))"
  by (rule outcome_true [OF quiet_task [OF keeps_placement]])

lemma replied_leader:
  assumes "serves addr p" and own: "achieves other ok (k None) (replied receive Q)"
    and fwd: "\<And>a. serves a p \<Longrightarrow> achieves other ok (k (Some a)) (replied receive Q)"
    and "\<And>st x. receive (Inl st) \<noteq> Inr x" and Q: "\<And>x. stable_under other (Q x)"
  shows "achieves other ok (try_bind (leader_client env addr) k) (replied receive Q)"
proof (rule replied_try [OF leader_post [OF assms(1)]])
  fix leader
  show "achieves other (\<lambda>w. ok w \<and> (\<forall>addr'. leader = Some addr' \<longrightarrow> serves addr' p)) (k leader) (replied receive Q)"
    using own fwd by (cases leader) (auto simp: achieves_def)
qed (simp_all add: assms(4) Q)

lemma replied_guarded:
  assumes "serves addr p" "rp_decode env payload = Inr tx"
    and own: "achieves other ok (k tx ts None) (replied receive Q)"
    and fwd: "\<And>a. serves a p \<Longrightarrow> achieves other ok (k tx ts (Some a)) (replied receive Q)"
    and receive: "\<And>st x. receive (Inl st) \<noteq> Inr x" and Q: "\<And>x. stable_under other (Q x)"
  shows "achieves other ok
    (try_bind (call (rp_authenticate env addr)) (\<lambda>_.
     try_bind (Ready (invalid_argument bad_payload (rp_decode env payload))) (\<lambda>tx.
     try_bind (Ready (invalid_argument bad_ts (lift_ts (ts_from_u64 ts)))) (\<lambda>ts.
     try_bind (ensure_placement_version env addr version) (\<lambda>_.
     try_bind (leader_client env addr) (k tx ts)))))) (replied receive Q)"
proof -
  have leader: "achieves other ok (try_bind (leader_client env addr) (k tx ts)) (replied receive Q)"
    by (rule replied_leader [OF assms(1) own fwd]) (simp_all add: receive Q)
  have placed: "achieves other ok
      (try_bind (ensure_placement_version env addr version) (\<lambda>_. try_bind (leader_client env addr) (k tx ts))) (replied receive Q)"
    by (rule replied_try [OF placement_checked]) (simp_all add: leader receive Q)
  have "achieves other ok (try_bind (Ready (invalid_argument bad_ts (lift_ts (ts_from_u64 ts)))) (\<lambda>ts.
      try_bind (ensure_placement_version env addr version) (\<lambda>_. try_bind (leader_client env addr) (k tx ts)))) (replied receive Q)"
    by (rule replied_check)
      (use placed in \<open>auto simp: invalid_argument_def lift_ts_def ts_from_u64_def receive Q split: if_splits\<close>)
  then show ?thesis
    by (intro replied_try [OF authenticated]) (simp_all add: assms(2) invalid_argument_def try_bind_def receive Q)
qed

end

lemma client_prepare_result_Inr:
  "client_prepare_result sh occ (prepare_response ctx r) = Inr ts \<Longrightarrow> r = Inr ts"
  by (auto simp: client_prepare_result_def prepare_response_def handle_response_def and_then_Inr lift_ts_def ts_from_u64_def
      split: sum.splits option.splits prod.splits if_splits)

lemma client_validate_result_Inr:
  "client_validate_result sh occ ts (validate_reads_response ctx r) = Inr u \<Longrightarrow> r = Inr u"
  by (auto simp: client_validate_result_def validate_reads_response_def handle_response_def and_then_Inr lift_ts_def
      split: sum.splits option.splits prod.splits)

lemma client_result_Inl [simp]:
  "client_prepare_result sh occ (Inl st) \<noteq> Inr ts" "client_validate_result sh occ ts (Inl st) \<noteq> Inr u"
  "handle_response sh occ ctx (Inl st) \<noteq> Inr x" "handle_response sh occ ctx (Inr y) = Inr y"
  by (simp_all add: client_prepare_result_def client_validate_result_def handle_response_def)

context participants
begin

lemma client_prepare_post:
  "serves addr p \<Longrightarrow> achieves other ok (client_prepare hops env addr txn tx source ts version ps) (outcome (\<lambda>ts'. voted txn p ts' tx))"
proof (induction hops arbitrary: addr source)
  case 0
  show ?case by (auto intro!: outcome_ready stable_voted)
next
  case (Suc hops)
  show ?case
  proof (cases "rp_encode env tx")
    case (Inl e)
    then show ?thesis by (auto intro!: outcome_ready stable_voted)
  next
    case (Inr payload)
    show ?thesis
    proof (rule in_ok_world)
    fix w0
    assume "ok w0"
    from codec_law [OF this Inr] have decode: "rp_decode env payload = Inr tx" .
    have "achieves other ok (service_prepare env (\<lambda>leader tx source ts. client_prepare hops env leader txn tx source ts version ps)
        addr txn payload source' ts version ps)
      (replied (client_prepare_result (rp_show env) (rp_occ_message env)) (\<lambda>ts'. voted txn p ts' tx))" for source'
      unfolding service_prepare_def
      by (rule replied_guarded [OF Suc.prems decode])
        (auto intro!: replied_result stable_voted Suc.IH event_task [OF step_node(2)] prepare_law Suc.prems
          dest: client_prepare_result_Inr)
    then show "achieves other ok (client_prepare (Suc hops) env addr txn tx source ts version ps) (outcome (\<lambda>ts'. voted txn p ts' tx))"
      by (simp add: Inr over_network_post stable_voted)
    qed
  qed
qed

lemma client_validate_post:
  "serves addr p \<Longrightarrow> achieves other ok (client_validate_reads hops env addr txn tx source ts version) (outcome (\<lambda>_. reads_valid txn p ts tx))"
proof (induction hops arbitrary: addr source)
  case 0
  show ?case by (auto intro!: outcome_ready stable_reads_valid)
next
  case (Suc hops)
  show ?case
  proof (cases "rp_encode env tx")
    case (Inl e)
    then show ?thesis by (auto intro!: outcome_ready stable_reads_valid)
  next
    case (Inr payload)
    show ?thesis
    proof (rule in_ok_world)
    fix w0
    assume "ok w0"
    from codec_law [OF this Inr] have decode: "rp_decode env payload = Inr tx" .
    have "achieves other ok (service_validate_reads env (\<lambda>leader tx source ts. client_validate_reads hops env leader txn tx source ts version)
        addr txn payload source' ts version)
      (replied (client_validate_result (rp_show env) (rp_occ_message env) ts) (\<lambda>_. reads_valid txn p ts tx))" for source'
      unfolding service_validate_reads_def
      by (rule replied_guarded [OF Suc.prems decode])
        (auto intro!: replied_result stable_reads_valid Suc.IH event_task [OF step_node(3)] validate_law Suc.prems
          dest: client_validate_result_Inr)
    then show "achieves other ok (client_validate_reads (Suc hops) env addr txn tx source ts version) (outcome (\<lambda>_. reads_valid txn p ts tx))"
      by (simp add: Inr over_network_post stable_reads_valid)
    qed
  qed
qed

lemma client_commit_post:
  "serves addr p \<Longrightarrow> achieves other ok (client_commit_prepared hops env addr txn) (outcome (published txn p))"
proof (induction hops arbitrary: addr)
  case 0
  show ?case by (auto intro!: outcome_ready stable_published)
next
  case (Suc hops)
  have served: "achieves other ok (try_bind (leader_client env addr) (\<lambda>leader. case leader of
         Some leader_addr \<Rightarrow>
           task_bind (client_commit_prepared hops env leader_addr txn) (\<lambda>r. Ready (status_context ''Leader CommitPrepared failed'' r))
       | None \<Rightarrow> task_bind (rp_commit env addr txn) (\<lambda>r. Ready (status_context ''CommitPrepared failed'' r))))
      (replied (handle_response (rp_show env) (rp_occ_message env) ''gRPC CommitPrepared failed'') (published txn p))"
    by (rule replied_leader [OF Suc.prems])
      (auto intro!: replied_result stable_published Suc.IH event_task [OF step_node(4)] commit_law Suc.prems
        simp: status_context_def split: sum.splits)
  have "achieves other ok (service_commit_prepared env (\<lambda>leader. client_commit_prepared hops env leader txn) addr txn)
      (replied (handle_response (rp_show env) (rp_occ_message env) ''gRPC CommitPrepared failed'') (published txn p))"
    unfolding service_commit_prepared_def
    by (rule replied_try [OF authenticated]) (simp_all add: served stable_published)
  then show ?case by (simp add: over_network_post stable_published)
qed

end

end
