(* ===== verification/TwoPhaseCluster.thy ===== *)
theory TwoPhaseCluster
  imports TwoPhaseService CommitHistory
begin

text \<open>
  A cluster of committers that run two-phase commit: one committer for every
  partition, the service of \<open>TwoPhaseService\<close> in front of it, the decision log
  that they share, and the coordinator of \<open>TwoPhaseCoordinator\<close> on one of them.
  The requests of \<open>CommitterClient\<close> and the arms of the committer's main loop that
  serve them are from \<open>crates/database/src/committer.rs\<close>.

  The world keeps the states it has gone through, so that a theorem can say what
  has happened.  What the network, the clocks, Raft and persistence answer is read
  from a script by the number of the step; \<open>si_patience\<close> bounds how often a
  caller looks for its answer before its channel is dropped.
\<close>

section \<open>The end of a prepared commit\<close>

text \<open>
  The arms of the main loop for a prepared commit that Raft rejected or accepted.
  \<open>persisted\<close> is the answer of Raft and persistence, \<open>marker\<close>, \<open>applied\<close> and
  \<open>deleted\<close> are the answers to the Raft marker, to \<open>mark_applied\<close> with the
  publication of the delta, and to the deletion of the redo record.  A committer
  that fails after the commit is persistent stops.
\<close>

datatype prepared_end = PreparedRejected anyhow_error "nat list" | PreparedDone timestamp "nat list" | PreparedBroken anyhow_error "nat list"

definition fail_prepared_committed_write ::
  "string \<Rightarrow> anyhow_error \<Rightarrow> ('d, 'v, 'n) committer \<Rightarrow> prepared_end \<times> ('d, 'v, 'n) committer" where
  "fail_prepared_committed_write txn e cm =
     (case send_prepared_commit_waiters txn cm of
        (cm', channels) \<Rightarrow> (PreparedBroken (anyhow (''Failed after prepared persistence commit: '' @ err_format e)) channels, cm'))"

definition finish_prepared_commit ::
  "('d, 's, 'v, 'n) commit_env \<Rightarrow> (nat \<Rightarrow> bool) \<Rightarrow> (anyhow_error + unit) \<Rightarrow> (anyhow_error + unit) \<Rightarrow> (anyhow_error + unit) \<Rightarrow>
   (anyhow_error + unit) \<Rightarrow> string \<Rightarrow> timestamp \<Rightarrow> u64 \<Rightarrow> ('d, 'v, 'n) committer \<Rightarrow> (prepared_end \<times> ('d, 'v, 'n) committer) option" where
  "finish_prepared_commit env closed persisted marker applied deleted txn cts bytes cm =
     (case persisted of
        Inl e \<Rightarrow> (case send_prepared_commit_waiters txn cm of (cm', channels) \<Rightarrow> Some (PreparedRejected e channels, cm'))
      | Inr _ \<Rightarrow>
          (case marker of
             Inl e \<Rightarrow> Some (fail_prepared_committed_write txn e cm)
           | Inr _ \<Rightarrow>
               (case publish_prepared_commit env closed txn cts bytes cm of
                  None \<Rightarrow> None
                | Some (Inl e, cm1) \<Rightarrow> Some (fail_prepared_committed_write txn e cm1)
                | Some (Inr _, cm1) \<Rightarrow>
                    (case applied of
                       Inl e \<Rightarrow> Some (fail_prepared_committed_write txn e cm1)
                     | Inr _ \<Rightarrow>
                         (case delete_two_phase_redo deleted txn cm1 of
                            (Inl e, cm2) \<Rightarrow> Some (fail_prepared_committed_write txn e cm2)
                          | (Inr _, cm2) \<Rightarrow>
                              (case send_prepared_commit_waiters txn cm2 of
                                 (cm3, channels) \<Rightarrow> Some (PreparedDone cts channels, cm3)))))))"

section \<open>The world\<close>

record ('d, 'v, 'n) cluster =
  cl_nodes :: "partition_id \<Rightarrow> ('d, 'v, 'n) committer"
  cl_decisions :: mem_log
  cl_stopped :: "partition_id list"
  cl_commit_replies :: "partition_id \<times> string \<times> nat \<Rightarrow> (anyhow_error + timestamp) option"
  cl_rollback_replies :: "partition_id \<times> string \<times> nat \<Rightarrow> (anyhow_error + unit) option"
  cl_tick :: nat
  cl_past :: "((partition_id \<Rightarrow> ('d, 'v, 'n) committer) \<times> mem_log) list"

record ('d, 's, 'v, 'n) site =
  si_env :: "('d, 's, 'v, 'n) commit_env"
  si_encode :: "('d, 's) participant_transaction \<Rightarrow> anyhow_error + string"
  si_decode :: "string \<Rightarrow> anyhow_error + ('d, 's) participant_transaction"
  si_sha :: "u8 list \<Rightarrow> string"
  si_home :: "string \<Rightarrow> partition_id"
  si_peers :: "string \<Rightarrow> (u64, string) btree_map option"
  si_patience :: nat
  si_hops :: nat
  si_closed :: "nat \<Rightarrow> bool"
  si_show :: "grpc_code \<Rightarrow> string \<Rightarrow> string"
  si_occ_message :: string
  si_network :: "nat \<Rightarrow> anyhow_error + unit"
  si_send :: "nat \<Rightarrow> anyhow_error + unit"
  si_authenticate :: "nat \<Rightarrow> grpc_status + unit"
  si_raft :: "string \<Rightarrow> nat \<Rightarrow> service_raft option"
  si_uuid :: "nat \<Rightarrow> string"
  si_oracle :: "nat \<Rightarrow> (timestamp \<Rightarrow> anyhow_error + timestamp) option"
  si_clock :: "nat \<Rightarrow> anyhow_error + timestamp"
  si_now :: "nat \<Rightarrow> u64"
  si_frontiers :: "nat \<Rightarrow> anyhow_error + unit"
  si_prepare_io :: "nat \<Rightarrow> prepare_io"
  si_propose :: "nat \<Rightarrow> anyhow_error + unit"
  si_late :: "nat \<Rightarrow> bool"
  si_persisted :: "nat \<Rightarrow> anyhow_error + unit"
  si_marker :: "nat \<Rightarrow> anyhow_error + unit"
  si_applied :: "nat \<Rightarrow> anyhow_error + unit"
  si_deleted :: "nat \<Rightarrow> anyhow_error + unit"
  si_rollback_quorum :: "nat \<Rightarrow> anyhow_error + unit"
  si_rollback_mark :: "nat \<Rightarrow> (anyhow_error + unit) option"
  si_bytes :: "nat \<Rightarrow> u64"
  si_pick :: "nat \<Rightarrow> nat"

definition remember :: "('d, 'v, 'n) cluster \<Rightarrow> ('d, 'v, 'n) cluster" where
  "remember w = w\<lparr>cl_tick := Suc (cl_tick w), cl_past := (cl_nodes w, cl_decisions w) # cl_past w\<rparr>"

text \<open>Something the world answers without a change of any node.\<close>

definition ask :: "(nat \<Rightarrow> 'a) \<Rightarrow> ('d, 'v, 'n) cluster \<Rightarrow> 'a \<times> ('d, 'v, 'n) cluster" where
  "ask f w = (f (cl_tick w), remember w)"

definition shutdown_error :: anyhow_error where
  "shutdown_error = anyhow ''Shutdown''"

text \<open>A message that the committer of a partition handles.  A panic stops it.\<close>

definition node_step ::
  "partition_id \<Rightarrow> (nat \<Rightarrow> ('d, 'v, 'n) committer \<Rightarrow> ((anyhow_error + 'a) \<times> ('d, 'v, 'n) committer) option) \<Rightarrow>
   ('d, 'v, 'n) cluster \<Rightarrow> (anyhow_error + 'a) \<times> ('d, 'v, 'n) cluster" where
  "node_step p f w =
     (if p \<in> set (cl_stopped w) then (Inl shutdown_error, remember w)
      else
        (case f (cl_tick w) (cl_nodes w p) of
           None \<Rightarrow> (Inl shutdown_error, remember (w\<lparr>cl_stopped := p # cl_stopped w\<rparr>))
         | Some (r, cm) \<Rightarrow> (r, remember (w\<lparr>cl_nodes := (cl_nodes w)(p := cm)\<rparr>))))"

section \<open>Requests to a committer\<close>

text \<open>The channel to the committer may be full or closed; then the request fails with no effect.\<close>

definition send_message ::
  "('d, 's, 'v, 'n) site \<Rightarrow> (('d, 'v, 'n) cluster, anyhow_error + 'a) task \<Rightarrow> (('d, 'v, 'n) cluster, anyhow_error + 'a) task" where
  "send_message si t = try_bind (call (ask (si_send si))) (\<lambda>_. t)"

definition node_allocate :: "('d, 's, 'v, 'n) site \<Rightarrow> partition_id \<Rightarrow> timestamp \<Rightarrow> (('d, 'v, 'n) cluster, anyhow_error + timestamp) task" where
  "node_allocate si p floor =
     send_message si (call (node_step p (\<lambda>n cm. Some (
       case and_then (ensure_leader_for_writes cm) (\<lambda>_. next_commit_ts_at_or_after (si_oracle si n) (si_clock si n) floor cm) of
         Inl e \<Rightarrow> (Inl e, cm)
       | Inr (ts, cm') \<Rightarrow> (Inr ts, cm')))))"

text \<open>A prepare is put off while a local write or a prepared commit is in flight.\<close>

fun admit_prepare :: "('d, 's, 'v, 'n) site \<Rightarrow> nat \<Rightarrow> partition_id \<Rightarrow> (nat \<Rightarrow> ('d, 'v, 'n) committer \<Rightarrow>
    ((anyhow_error + timestamp) \<times> ('d, 'v, 'n) committer) option) \<Rightarrow> (('d, 'v, 'n) cluster, anyhow_error + timestamp) task" where
  "admit_prepare si 0 p handle = Ready (Inl shutdown_error)"
| "admit_prepare si (Suc n) p handle =
     try_bind (call (node_step p (\<lambda>n cm.
         if prepare_admission_blocker_ts cm \<noteq> None then Some (Inr None, cm)
         else map_option (\<lambda>(r, cm'). (map_sum id Some r, cm')) (handle n cm)))) (\<lambda>done.
       case done of None \<Rightarrow> admit_prepare si n p handle | Some ts \<Rightarrow> Ready (Inr ts))"

definition node_prepare ::
  "('d, 's, 'v, 'n) site \<Rightarrow> partition_id \<Rightarrow> string \<Rightarrow> ('d, 's) participant_transaction \<Rightarrow> write_source \<Rightarrow> timestamp \<Rightarrow>
   partition_id list \<Rightarrow> (('d, 'v, 'n) cluster, anyhow_error + timestamp) task" where
  "node_prepare si p txn tx source ts ps =
     try_bind (call (ask (si_frontiers si))) (\<lambda>_.
     send_message si (admit_prepare si (si_patience si) p
       (\<lambda>n. handle_prepare_remote (si_env si) (si_encode si) (si_now si n) (si_prepare_io si n) txn tx source ts ps)))"

definition node_validate ::
  "('d, 's, 'v, 'n) site \<Rightarrow> partition_id \<Rightarrow> string \<Rightarrow> ('d, 's) participant_transaction \<Rightarrow> write_source \<Rightarrow> timestamp \<Rightarrow>
   (('d, 'v, 'n) cluster, anyhow_error + unit) task" where
  "node_validate si p txn tx source ts =
     try_bind (call (ask (si_frontiers si))) (\<lambda>_.
     send_message si (call (node_step p (\<lambda>n cm. Some (validate_participant_reads (si_env si) tx source ts cm)))))"

text \<open>
  The caller of a commit or a rollback waits for its channel to be answered.
  The memory of a committer that stops is gone; the world keeps its last state.
\<close>

fun await_reply :: "nat \<Rightarrow> (('d, 'v, 'n) cluster \<Rightarrow> (anyhow_error + 'a) option) \<Rightarrow> (('d, 'v, 'n) cluster, anyhow_error + 'a) task" where
  "await_reply 0 reply = Ready (Inl shutdown_error)"
| "await_reply (Suc n) reply =
     task_bind (call (\<lambda>w. (reply w, remember w))) (\<lambda>r. case r of Some x \<Rightarrow> Ready x | None \<Rightarrow> await_reply n reply)"

definition answer_commit ::
  "partition_id \<Rightarrow> string \<Rightarrow> nat list \<Rightarrow> anyhow_error + timestamp \<Rightarrow> ('d, 'v, 'n) cluster \<Rightarrow> ('d, 'v, 'n) cluster" where
  "answer_commit p txn channels r w =
     w\<lparr>cl_commit_replies := (\<lambda>(q, t, c). if q = p \<and> t = txn \<and> c \<in> set channels then Some r else cl_commit_replies w (q, t, c))\<rparr>"

definition answer_rollback ::
  "partition_id \<Rightarrow> string \<Rightarrow> nat list \<Rightarrow> anyhow_error + unit \<Rightarrow> ('d, 'v, 'n) cluster \<Rightarrow> ('d, 'v, 'n) cluster" where
  "answer_rollback p txn channels r w =
     w\<lparr>cl_rollback_replies := (\<lambda>(q, t, c). if q = p \<and> t = txn \<and> c \<in> set channels then Some r else cl_rollback_replies w (q, t, c))\<rparr>"

definition node_finish_commit ::
  "('d, 's, 'v, 'n) site \<Rightarrow> partition_id \<Rightarrow> string \<Rightarrow> timestamp \<Rightarrow> ('d, 'v, 'n) cluster \<Rightarrow> unit \<times> ('d, 'v, 'n) cluster" where
  "node_finish_commit si p txn cts w =
     (if p \<in> set (cl_stopped w) then ((), remember w)
      else
        (let n = cl_tick w in
         case finish_prepared_commit (si_env si) (si_closed si) (si_persisted si n) (si_marker si n) (si_applied si n) (si_deleted si n)
                txn cts (si_bytes si n) (cl_nodes w p) of
           None \<Rightarrow> ((), remember (w\<lparr>cl_stopped := p # cl_stopped w\<rparr>))
         | Some (PreparedRejected e channels, cm) \<Rightarrow>
             ((), answer_commit p txn channels (Inl e) (remember (w\<lparr>cl_nodes := (cl_nodes w)(p := cm)\<rparr>)))
         | Some (PreparedDone ts channels, cm) \<Rightarrow>
             ((), answer_commit p txn channels (Inr ts) (remember (w\<lparr>cl_nodes := (cl_nodes w)(p := cm)\<rparr>)))
         | Some (PreparedBroken e channels, cm) \<Rightarrow>
             ((), answer_commit p txn channels (Inl e) (remember (w\<lparr>cl_stopped := p # cl_stopped w\<rparr>)))))"

fun commit_rounds ::
  "('d, 's, 'v, 'n) site \<Rightarrow> nat \<Rightarrow> partition_id \<Rightarrow> string \<Rightarrow> bool \<Rightarrow> nat \<Rightarrow> (('d, 'v, 'n) cluster, anyhow_error + timestamp) task" where
  "commit_rounds si 0 p txn wait_for_predecessors channel = Ready (Inl shutdown_error)"
| "commit_rounds si (Suc n) p txn wait_for_predecessors channel =
     try_bind (call (node_step p (\<lambda>n cm. map_option (map_prod Inr id)
         (start_commit_prepared (si_env si) (si_decode si) (si_propose si n) txn wait_for_predecessors (si_late si n) channel cm))))
       (\<lambda>outcome. case outcome of
          Answered e \<Rightarrow> Ready (Inl e)
        | Deferred \<Rightarrow> commit_rounds si n p txn wait_for_predecessors channel
        | Attached \<Rightarrow> await_reply (si_patience si) (\<lambda>w. cl_commit_replies w (p, txn, channel))
        | Proposed cts \<Rightarrow>
            task_bind (call (node_finish_commit si p txn cts)) (\<lambda>_.
            await_reply (si_patience si) (\<lambda>w. cl_commit_replies w (p, txn, channel))))"

definition node_commit ::
  "('d, 's, 'v, 'n) site \<Rightarrow> partition_id \<Rightarrow> string \<Rightarrow> bool \<Rightarrow> (('d, 'v, 'n) cluster, anyhow_error + timestamp) task" where
  "node_commit si p txn wait_for_predecessors =
     task_bind (call (ask id)) (\<lambda>channel.
     send_message si (commit_rounds si (si_patience si) p txn wait_for_predecessors channel))"

definition node_finish_rollback ::
  "('d, 's, 'v, 'n) site \<Rightarrow> partition_id \<Rightarrow> string \<Rightarrow> ('d, 'v, 'n) cluster \<Rightarrow> unit \<times> ('d, 'v, 'n) cluster" where
  "node_finish_rollback si p txn w =
     (if p \<in> set (cl_stopped w) then ((), remember w)
      else
        (let n = cl_tick w; cm = cl_nodes w p in
         case si_rollback_quorum si n of
           Inl e \<Rightarrow>
             (case send_prepared_rollback_waiters txn cm of
                (cm', channels) \<Rightarrow> ((), remember (answer_rollback p txn channels (Inl e) (w\<lparr>cl_nodes := (cl_nodes w)(p := cm')\<rparr>))))
         | Inr _ \<Rightarrow>
             (case finish_rollback (si_deleted si n) (si_rollback_mark si n) txn cm of
                (Inr channels, cm') \<Rightarrow>
                  ((), remember (answer_rollback p txn channels (Inr ()) (w\<lparr>cl_nodes := (cl_nodes w)(p := cm')\<rparr>)))
              | (Inl e, cm') \<Rightarrow>
                  ((), remember (answer_rollback p txn (snd (send_prepared_rollback_waiters txn cm)) (Inl e)
                         (w\<lparr>cl_nodes := (cl_nodes w)(p := cm'), cl_stopped := p # cl_stopped w\<rparr>))))))"

definition node_rollback ::
  "('d, 's, 'v, 'n) site \<Rightarrow> partition_id \<Rightarrow> string \<Rightarrow> (('d, 'v, 'n) cluster, anyhow_error + unit) task" where
  "node_rollback si p txn =
     task_bind (call (ask id)) (\<lambda>channel.
     send_message si (
     try_bind (call (node_step p (\<lambda>n cm. Some (start_rollback_prepared_through_raft (si_propose si n) txn channel cm)))) (\<lambda>proposed.
     task_bind (if proposed then call (node_finish_rollback si p txn) else Ready ()) (\<lambda>_.
     await_reply (si_patience si) (\<lambda>w. cl_rollback_replies w (p, txn, channel))))))"

section \<open>The environments\<close>

definition with_decisions :: "(mem_log \<Rightarrow> 'a \<times> mem_log) \<Rightarrow> ('d, 'v, 'n) cluster \<Rightarrow> 'a \<times> ('d, 'v, 'n) cluster" where
  "with_decisions f w = (case f (cl_decisions w) of (r, l) \<Rightarrow> (r, remember (w\<lparr>cl_decisions := l\<rparr>)))"

definition cluster_log :: "(u8 list \<Rightarrow> string) \<Rightarrow> ('d, 'v, 'n) cluster decision_log" where
  "cluster_log sha =
     \<lparr>dl_write_if_absent = (\<lambda>t d. with_decisions (dl_write_if_absent (mem_decision_log sha) t d)),
      dl_get = (\<lambda>t. with_decisions (dl_get (mem_decision_log sha) t)),
      dl_mark_resolved = (\<lambda>t p. with_decisions (dl_mark_resolved (mem_decision_log sha) t p)),
      dl_mark_staged = (\<lambda>t i. with_decisions (dl_mark_staged (mem_decision_log sha) t i)),
      dl_recover_staging = (\<lambda>t. with_decisions (dl_recover_staging (mem_decision_log sha) t)),
      dl_delete = (\<lambda>t. with_decisions (dl_delete (mem_decision_log sha) t))\<rparr>"

definition cluster_rpc :: "('d, 's, 'v, 'n) site \<Rightarrow> (('d, 'v, 'n) cluster, 'd, 's, partition_map) rpc_env" where
  "cluster_rpc si =
     \<lparr>rp_send = (\<lambda>addr. ask (si_network si)), rp_reply = (\<lambda>addr. ask (si_network si)),
      rp_authenticate = (\<lambda>addr. ask (si_authenticate si)),
      rp_encode = si_encode si, rp_decode = si_decode si,
      rp_version = (\<lambda>addr w. case cm_placement (cl_nodes w (si_home si addr)) of None \<Rightarrow> static_version | Some pm \<Rightarrow> pmap_version pm),
      rp_load_placement = None, rp_install_placement = (\<lambda>addr pm w. (Inl shutdown_error, w)),
      rp_raft = (\<lambda>addr w. si_raft si addr (cl_tick w)), rp_peers = si_peers si,
      rp_connect = (\<lambda>addr. call (ask (si_network si))),
      rp_prepare = (\<lambda>addr. node_prepare si (si_home si addr)),
      rp_validate = (\<lambda>addr. node_validate si (si_home si addr)),
      rp_commit = (\<lambda>addr txn. node_commit si (si_home si addr) txn True),
      rp_rollback = (\<lambda>addr. node_rollback si (si_home si addr)),
      rp_show = si_show si, rp_occ_message = si_occ_message si\<rparr>"

text \<open>The coordinator on the node of partition \<open>here\<close>.\<close>

definition cluster_coord :: "('d, 's, 'v, 'n) site \<Rightarrow> partition_id \<Rightarrow> (('d, 'v, 'n) cluster, 'd, 's) coord_env" where
  "cluster_coord si here =
     \<lparr>co_log = cluster_log (si_sha si), co_catalog = ce_catalog (si_env si), co_encode = si_encode si, co_sha = si_sha si,
      co_now = (\<lambda>w. si_now si (cl_tick w)), co_pick = (\<lambda>w. si_pick si (cl_tick w)),
      co_spawn = (\<lambda>t w. snd (run_task t w)),
      co_fresh = ask (si_uuid si),
      co_allocate = node_allocate si here, co_prepare = node_prepare si here, co_validate = node_validate si here,
      co_commit = (\<lambda>txn. node_commit si here txn True), co_rollback = node_rollback si here,
      co_connect = rp_connect (cluster_rpc si),
      co_remote_prepare = client_prepare (si_hops si) (cluster_rpc si),
      co_remote_validate = client_validate_reads (si_hops si) (cluster_rpc si),
      co_remote_commit = client_commit_prepared (si_hops si) (cluster_rpc si),
      co_remote_rollback = client_rollback_prepared (si_hops si) (cluster_rpc si)\<rparr>"

section \<open>What has happened\<close>

text \<open>The state of a committer that its own operations lead to.\<close>

definition runs :: "('d, 's, 'v, 'n) site \<Rightarrow> (partition_id \<Rightarrow> 'n) \<Rightarrow> partition_id \<Rightarrow> ('d, 'v, 'n) committer \<Rightarrow> bool" where
  "runs si n0 p cm \<longleftrightarrow> (\<exists>h V D. committer_run (si_env si) False (n0 p) cm h V D)"

definition site_wf :: "('d, 's, 'v, 'n) site \<Rightarrow> bool" where
  "site_wf si \<longleftrightarrow>
     (\<forall>tx payload. si_encode si tx = Inr payload \<longrightarrow> si_decode si payload = Inr tx) \<and>
     (\<forall>addr urls k addr'. si_peers si addr = Some urls \<longrightarrow> bt_get urls k = Some addr' \<longrightarrow> si_home si addr' = si_home si addr)"

text \<open>The participant had the transaction staged at the timestamp, and durable redo of exactly this transaction.\<close>

definition holds_vote ::
  "('d, 's, 'v, 'n) site \<Rightarrow> string \<Rightarrow> timestamp \<Rightarrow> ('d, 's) participant_transaction \<Rightarrow> ('d, 'v, 'n) committer \<Rightarrow> bool" where
  "holds_vote si txn ts tx cm \<longleftrightarrow>
     (\<exists>prepared redo. bt_get (cm_prepared_transactions cm) txn = Some prepared \<and> ptx_origin_commit_ts prepared = ts \<and>
        bt_get (cm_redo cm) txn = Some redo \<and> re_prepare_ts redo = ts \<and>
        si_encode si tx = Inr (re_participant_transaction_hex redo))"

definition cl_voted ::
  "('d, 's, 'v, 'n) site \<Rightarrow> string \<Rightarrow> partition_id \<Rightarrow> timestamp \<Rightarrow> ('d, 's) participant_transaction \<Rightarrow> ('d, 'v, 'n) cluster \<Rightarrow> bool" where
  "cl_voted si txn p ts tx w \<longleftrightarrow> (\<exists>(nodes, log) \<in> set (cl_past w). holds_vote si txn ts tx (nodes p))"

text \<open>The reads had no conflict up to the timestamp.\<close>

definition cl_reads_valid ::
  "('d, 's, 'v, 'n) site \<Rightarrow> string \<Rightarrow> partition_id \<Rightarrow> timestamp \<Rightarrow> ('d, 's) participant_transaction \<Rightarrow> ('d, 'v, 'n) cluster \<Rightarrow> bool" where
  "cl_reads_valid si txn p ts tx w \<longleftrightarrow>
     (\<exists>(nodes, log) \<in> set (cl_past w).
        ensure_no_conflict (ce_ops (si_env si)) (pt_reads tx) (repeatable_ts (pt_begin_timestamp tx)) ts (nodes p) = Inr () \<and>
        ts \<le> cm_last_assigned_ts (nodes p))"

text \<open>
  The participant had the transaction staged, to be committed at the timestamp
  with some writes, and a run of it has published these writes there.
\<close>

definition cl_published ::
  "('d, 's, 'v, 'n) site \<Rightarrow> (partition_id \<Rightarrow> 'n) \<Rightarrow> string \<Rightarrow> partition_id \<Rightarrow> timestamp \<Rightarrow> ('d, 'v, 'n) cluster \<Rightarrow> bool" where
  "cl_published si n0 txn p ts w \<longleftrightarrow>
     (\<exists>(nodes, log) \<in> set (cl_past w). \<exists>(nodes', log') \<in> set (cl_past w). \<exists>prepared ws src n h V D.
        bt_get (cm_prepared_transactions (nodes p)) txn = Some prepared \<and> ptx_commit_ts prepared = ts \<and>
        bt_get (cm_prepared_writes (nodes p)) ts = Some (ws, src, n) \<and>
        committer_run (si_env si) False (n0 p) (nodes' p) h V (D @ [(ts, ws)]))"

definition cl_decided :: "string \<Rightarrow> two_phase_decision \<Rightarrow> ('d, 'v, 'n) cluster \<Rightarrow> bool" where
  "cl_decided txn d w \<longleftrightarrow> (\<exists>(nodes, log) \<in> set (cl_past w). bt_get (ml_decisions log) txn = Some d)"

definition cl_ok :: "('d, 's, 'v, 'n) site \<Rightarrow> (partition_id \<Rightarrow> 'n) \<Rightarrow> ('d, 'v, 'n) cluster \<Rightarrow> bool" where
  "cl_ok si n0 w \<longleftrightarrow> site_wf si \<and> (cl_nodes w, cl_decisions w) \<in> set (cl_past w) \<and>
     (\<forall>(nodes, log) \<in> set (cl_past w). bt_wf (ml_decisions log) \<and> (\<forall>p. runs si n0 p (nodes p))) \<and>
     (\<forall>p txn c ts. cl_commit_replies w (p, txn, c) = Some (Inr ts) \<longrightarrow> cl_published si n0 txn p ts w)"

text \<open>Other tasks keep this, and what has happened.\<close>

definition cl_other :: "('d, 's, 'v, 'n) site \<Rightarrow> (partition_id \<Rightarrow> 'n) \<Rightarrow> ('d, 'v, 'n) cluster \<Rightarrow> ('d, 'v, 'n) cluster \<Rightarrow> bool" where
  "cl_other si n0 w w' \<longleftrightarrow> set (cl_past w) \<subseteq> set (cl_past w') \<and> (cl_ok si n0 w \<longrightarrow> cl_ok si n0 w')"

lemma cl_published_mono: "cl_published si n0 txn p ts w \<Longrightarrow> set (cl_past w) \<subseteq> set (cl_past w') \<Longrightarrow> cl_published si n0 txn p ts w'"
  unfolding cl_published_def by blast

lemma cl_other_refl: "reflp (cl_other si n0)"
  by (simp add: reflp_def cl_other_def)

lemma cl_other_trans: "cl_other si n0 u v \<Longrightarrow> cl_other si n0 v w \<Longrightarrow> cl_other si n0 u w"
  by (auto simp: cl_other_def)

lemma cl_other_star: "(cl_other si n0)\<^sup>*\<^sup>* u v \<Longrightarrow> cl_other si n0 u v"
  by (induction rule: rtranclp_induct) (auto intro: cl_other_trans simp: reflpD [OF cl_other_refl])

lemma cl_stable:
  "stable_under (cl_other si n0) (cl_ok si n0)" "stable_under (cl_other si n0) (cl_voted si txn p ts tx)"
  "stable_under (cl_other si n0) (cl_reads_valid si txn p ts tx)" "stable_under (cl_other si n0) (cl_published si n0 txn p ts)"
  "stable_under (cl_other si n0) (cl_decided txn d)"
  unfolding stable_under_def cl_other_def cl_voted_def cl_reads_valid_def cl_decided_def
  by (blast, blast, blast, blast intro: cl_published_mono, blast)

interpretation cl: rely "cl_other si n0" "cl_ok si n0" for si n0
  by unfold_locales (simp_all add: cl_other_refl cl_stable)

abbreviation cl_outcome where
  "cl_outcome si n0 \<equiv> rely.outcome (cl_ok si n0)"

section \<open>Steps\<close>

lemma remember_simps [simp]:
  "cl_nodes (remember w) = cl_nodes w" "cl_decisions (remember w) = cl_decisions w" "cl_commit_replies (remember w) = cl_commit_replies w"
  "set (cl_past (remember w)) = insert (cl_nodes w, cl_decisions w) (set (cl_past w))"
  by (simp_all add: remember_def)

text \<open>A step that leaves good nodes and decisions, and answers nobody.\<close>

lemma cl_other_remember:
  assumes past: "cl_past v = cl_past w" and replies: "cl_commit_replies v = cl_commit_replies w"
    and good: "cl_ok si n0 w \<Longrightarrow> bt_wf (ml_decisions (cl_decisions v)) \<and> (\<forall>p. runs si n0 p (cl_nodes v p))"
  shows "cl_other si n0 w (remember v)"
  unfolding cl_other_def
proof (intro conjI impI)
  show sub: "set (cl_past w) \<subseteq> set (cl_past (remember v))" by (simp add: past subset_insertI)
  assume ok: "cl_ok si n0 w"
  have "cl_published si n0 txn p ts (remember v)" if "cl_commit_replies w (p, txn, c) = Some (Inr ts)" for p txn c ts
    using ok that cl_published_mono [OF _ sub] unfolding cl_ok_def by blast
  with ok good [OF ok] show "cl_ok si n0 (remember v)"
    by (simp add: cl_ok_def past replies)
qed

lemma cl_ok_facts:
  assumes "cl_ok si n0 w"
  shows "bt_wf (ml_decisions (cl_decisions w))" "runs si n0 p (cl_nodes w p)" "site_wf si"
    "(cl_nodes w, cl_decisions w) \<in> set (cl_past w)"
  using assms unfolding cl_ok_def by blast+

lemma step_same: "cl_other si n0 w (remember w)"
  by (rule cl_other_remember) (simp_all add: cl_ok_facts)

lemma step_ask: "cl_other si n0 w (snd (ask f w))"
  by (simp add: ask_def step_same)

lemma step_stopped: "cl_other si n0 w (remember (w\<lparr>cl_stopped := s\<rparr>))"
  by (rule cl_other_remember) (simp_all add: cl_ok_facts)

lemma step_node:
  assumes "runs si n0 p (cl_nodes w p) \<Longrightarrow> runs si n0 p (cl_nodes v p)" "\<And>q. q \<noteq> p \<Longrightarrow> cl_nodes v q = cl_nodes w q"
    "cl_past v = cl_past w" "cl_commit_replies v = cl_commit_replies w" "cl_decisions v = cl_decisions w"
  shows "cl_other si n0 w (remember v)"
proof (rule cl_other_remember [OF assms(3,4)])
  assume ok: "cl_ok si n0 w"
  have "runs si n0 q (cl_nodes v q)" for q
    using assms(1,2) cl_ok_facts(2) [OF ok] by (cases "q = p") auto
  then show "bt_wf (ml_decisions (cl_decisions v)) \<and> (\<forall>p. runs si n0 p (cl_nodes v p))"
    using cl_ok_facts(1) [OF ok] assms(5) by simp
qed

lemma step_node_step:
  assumes "\<And>n cm r cm'. runs si n0 p cm \<Longrightarrow> f n cm = Some (r, cm') \<Longrightarrow> runs si n0 p cm'"
  shows "cl_other si n0 w (snd (node_step p f w))"
proof (cases "f (cl_tick w) (cl_nodes w p)")
  case None
  then show ?thesis by (simp add: node_step_def step_same step_stopped)
next
  case (Some out)
  obtain r cm where out: "out = (r, cm)" by (cases out)
  have "cl_other si n0 w (remember (w\<lparr>cl_nodes := (cl_nodes w)(p := cm)\<rparr>))"
    using assms Some out by (intro step_node [where p = p]) auto
  then show ?thesis by (simp add: node_step_def step_same Some out)
qed

section \<open>The handlers are runs\<close>

lemma runsI: "committer_run (si_env si) False (n0 p) cm h V D \<Longrightarrow> runs si n0 p cm"
  unfolding runs_def by blast

lemma runsE:
  assumes "runs si n0 p cm"
  obtains h V D where "committer_run (si_env si) False (n0 p) cm h V D"
  using assms unfolding runs_def by blast

lemma runs_bookkeeping:
  assumes "runs si n0 p cm"
  shows "runs si n0 p (cm\<lparr>cm_commit_waiters := cws\<rparr>)" "runs si n0 p (cm\<lparr>cm_rollback_waiters := rws\<rparr>)" "runs si n0 p (cm\<lparr>cm_redo := redo\<rparr>)"
proof -
  from assms obtain h V D where run: "committer_run (si_env si) False (n0 p) cm h V D" unfolding runs_def by blast
  have "committer_run (si_env si) False (n0 p) (cm\<lparr>cm_commit_waiters := cws\<rparr>) h V D"
    using run_bookkeeping [OF run, where placement = "cm_placement cm" and commit_waiters = cws and
        rollback_waiters = "cm_rollback_waiters cm" and raft = "cm_raft cm" and redo = "cm_redo cm"] by simp
  moreover have "committer_run (si_env si) False (n0 p) (cm\<lparr>cm_rollback_waiters := rws\<rparr>) h V D"
    using run_bookkeeping [OF run, where placement = "cm_placement cm" and commit_waiters = "cm_commit_waiters cm" and
        rollback_waiters = rws and raft = "cm_raft cm" and redo = "cm_redo cm"] by simp
  ultimately show "runs si n0 p (cm\<lparr>cm_commit_waiters := cws\<rparr>)" "runs si n0 p (cm\<lparr>cm_rollback_waiters := rws\<rparr>)"
    "runs si n0 p (cm\<lparr>cm_redo := redo\<rparr>)" using run_redo [OF run] unfolding runs_def by blast+
qed

lemma runs_waiters:
  assumes "runs si n0 p cm"
  shows "runs si n0 p (fst (send_prepared_commit_waiters txn cm))" "runs si n0 p (fst (send_prepared_rollback_waiters txn cm))"
    "runs si n0 p (snd (delete_two_phase_redo io txn cm))"
  using assms by (simp_all add: send_prepared_commit_waiters_def send_prepared_rollback_waiters_def delete_two_phase_redo_def
      runs_bookkeeping split: option.split sum.split)

lemma runs_allocate:
  "runs si n0 p cm \<Longrightarrow> next_commit_ts_at_or_after oracle clock floor cm = Inr (ts, cm') \<Longrightarrow> runs si n0 p cm'"
  unfolding runs_def by (blast intro: run_allocate)

lemma runs_prepare:
  assumes "runs si n0 p cm" "handle_prepare_remote (si_env si) enc now io txn tx source ts ps cm = Some (r, cm')"
  shows "runs si n0 p cm'"
proof -
  from assms(1) obtain h V D where run: "committer_run (si_env si) False (n0 p) cm h V D" by (rule runsE)
  from run_handle_prepare_remote [OF run _ assms(2)] show ?thesis by (auto intro: runsI)
qed

lemma runs_validate:
  assumes "runs si n0 p cm" "validate_participant_reads (si_env si) tx source ts cm = (r, cm')"
  shows "runs si n0 p cm'"
proof (cases r)
  case (Inl e)
  with assms show ?thesis by (auto simp: validate_participant_reads_def Let_def split: sum.splits)
next
  case (Inr u)
  with assms show ?thesis unfolding runs_def using run_reads by (metis old.unit.exhaust)
qed

lemma runs_stage:
  assumes "runs si n0 p cm"
    "stage_prepared_transaction (si_env si) oracle clock txn begin_ts reads writes mapping source explicit_ts require_leader False cm = Some (r, cm')"
  shows "runs si n0 p cm'"
proof -
  from assms(1) obtain h V D where run: "committer_run (si_env si) False (n0 p) cm h V D" by (rule runsE)
  from run_stage [OF run _ assms(2)] show ?thesis by (auto intro: runsI)
qed

lemma runs_stage_redo:
  assumes "runs si n0 p cm" "stage_durable_two_phase_redo (si_env si) dec txn True cm = Some (r, cm')"
  shows "runs si n0 p cm'"
proof -
  have "runs si n0 p cm1" if "stage_participant_prepared_transaction (si_env si) txn' tx source ts True False cm = Some (x, cm1)" for txn' tx source ts x cm1
    using that assms(1) runs_stage [OF assms(1)] unfolding stage_participant_prepared_transaction_def Let_def
    by (auto split: sum.splits)
  then have entry: "runs si n0 p cm1" if "stage_two_phase_redo_entry (si_env si) dec entry True False cm = Some (x, cm1)" for entry x cm1
    using that assms(1) unfolding stage_two_phase_redo_entry_def by (auto split: sum.splits)
  from assms(2) consider "cm' = cm" | entry x where "stage_two_phase_redo_entry (si_env si) dec entry True False cm = Some (x, cm')"
    unfolding stage_durable_two_phase_redo_def by (auto split: option.splits if_splits prod.splits)
  then show ?thesis using assms(1) entry by cases auto
qed

lemma runs_start_commit:
  assumes "runs si n0 p cm" "start_commit_prepared (si_env si) dec propose txn wait late channel cm = Some (o1, cm')"
  shows "runs si n0 p cm'"
  using assms runs_stage_redo [OF assms(1)] unfolding start_commit_prepared_def
  by (auto simp: Let_def runs_bookkeeping split: if_splits option.splits sum.splits)

lemma runs_rollback: "runs si n0 p cm \<Longrightarrow> runs si n0 p (snd (handle_rollback_prepared io txn cm))"
  by (erule runsE, drule run_handle_rollback) (auto intro: runsI)

lemma runs_start_rollback:
  assumes "runs si n0 p cm" "start_rollback_prepared_through_raft propose txn channel cm = (r, cm')"
  shows "runs si n0 p cm'"
  using assms unfolding start_rollback_prepared_through_raft_def
  by (auto simp: runs_bookkeeping split: if_splits sum.splits)

lemma runs_finish_rollback:
  assumes "runs si n0 p cm" "finish_rollback io mark txn cm = (r, cm')"
  shows "runs si n0 p cm'"
proof -
  obtain r1 cm1 where h: "handle_rollback_prepared io txn cm = (r1, cm1)" by fastforce
  with runs_rollback [OF assms(1), of io txn] have c1: "runs si n0 p cm1" by simp
  obtain r2 cm2 where d: "delete_two_phase_redo io txn cm1 = (r2, cm2)" by fastforce
  with runs_waiters(3) [OF c1, of io txn] have c2: "runs si n0 p cm2" by simp
  have "runs si n0 p cm3" if "send_prepared_rollback_waiters txn x = (cm3, y)" "runs si n0 p x" for x y cm3
    using runs_waiters(2) [OF that(2), of txn] that(1) by simp
  then show ?thesis
    using assms(2) c1 c2 runs_bookkeeping(3) [OF c1] runs_waiters(2) [OF c1] runs_waiters(2) [OF c2]
      runs_waiters(2) [OF runs_bookkeeping(3) [OF c1]] unfolding finish_rollback_def h d
    by (auto simp: d split: sum.splits option.splits prod.splits)
qed

lemma run_send_commit_waiters:
  assumes run: "committer_run env False n0 cm h V D"
  shows "committer_run env False n0 (fst (send_prepared_commit_waiters txn cm)) h V D"
  using run run_bookkeeping [OF run, where placement = "cm_placement cm" and commit_waiters = "bt_remove txn (cm_commit_waiters cm)" and
      rollback_waiters = "cm_rollback_waiters cm" and raft = "cm_raft cm" and redo = "cm_redo cm"]
  by (simp add: send_prepared_commit_waiters_def split: option.split)

lemma publish_run:
  assumes run: "committer_run env False n0 cm h V D"
    and f: "publish_prepared_commit env closed txn cts bytes cm = Some (Inr u, cm')"
  shows "\<exists>prepared ws src n h'. bt_get (cm_prepared_transactions cm) txn = Some prepared \<and> ptx_commit_ts prepared = cts \<and>
    bt_get (cm_prepared_writes cm) cts = Some (ws, src, n) \<and> committer_run env False n0 cm' h' V (D @ [(cts, ws)])"
proof -
  from f obtain prepared where p: "bt_get (cm_prepared_transactions cm) txn = Some prepared"
    by (auto simp: publish_prepared_commit_def split: option.splits)
  from remove_intent [OF run_facts(4) [OF run] p] obtain ws src n where
    w: "bt_get (cm_prepared_writes cm) (ptx_commit_ts prepared) = Some (ws, src, n)"
    and rm: "writes_remove (ptx_prepared_write prepared) (cm_prepared_writes cm) =
      (Some (ptx_commit_ts prepared, ws, src, n), bt_remove (ptx_commit_ts prepared) (cm_prepared_writes cm))" by blast
  have cts: "ptx_commit_ts prepared = cts"
    using f by (auto simp: publish_prepared_commit_def p rm Let_def split: if_splits)
  have "publish_prepared_commit env closed txn cts bytes cm = Some (Inr (), cm')" using f by simp
  from run_publish_prepared [OF run this w [unfolded cts]] p w cts show ?thesis by blast
qed

lemma finish_commit_done:
  assumes run: "committer_run env False n0 cm h V D"
    and f: "finish_prepared_commit env closed persisted marker applied deleted txn cts bytes cm = Some (PreparedDone ts channels, cm')"
  shows "\<exists>prepared ws src n h'. bt_get (cm_prepared_transactions cm) txn = Some prepared \<and> ptx_commit_ts prepared = ts \<and>
    bt_get (cm_prepared_writes cm) ts = Some (ws, src, n) \<and> committer_run env False n0 cm' h' V (D @ [(ts, ws)])"
proof -
  from f obtain u cm1 cm2 where pub: "publish_prepared_commit env closed txn cts bytes cm = Some (Inr u, cm1)"
    and del: "cm2 = snd (delete_two_phase_redo deleted txn cm1)" and cm': "cm' = fst (send_prepared_commit_waiters txn cm2)" and ts: "ts = cts"
    by (auto simp: finish_prepared_commit_def fail_prepared_committed_write_def split: sum.splits option.splits prod.splits)
  from publish_run [OF run pub] obtain prepared ws src n h' where
    p: "bt_get (cm_prepared_transactions cm) txn = Some prepared" "ptx_commit_ts prepared = cts"
      "bt_get (cm_prepared_writes cm) cts = Some (ws, src, n)" and run1: "committer_run env False n0 cm1 h' V (D @ [(cts, ws)])"
    by blast
  have "committer_run env False n0 cm2 h' V (D @ [(cts, ws)])" unfolding del by (rule run_delete_redo [OF run1])
  then have "committer_run env False n0 cm' h' V (D @ [(cts, ws)])" unfolding cm' by (rule run_send_commit_waiters)
  with p show ?thesis unfolding ts by blast
qed

lemma finish_commit_rejected:
  "finish_prepared_commit env closed persisted marker applied deleted txn cts bytes cm = Some (PreparedRejected e channels, cm') \<Longrightarrow>
   cm' = fst (send_prepared_commit_waiters txn cm)"
  by (auto simp: finish_prepared_commit_def fail_prepared_committed_write_def split: sum.splits option.splits prod.splits)

section \<open>Answers\<close>

lemma answer_simps [simp]:
  "cl_nodes (answer_commit p txn cs r w) = cl_nodes w" "cl_decisions (answer_commit p txn cs r w) = cl_decisions w"
  "cl_past (answer_commit p txn cs r w) = cl_past w" "cl_past (answer_rollback p txn cs u w) = cl_past w"
  "cl_nodes (answer_rollback p txn cs u w) = cl_nodes w" "cl_decisions (answer_rollback p txn cs u w) = cl_decisions w"
  "cl_commit_replies (answer_rollback p txn cs u w) = cl_commit_replies w"
  by (simp_all add: answer_commit_def answer_rollback_def)

lemma cl_ok_answer:
  assumes "cl_ok si n0 w" "\<And>ts. r = Inr ts \<Longrightarrow> cl_published si n0 txn p ts w"
  shows "cl_ok si n0 (answer_commit p txn channels r w)"
  using assms cl_published_mono [of si n0 _ _ _ w "answer_commit p txn channels r w"]
  by (auto simp: cl_ok_def) (auto simp: answer_commit_def split: if_splits)

lemma cl_other_answer:
  assumes "cl_other si n0 w v" "\<And>ts. cl_ok si n0 w \<Longrightarrow> r = Inr ts \<Longrightarrow> cl_published si n0 txn p ts v"
  shows "cl_other si n0 w (answer_commit p txn channels r v)"
  using assms cl_ok_answer [of si n0 v r txn p channels] by (auto simp: cl_other_def)

lemma step_finish_commit: "cl_other si n0 w (snd (node_finish_commit si p txn cts w))"
proof (cases "p \<in> set (cl_stopped w)")
  case True
  then show ?thesis by (simp add: node_finish_commit_def step_same)
next
  case False
  let ?n = "cl_tick w"
  let ?f = "finish_prepared_commit (si_env si) (si_closed si) (si_persisted si ?n) (si_marker si ?n) (si_applied si ?n) (si_deleted si ?n)
    txn cts (si_bytes si ?n) (cl_nodes w p)"
  show ?thesis
  proof (cases ?f)
    case None
    with False show ?thesis by (simp add: node_finish_commit_def step_stopped)
  next
    case (Some out)
    obtain e cm where out: "out = (e, cm)" by (cases out)
    let ?v = "remember (w\<lparr>cl_nodes := (cl_nodes w)(p := cm)\<rparr>)"
    show ?thesis
    proof (cases e)
      case (PreparedRejected x channels)
      with finish_commit_rejected Some out have "cm = fst (send_prepared_commit_waiters txn (cl_nodes w p))" by blast
      then have "cl_other si n0 w ?v" by (intro step_node [where p = p]) (simp_all add: runs_waiters)
      then have "cl_other si n0 w (answer_commit p txn channels (Inl x) ?v)" by (rule cl_other_answer) simp
      with False Some out PreparedRejected show ?thesis by (simp add: node_finish_commit_def)
    next
      case (PreparedBroken x channels)
      have "cl_other si n0 w (answer_commit p txn channels (Inl x) (remember (w\<lparr>cl_stopped := p # cl_stopped w\<rparr>)))"
        by (rule cl_other_answer [OF step_stopped]) simp
      with False Some out PreparedBroken show ?thesis by (simp add: node_finish_commit_def)
    next
      case (PreparedDone ts channels)
      have run: "\<exists>prepared ws src n h V D. bt_get (cm_prepared_transactions (cl_nodes w p)) txn = Some prepared \<and>
          ptx_commit_ts prepared = ts \<and> bt_get (cm_prepared_writes (cl_nodes w p)) ts = Some (ws, src, n) \<and>
          committer_run (si_env si) False (n0 p) cm h V (D @ [(ts, ws)])" if "runs si n0 p (cl_nodes w p)"
        using that finish_commit_done [OF _ Some [unfolded out PreparedDone]] by (blast elim: runsE)
      have v: "cl_other si n0 w ?v" using run by (intro step_node [where p = p]) (auto intro: runsI)
      have "cl_published si n0 txn p ts ?v" if "cl_ok si n0 w"
        using run [OF cl_ok_facts(2) [OF that]] cl_ok_facts(4) [OF that] unfolding cl_published_def by force
      then have "cl_other si n0 w (answer_commit p txn channels (Inr ts) ?v)" by (intro cl_other_answer [OF v]) simp
      with False Some out PreparedDone show ?thesis by (simp add: node_finish_commit_def)
    qed
  qed
qed

lemma step_finish_rollback: "cl_other si n0 w (snd (node_finish_rollback si p txn w))"
  using runs_waiters(2) [of si n0 p "cl_nodes w p" txn] runs_finish_rollback [of si n0 p "cl_nodes w p"]
  by (auto simp: node_finish_rollback_def Let_def step_same split: sum.split prod.split intro!: step_node [where p = p])

section \<open>The contract\<close>

lemma bt_get_insert_same: "bt_get (bt_insert k v m) k = Some v"
  by (induction k v m rule: bt_insert.induct) (auto simp: bt_get_def)

lemma stage_explicit:
  assumes l: "prepared_linked cm"
    and s: "stage_prepared_transaction env oracle clock txn begin_ts reads writes mapping source (Some ts) require_leader False cm = Some (Inr ts', cm')"
  shows "ts' = ts \<and> (\<exists>prepared. bt_get (cm_prepared_transactions cm') txn = Some prepared \<and> ptx_origin_commit_ts prepared = ts)"
proof (cases "bt_get (cm_prepared_transactions cm) txn")
  case (Some existing)
  with s show ?thesis by (auto simp: stage_prepared_transaction_def split: sum.splits if_splits)
next
  case None
  from stage_ok [OF None s] obtain ordered n dw where
    "cm' = cm\<lparr>cm_last_assigned_ts := max ts' (cm_last_assigned_ts cm),
        cm_prepared_writes := bt_insert ts' (packed_writes ordered, source, n) (cm_prepared_writes cm),
        cm_prepared_transactions := bt_insert txn \<lparr>ptx_prepared_write = Some ts', ptx_origin_commit_ts = ts',
          ptx_commit_ts = ts', ptx_document_writes = dw\<rparr> (cm_prepared_transactions cm)\<rparr>" by blast
  moreover have "ts' = ts"
    using s None by (auto simp: stage_prepared_transaction_def stage_timestamps_def stage_at_def Let_def and_then_Inr
        split: sum.splits if_splits option.splits)
  ultimately show ?thesis by (simp add: bt_get_insert_same)
qed

lemma make_prepare_durable_ok:
  assumes "make_prepare_durable io txn redo ts cm = (Inr ts', cm')"
  shows "ts' = ts \<and> cm_prepared_transactions cm' = cm_prepared_transactions cm \<and> bt_get (cm_redo cm') (re_transaction_id redo) = Some redo"
  using assms unfolding make_prepare_durable_def persist_two_phase_redo_def
  by (auto simp: bt_get_insert_same and_then_Inr split: sum.splits option.splits if_splits)

lemma prepare_votes:
  assumes run: "runs si n0 p cm"
    and s: "handle_prepare_remote (si_env si) (si_encode si) now io txn tx source ts ps cm = Some (Inr ts', cm')"
  shows "holds_vote si txn ts' tx cm'"
proof -
  from run have l: "prepared_linked cm" by (rule runsE) (rule run_facts(4))
  from s obtain redo ts1 cm1 where redo: "redo_new_with_participants (si_encode si) now txn ts (local_partition_for_two_phase cm) ps tx source = Inr redo"
    and stage: "stage_participant_prepared_transaction (si_env si) txn tx source ts True False cm = Some (Inr ts1, cm1)"
    and durable: "make_prepare_durable io txn redo ts1 cm1 = (Inr ts', cm')"
    by (auto simp: handle_prepare_remote_def split: sum.splits option.splits prod.splits)
  from stage have "\<exists>ws mapping. stage_prepared_transaction (si_env si) None (Inl (anyhow ''unused'')) txn (repeatable_ts (pt_begin_timestamp tx)) (pt_reads tx)
      ws mapping source (Some ts) True False cm = Some (Inr ts1, cm1)"
    by (auto simp: stage_participant_prepared_transaction_def Let_def split: sum.splits)
  then have st: "ts1 = ts \<and> (\<exists>prepared. bt_get (cm_prepared_transactions cm1) txn = Some prepared \<and> ptx_origin_commit_ts prepared = ts)"
    using stage_explicit [OF l] by blast
  from redo have "re_transaction_id redo = txn" "re_prepare_ts redo = ts" "si_encode si tx = Inr (re_participant_transaction_hex redo)"
    by (auto simp: redo_new_with_participants_def split: sum.splits)
  with st make_prepare_durable_ok [OF durable] show ?thesis by (auto simp: holds_vote_def)
qed

text \<open>A message whose success leaves the node in a state with \<open>E\<close>.\<close>

lemma node_step_event:
  assumes "\<And>n cm x cm'. runs si n0 p cm \<Longrightarrow> f n cm = Some (Inr x, cm') \<Longrightarrow> E x cm'"
    and "cl_ok si n0 w" "node_step p f w = (Inr x, w')"
  shows "\<exists>(nodes, log) \<in> set (cl_past w'). E x (nodes p)"
proof -
  from assms(3) obtain cm' where f: "f (cl_tick w) (cl_nodes w p) = Some (Inr x, cm')"
    and w': "w' = remember (w\<lparr>cl_nodes := (cl_nodes w)(p := cm')\<rparr>)"
    by (auto simp: node_step_def split: if_splits option.splits prod.splits)
  have "E x cm'" by (rule assms(1) [OF cl_ok_facts(2) [OF assms(2)] f])
  then show ?thesis by (auto simp: w')
qed

lemma keeps_ask: "keeps (cl_other si n0) (call (ask f))"
  by (intro keeps_call step_ask)

lemma keeps_node_step:
  "(\<And>n cm r cm'. runs si n0 p cm \<Longrightarrow> f n cm = Some (r, cm') \<Longrightarrow> runs si n0 p cm') \<Longrightarrow> keeps (cl_other si n0) (call (node_step p f))"
  by (intro keeps_call step_node_step)

lemma keeps_send: "keeps (cl_other si n0) t \<Longrightarrow> keeps (cl_other si n0) (send_message si t)"
  unfolding send_message_def by (intro keeps_try_bind keeps_ask)

lemma keeps_allocate: "keeps (cl_other si n0) (node_allocate si p floor)"
  unfolding node_allocate_def
  by (rule keeps_send, rule keeps_node_step) (auto simp: and_then_Inr runs_allocate split: sum.splits)

lemma admission_runs:
  assumes "\<And>n cm r cm'. runs si n0 p cm \<Longrightarrow> handle n cm = Some (r, cm') \<Longrightarrow> runs si n0 p cm'" "runs si n0 p cm"
    "(if prepare_admission_blocker_ts cm \<noteq> None then Some (Inr None, cm)
      else map_option (\<lambda>(r, cm'). (map_sum id Some r, cm')) (handle n cm)) = Some (r, cm')"
  shows "runs si n0 p cm'"
  using assms by (auto split: if_splits)

lemma keeps_admit:
  assumes "\<And>n cm r cm'. runs si n0 p cm \<Longrightarrow> handle n cm = Some (r, cm') \<Longrightarrow> runs si n0 p cm'"
  shows "keeps (cl_other si n0) (admit_prepare si k p handle)"
proof (induction k)
  case (Suc k)
  have "keeps (cl_other si n0) (call (node_step p (\<lambda>n cm.
         if prepare_admission_blocker_ts cm \<noteq> None then Some (Inr None, cm)
         else map_option (\<lambda>(r, cm'). (map_sum id Some r, cm')) (handle n cm))))"
    by (rule keeps_node_step) (rule admission_runs [of si n0 p handle, OF assms])
  then show ?case using Suc by (auto intro!: keeps_try_bind keeps_ready split: option.split)
qed (simp add: keeps_ready)

lemma keeps_node_prepare: "keeps (cl_other si n0) (node_prepare si p txn tx source ts ps)"
  unfolding node_prepare_def by (auto intro!: keeps_send keeps_try_bind keeps_ask keeps_admit dest: runs_prepare)

lemma keeps_node_validate: "keeps (cl_other si n0) (node_validate si p txn tx source ts)"
  unfolding node_validate_def by (auto intro!: keeps_send keeps_try_bind keeps_ask keeps_node_step dest: runs_validate)

lemma keeps_await: "keeps (cl_other si n0) (await_reply k reply)"
  by (induction k) (auto intro!: keeps_bind keeps_call keeps_ready simp: step_same split: option.split)

lemma keeps_start_commit: "keeps (cl_other si n0) (call (node_step p (\<lambda>n cm. map_option (map_prod Inr id)
     (start_commit_prepared (si_env si) (si_decode si) (si_propose si n) txn wait (si_late si n) channel cm))))"
  by (rule keeps_node_step) (auto dest: runs_start_commit)

lemma keeps_finish_commit: "keeps (cl_other si n0) (call (node_finish_commit si p txn cts))"
  by (intro keeps_call step_finish_commit)

lemma keeps_commit_rounds: "keeps (cl_other si n0) (commit_rounds si k p txn wait channel)"
  by (induction k)
    (auto intro!: keeps_try_bind keeps_bind keeps_ready keeps_start_commit keeps_await keeps_finish_commit split: start_outcome.split)

lemma keeps_node_commit: "keeps (cl_other si n0) (node_commit si p txn wait)"
  unfolding node_commit_def by (intro keeps_send keeps_bind keeps_ask keeps_commit_rounds)

lemma keeps_node_rollback: "keeps (cl_other si n0) (node_rollback si p txn)"
  unfolding node_rollback_def
proof (intro keeps_bind keeps_send keeps_try_bind keeps_ask keeps_await)
  show "keeps (cl_other si n0) (call (node_step p (\<lambda>n cm. Some (start_rollback_prepared_through_raft (si_propose si n) txn channel cm))))" for channel
    by (rule keeps_node_step) (auto dest: runs_start_rollback)
  show "keeps (cl_other si n0) (if proposed then call (node_finish_rollback si p txn) else Ready ())" for proposed
    by (auto intro!: keeps_call step_finish_rollback keeps_ready)
qed

lemma send_outcome:
  assumes "achieves (cl_other si n0) (cl_ok si n0) t (cl_outcome si n0 Q)" "\<And>x. stable_under (cl_other si n0) (Q x)"
  shows "achieves (cl_other si n0) (cl_ok si n0) (send_message si t) (cl_outcome si n0 Q)"
  unfolding send_message_def
  by (rule cl.outcome_try [OF cl.outcome_true [OF cl.quiet_call [OF step_ask]] assms(2)]) (simp add: assms(1))

lemma admit_vote:
  "achieves (cl_other si n0) (cl_ok si n0)
     (admit_prepare si k p (\<lambda>n. handle_prepare_remote (si_env si) (si_encode si) (si_now si n) (si_prepare_io si n) txn tx source ts ps))
     (cl_outcome si n0 (\<lambda>ts'. cl_voted si txn p ts' tx))"
proof (induction k)
  case 0
  show ?case by (auto intro!: cl.outcome_ready cl_stable)
next
  case (Suc k)
  let ?handle = "\<lambda>n. handle_prepare_remote (si_env si) (si_encode si) (si_now si n) (si_prepare_io si n) txn tx source ts ps"
  let ?f = "\<lambda>n cm. if prepare_admission_blocker_ts cm \<noteq> None then Some (Inr None, cm)
         else map_option (\<lambda>(r, cm'). (map_sum id Some r, cm')) (?handle n cm)"
  let ?E = "\<lambda>x cm. \<forall>ts'. x = Some ts' \<longrightarrow> holds_vote si txn ts' tx cm"
  have E: "?E x cm'" if "runs si n0 p cm" "?f n cm = Some (Inr x, cm')" for n cm x cm'
  proof (intro allI impI)
    fix ts' assume "x = Some ts'"
    with that(2) have "?handle n cm = Some (Inr ts', cm')"
      by (auto split: if_splits) (case_tac a, auto)
    then show "holds_vote si txn ts' tx cm'" by (rule prepare_votes [OF that(1)])
  qed
  have "achieves (cl_other si n0) (cl_ok si n0) (call (node_step p ?f))
      (cl_outcome si n0 (\<lambda>x w. \<forall>ts'. x = Some ts' \<longrightarrow> cl_voted si txn p ts' tx w))"
  proof (rule cl.event_call)
    show "cl_other si n0 w (snd (node_step p ?f w))" for w
      by (rule step_node_step) (rule admission_runs [of si n0 p ?handle], auto dest: runs_prepare)
    fix w x w'
    assume "cl_ok si n0 w" "node_step p ?f w = (Inr x, w')"
    from node_step_event [of si n0 p ?f ?E, OF E this] show "\<forall>ts'. x = Some ts' \<longrightarrow> cl_voted si txn p ts' tx w'"
      unfolding cl_voted_def by fastforce
  qed (intro cl_stable stable_rules)
  then show ?case
    unfolding admit_prepare.simps
    by (rule cl.outcome_try [OF _ cl_stable(2)])
      (auto intro!: cl.outcome_ready cl_stable intro: achieves_weaken [OF Suc] split: option.split)
qed

lemma node_prepare_law:
  "achieves (cl_other si n0) (cl_ok si n0) (node_prepare si p txn tx source ts ps) (\<lambda>r w. \<forall>ts'. r = Inr ts' \<longrightarrow> cl_voted si txn p ts' tx w)"
proof (rule achieves_weaken)
  show "achieves (cl_other si n0) (cl_ok si n0) (node_prepare si p txn tx source ts ps) (cl_outcome si n0 (\<lambda>ts'. cl_voted si txn p ts' tx))"
    unfolding node_prepare_def
    by (rule cl.outcome_try [OF cl.outcome_true [OF cl.quiet_call [OF step_ask]] cl_stable(2)]) (simp add: send_outcome [OF admit_vote cl_stable(2)])
qed auto

lemma node_validate_law:
  "achieves (cl_other si n0) (cl_ok si n0) (node_validate si p txn tx source ts) (\<lambda>r w. \<forall>u. r = Inr u \<longrightarrow> cl_reads_valid si txn p ts tx w)"
proof (rule achieves_weaken)
  let ?f = "\<lambda>n cm. Some (validate_participant_reads (si_env si) tx source ts cm)"
  let ?E = "\<lambda>(x :: unit) cm. ensure_no_conflict (ce_ops (si_env si)) (pt_reads tx) (repeatable_ts (pt_begin_timestamp tx)) ts cm = Inr () \<and>
    ts \<le> cm_last_assigned_ts cm"
  have E: "?E x cm'" if "runs si n0 p cm" "?f n cm = Some (Inr x, cm')" for n :: nat and cm x cm'
    using that validate_reads_ok [of "si_env si" tx source ts cm cm'] by (auto simp: ensure_no_conflict_def cm_has_conflict_def)
  have "achieves (cl_other si n0) (cl_ok si n0) (call (node_step p ?f)) (cl_outcome si n0 (\<lambda>u. cl_reads_valid si txn p ts tx))"
  proof (rule cl.event_call)
    show "cl_other si n0 w (snd (node_step p ?f w))" for w
      by (rule step_node_step) (auto dest: runs_validate)
    fix w x w'
    assume "cl_ok si n0 w" "node_step p ?f w = (Inr x, w')"
    then have "\<exists>(nodes, log) \<in> set (cl_past w'). ?E x (nodes p)"
      by (intro node_step_event [of si n0 p ?f ?E w x w']) (rule E)
    then show "cl_reads_valid si txn p ts tx w'" unfolding cl_reads_valid_def .
  qed (intro cl_stable)
  then show "achieves (cl_other si n0) (cl_ok si n0) (node_validate si p txn tx source ts) (cl_outcome si n0 (\<lambda>u. cl_reads_valid si txn p ts tx))"
    unfolding node_validate_def
    by (intro cl.outcome_try [OF cl.outcome_true [OF cl.quiet_call [OF step_ask]] cl_stable(3)]) (simp add: send_outcome [OF _ cl_stable(3)])
qed auto

lemma await_law:
  "achieves (cl_other si n0) (cl_ok si n0) (await_reply k (\<lambda>w. cl_commit_replies w (p, txn, channel))) (cl_outcome si n0 (cl_published si n0 txn p))"
proof (induction k)
  case 0
  show ?case by (auto intro!: cl.outcome_ready cl_stable)
next
  case (Suc k)
  let ?Q = "\<lambda>r w. cl_ok si n0 w \<and> (\<forall>ts. r = Some (Inr ts) \<longrightarrow> cl_published si n0 txn p ts w)"
  have "achieves (cl_other si n0) (cl_ok si n0) (call (\<lambda>w. (cl_commit_replies w (p, txn, channel), remember w))) ?Q"
  proof (rule achieves_call)
    fix w r w'
    assume ok: "cl_ok si n0 w" and "(cl_commit_replies w (p, txn, channel), remember w) = (r, w')"
    then have r: "r = cl_commit_replies w (p, txn, channel)" "w' = remember w" by simp_all
    have ok': "cl_ok si n0 (remember w)" using step_same [of si n0 w] ok by (simp add: cl_other_def)
    then show "?Q r w'" unfolding r by (simp add: cl_ok_def)
  qed (intro cl_stable stable_rules)+
  then show ?case
    unfolding await_reply.simps
  proof (rule achieves_bind, goal_cases)
    case (1 r)
    show ?case
    proof (cases r)
      case None
      then show ?thesis using achieves_weaken [OF Suc] by auto
    next
      case (Some x)
      then show ?thesis by (cases x) (auto intro!: cl.outcome_ready cl_stable)
    qed
  qed
qed

lemma commit_rounds_law:
  "achieves (cl_other si n0) (cl_ok si n0) (commit_rounds si k p txn wait channel) (cl_outcome si n0 (cl_published si n0 txn p))"
proof (induction k)
  case 0
  show ?case by (auto intro!: cl.outcome_ready cl_stable)
next
  case (Suc k)
  have finish: "achieves (cl_other si n0) (cl_ok si n0) (task_bind (call (node_finish_commit si p txn cts)) (\<lambda>_.
      await_reply (si_patience si) (\<lambda>w. cl_commit_replies w (p, txn, channel)))) (cl_outcome si n0 (cl_published si n0 txn p))" for cts
    by (rule achieves_bind [OF cl.quiet_task [OF keeps_finish_commit]]) (rule await_law)
  show ?case
    unfolding commit_rounds.simps
    by (rule cl.outcome_try [OF cl.outcome_true [OF cl.quiet_task [OF keeps_start_commit]] cl_stable(4)])
      (auto intro!: cl.outcome_ready cl_stable finish await_law Suc split: start_outcome.split)
qed

lemma node_commit_law:
  "achieves (cl_other si n0) (cl_ok si n0) (node_commit si p txn wait) (\<lambda>r w. \<forall>ts. r = Inr ts \<longrightarrow> cl_published si n0 txn p ts w)"
proof (rule achieves_weaken)
  show "achieves (cl_other si n0) (cl_ok si n0) (node_commit si p txn wait) (cl_outcome si n0 (cl_published si n0 txn p))"
    unfolding node_commit_def by (rule achieves_bind [OF cl.quiet_task [OF keeps_ask]]) (rule send_outcome [OF commit_rounds_law cl_stable(4)])
qed auto

section \<open>The decision log of the cluster\<close>

lemma step_with_decisions:
  assumes "\<And>l r l'. bt_wf (ml_decisions l) \<Longrightarrow> f l = (r, l') \<Longrightarrow> bt_wf (ml_decisions l')"
  shows "cl_other si n0 w (snd (with_decisions f w))"
proof -
  obtain r l where f: "f (cl_decisions w) = (r, l)" by fastforce
  have "cl_other si n0 w (remember (w\<lparr>cl_decisions := l\<rparr>))"
    using assms [OF _ f] by (intro cl_other_remember) (simp_all add: cl_ok_facts)
  then show ?thesis by (simp add: with_decisions_def f)
qed

lemma step_log:
  "cl_other si n0 w (snd (dl_write_if_absent (cluster_log sha) txn d w))" "cl_other si n0 w (snd (dl_get (cluster_log sha) txn w))"
  "cl_other si n0 w (snd (dl_mark_resolved (cluster_log sha) txn p w))" "cl_other si n0 w (snd (dl_recover_staging (cluster_log sha) txn w))"
  "cl_other si n0 w (snd (dl_delete (cluster_log sha) txn w))"
  unfolding cluster_log_def decision_log.select_convs
  by (rule step_with_decisions, drule (1) memory_log.write_law, erule conjunct1,
      rule step_with_decisions, drule (1) memory_log.get_law, erule conjunct1,
      rule step_with_decisions, drule (1) memory_log.resolve_law, erule conjunct1,
      rule step_with_decisions, drule (1) memory_log.recover_law, erule conjunct1,
      rule step_with_decisions, drule (1) memory_log.delete_law, erule conjunct1)

lemma decided_after:
  "with_decisions f w = (r, w') \<Longrightarrow> (\<And>l. f (cl_decisions w) = (r, l) \<Longrightarrow> bt_get (ml_decisions l) txn = Some d) \<Longrightarrow> cl_decided txn d w'"
  by (auto simp: with_decisions_def cl_decided_def split: prod.splits)

lemma log_decides:
  "dl_write_if_absent (cluster_log sha) txn d w = (Inr True, w') \<Longrightarrow> cl_decided txn d w'"
  "dl_get (cluster_log sha) txn w = (Inr (Some d), w') \<Longrightarrow> cl_decided txn d w'"
  "dl_recover_staging (cluster_log sha) txn w = (Inr (RecCommitted d), w') \<Longrightarrow> cl_decided txn d w'"
  "dl_recover_staging (cluster_log sha) txn w = (Inr (RecAlreadyFinal d), w') \<Longrightarrow> cl_decided txn d w'"
  unfolding cluster_log_def mem_decision_log_def decision_log.select_convs
  by (erule decided_after, auto simp: mem_write_if_absent_def mem_recover_staging_def bt_get_insert_same split: option.splits if_splits)+

section \<open>The cluster keeps the contracts\<close>

interpretation net: participants "cl_other si n0" "cl_ok si n0" "cluster_rpc si" "\<lambda>addr p. si_home si addr = p"
  "cl_voted si" "cl_reads_valid si" "cl_published si n0" for si n0
  by unfold_locales
    (auto simp: cluster_rpc_def step_ask cl_stable keeps_ask keeps_node_prepare keeps_node_validate keeps_node_commit keeps_node_rollback
      reflpD [OF cl_other_refl] node_prepare_law node_validate_law [simplified] node_commit_law site_wf_def dest!: cl_ok_facts(3))

lemma cluster_rpc_connect: "rp_connect (cluster_rpc si) addr = call (ask (si_network si))"
  by (simp add: cluster_rpc_def)

lemma remote_laws:
  "achieves (cl_other si n0) (cl_ok si n0) (client_prepare k (cluster_rpc si) addr txn tx source ts v ps)
     (\<lambda>r w. \<forall>ts'. r = Inr ts' \<longrightarrow> cl_voted si txn (si_home si addr) ts' tx w)"
  "achieves (cl_other si n0) (cl_ok si n0) (client_validate_reads k (cluster_rpc si) addr txn tx source ts v)
     (\<lambda>r w. r = Inr () \<longrightarrow> cl_reads_valid si txn (si_home si addr) ts tx w)"
  "achieves (cl_other si n0) (cl_ok si n0) (client_commit_prepared k (cluster_rpc si) addr txn)
     (\<lambda>r w. \<forall>ts. r = Inr ts \<longrightarrow> cl_published si n0 txn (si_home si addr) ts w)"
proof -
  have *: "achieves (cl_other si n0) (cl_ok si n0) t (cl_outcome si n0 Q) \<Longrightarrow> achieves (cl_other si n0) (cl_ok si n0) t (\<lambda>r w. \<forall>x. r = Inr x \<longrightarrow> Q x w)" for t Q
    by (erule achieves_weaken) auto
  show "achieves (cl_other si n0) (cl_ok si n0) (client_prepare k (cluster_rpc si) addr txn tx source ts v ps)
     (\<lambda>r w. \<forall>ts'. r = Inr ts' \<longrightarrow> cl_voted si txn (si_home si addr) ts' tx w)"
    by (rule * [OF net.client_prepare_post]) simp
  show "achieves (cl_other si n0) (cl_ok si n0) (client_validate_reads k (cluster_rpc si) addr txn tx source ts v)
     (\<lambda>r w. r = Inr () \<longrightarrow> cl_reads_valid si txn (si_home si addr) ts tx w)"
    using * [OF net.client_validate_post [OF refl]] by simp
  show "achieves (cl_other si n0) (cl_ok si n0) (client_commit_prepared k (cluster_rpc si) addr txn)
     (\<lambda>r w. \<forall>ts. r = Inr ts \<longrightarrow> cl_published si n0 txn (si_home si addr) ts w)"
    by (rule * [OF net.client_commit_post]) simp
qed

lemma step_spawn: "keeps (cl_other si n0) t \<Longrightarrow> cl_other si n0 w (snd (run_task t w))"
  by (rule cl_other_star) (rule keeps_exec [OF run_exec [OF prod.collapse [symmetric]]])

interpretation coord: coordination "cl_other si n0" "cl_ok si n0" "cluster_coord si here" here "\<lambda>addr p. si_home si addr = p"
  "cl_voted si" "cl_reads_valid si" "cl_published si n0" cl_decided for si n0 here
  by unfold_locales
    (auto simp: cluster_coord_def cluster_rpc_connect step_ask cl_stable step_log step_spawn keeps_allocate keeps_node_prepare keeps_node_validate keeps_node_commit
      keeps_node_rollback keeps_ask [of si n0 "si_network si"] node_prepare_law node_validate_law [simplified] node_commit_law remote_laws net.keeps_client_prepare net.keeps_client_validate
      net.keeps_client_commit net.keeps_client_rollback log_decides)

end
