(* ===== verification/TwoPhaseWatcher.thy ===== *)
theory TwoPhaseWatcher
  imports TwoPhaseCluster
begin

text \<open>
  The watcher of two-phase commit, from \<open>crates/database/src/two_phase_watcher.rs\<close>:
  it carries out the decisions that a coordinator has left behind, rolls back
  prepares that have waited too long for a decision, and deletes decisions that
  every participant has resolved.

  \<open>watch_env\<close> holds the calls that leave the watcher: to the committer of its
  partition, to the decision log and to the bucket behind it.  Durations are in
  nanoseconds.  \<open>watch_round\<close> is one turn of the loop of \<open>start\<close>.  Log lines and
  metrics are left out.
\<close>

section \<open>The watcher\<close>

record 'w watch_env =
  wa_log :: "'w decision_log"
  wa_try_commit :: "string \<Rightarrow> ('w, anyhow_error + timestamp) task"
  wa_rollback :: "string \<Rightarrow> ('w, anyhow_error + unit) task"
  wa_redo_records :: "'w \<Rightarrow> (anyhow_error + (string, two_phase_redo_entry) btree_map) \<times> 'w"
  wa_now :: "'w \<Rightarrow> u64"
  wa_keys :: "'w \<Rightarrow> (anyhow_error + (anyhow_error + string) list) \<times> 'w"
  wa_entry :: "string \<Rightarrow> 'w \<Rightarrow> (anyhow_error + u8 list option) \<times> 'w"
  wa_parse :: "u8 list \<Rightarrow> two_phase_decision option"

definition resolved_decision_gc_grace :: nat where
  "resolved_decision_gc_grace = from_millis 60000"

definition prepare_timeout :: nat where
  "prepare_timeout = from_millis 30000"

definition says_unknown_transaction :: "anyhow_error \<Rightarrow> bool" where
  "says_unknown_transaction e = str_contains (err_to_string e) ''unknown transaction''"

definition apply_final_decision_for_local_partition ::
  "'w watch_env \<Rightarrow> partition_id \<Rightarrow> string \<Rightarrow> two_phase_decision \<Rightarrow> ('w, anyhow_error + bool) task" where
  "apply_final_decision_for_local_partition env here txn d =
     (case d of
        Staging _ _ _ _ _ _ _ \<Rightarrow> Ready (Inr False)
      | Committed _ ps _ _ \<Rightarrow>
          if here \<notin> set ps then Ready (Inr False)
          else task_bind (wa_try_commit env txn) (\<lambda>r. Ready (Inr (case r of Inr _ \<Rightarrow> True | Inl e \<Rightarrow> says_unknown_transaction e)))
      | RolledBack _ ps _ _ \<Rightarrow>
          if here \<notin> set ps then Ready (Inr False)
          else task_bind (wa_rollback env txn) (\<lambda>r. Ready (Inr (case r of Inr _ \<Rightarrow> True | Inl e \<Rightarrow> says_unknown_transaction e))))"

definition garbage_collect_resolved_decision ::
  "'w watch_env \<Rightarrow> string \<Rightarrow> two_phase_decision \<Rightarrow> nat \<Rightarrow> ('w, anyhow_error + bool) task" where
  "garbage_collect_resolved_decision env txn d grace =
     task_bind (call (\<lambda>w. (wa_now env w, w))) (\<lambda>now.
     if \<not> ready_for_gc now grace d then Ready (Inr False)
     else try_bind (call (dl_delete (wa_log env) txn)) (\<lambda>_. Ready (Inr True)))"

definition resolve_decision_for_local_partition ::
  "'w watch_env \<Rightarrow> partition_id \<Rightarrow> string \<Rightarrow> two_phase_decision \<Rightarrow> ('w, anyhow_error + bool) task" where
  "resolve_decision_for_local_partition env here txn d =
     try_bind
       (if is_staging d
        then try_bind (call (dl_recover_staging (wa_log env) txn)) (\<lambda>recovery. case recovery of
               RecCommitted recovered \<Rightarrow> apply_final_decision_for_local_partition env here txn recovered
             | RecAlreadyFinal recovered \<Rightarrow> apply_final_decision_for_local_partition env here txn recovered
             | RecPending _ \<Rightarrow> Ready (Inr False)
             | RecMissing \<Rightarrow> Ready (Inr False))
        else apply_final_decision_for_local_partition env here txn d) (\<lambda>resolved.
     if \<not> resolved then Ready (Inr False)
     else
       try_bind (call (dl_mark_resolved (wa_log env) txn here)) (\<lambda>updated. case updated of
           None \<Rightarrow> Ready (Inr True)
         | Some updated \<Rightarrow>
             if all_participants_resolved updated
             then try_bind (garbage_collect_resolved_decision env txn updated resolved_decision_gc_grace) (\<lambda>_. Ready (Inr True))
             else Ready (Inr True)))"

text \<open>The decision on an expired prepare: the one in the log, or a rollback that is written now.\<close>

definition decide_expired :: "'w watch_env \<Rightarrow> two_phase_redo_entry \<Rightarrow> ('w, anyhow_error + two_phase_decision) task" where
  "decide_expired env entry =
     (let txn = re_transaction_id entry in
      try_bind (call (dl_get (wa_log env) txn)) (\<lambda>found. case found of
          Some d \<Rightarrow> Ready (Inr d)
        | None \<Rightarrow>
            let d = rolled_back ''2PC prepare timed out without a durable coordinator decision'' (redo_participants entry) in
            try_bind (call (dl_write_if_absent (wa_log env) txn d)) (\<lambda>written.
            if written then Ready (Inr d)
            else try_bind (call (dl_get (wa_log env) txn)) (\<lambda>found. Ready (case found of
                Some d \<Rightarrow> Inr d
              | None \<Rightarrow> Inl (anyhow ''2PC Watcher: decision appeared during timeout rollback race but could not be read''))))))"

fun rollback_expired_entries ::
  "'w watch_env \<Rightarrow> partition_id \<Rightarrow> nat \<Rightarrow> nat \<Rightarrow> two_phase_redo_entry list \<Rightarrow> ('w, anyhow_error + nat) task" where
  "rollback_expired_entries env here timeout resolved [] = Ready (Inr resolved)"
| "rollback_expired_entries env here timeout resolved (entry # entries) =
     task_bind (call (\<lambda>w. (wa_now env w, w))) (\<lambda>now.
     if re_partition_id entry \<noteq> here \<or> \<not> prepare_timed_out now timeout entry
     then rollback_expired_entries env here timeout resolved entries
     else
       try_bind (decide_expired env entry) (\<lambda>d.
       try_bind (resolve_decision_for_local_partition env here (re_transaction_id entry) d) (\<lambda>done.
       rollback_expired_entries env here timeout (if done then resolved + 1 else resolved) entries)))"

definition rollback_expired_local_prepares ::
  "'w watch_env \<Rightarrow> partition_id \<Rightarrow> nat \<Rightarrow> ('w, anyhow_error + nat) task" where
  "rollback_expired_local_prepares env here timeout =
     try_bind (call (wa_redo_records env)) (\<lambda>records.
     rollback_expired_entries env here timeout 0 (map snd records))"

text \<open>A round of the loop.  Errors end up in the log, and the round goes on.\<close>

fun watch_keys :: "'w watch_env \<Rightarrow> partition_id \<Rightarrow> (anyhow_error + string) list \<Rightarrow> ('w, unit) task" where
  "watch_keys env here [] = Ready ()"
| "watch_keys env here (Inl e # keys) = watch_keys env here keys"
| "watch_keys env here (Inr key # keys) =
     (if \<not> prefix two_phase_kv_prefix key then watch_keys env here keys
      else
        task_bind (call (wa_entry env key)) (\<lambda>entry. case entry of
            Inr (Some value) \<Rightarrow>
              (case wa_parse env value of
                 None \<Rightarrow> watch_keys env here keys
               | Some d \<Rightarrow>
                   task_bind (resolve_decision_for_local_partition env here (drop (length two_phase_kv_prefix) key) d) (\<lambda>_.
                   watch_keys env here keys))
          | _ \<Rightarrow> watch_keys env here keys))"

definition watch_round :: "'w watch_env \<Rightarrow> partition_id \<Rightarrow> ('w, unit) task" where
  "watch_round env here =
     task_bind (rollback_expired_local_prepares env here prepare_timeout) (\<lambda>_.
     task_bind (call (wa_keys env)) (\<lambda>keys. case keys of Inl e \<Rightarrow> Ready () | Inr keys \<Rightarrow> watch_keys env here keys))"

end
