(* ===== verification/Spec2Isabelle.thy ===== *)
theory Spec2Isabelle
  imports IntervalSets TsoCluster TableNumbers DecisionCluster TableRegistry WriteLog SearchReads Routing SnapshotManager CommitProperties TwoPhaseWatcher
begin

text \<open>
  A verification library for the horizontally scaled Convex backend.

  \<^item> \<open>Prelude\<close>: machine words, results, ordered maps and sets.
  \<^item> \<open>Intervals\<close>: \<open>crates/common/src/interval/{key,bounds,mod}.rs\<close>.
  \<^item> \<open>IntervalSets\<close>: \<open>crates/common/src/interval/interval_set.rs\<close>.
\<close>

end
